(* ===== verification/Prelude.thy ===== *)
theory Prelude
  imports Main "HOL-Library.Word" "HOL-Library.Monad_Syntax"
begin

text \<open>
  Shared vocabulary of the development: the machine types of the Go code, the parts of Go's
  standard library that the modelled sources call (\<^verbatim>\<open>encoding/binary\<close>: big-endian integers and
  variable-length integers), the error-and-state composition used by the stateful components,
  and generic lemmas on lists.

  A Go \<^verbatim>\<open>byte\<close> is an \<open>8 word\<close>, \<^verbatim>\<open>uint64\<close> a \<open>64 word\<close>; a byte slice and a Go string are lists of
  bytes. An \<^verbatim>\<open>int64\<close> is an \<open>int\<close>: where the code computes on it, the wrap-around is written out
  with \<open>i64\<close>; where it is only compared, no wrap-around can happen.
\<close>

type_synonym byte = "8 word"
type_synonym bytes = "byte list"
type_synonym u64 = "64 word"

named_theorems go_codec \<open>round trips and lengths of the binary codecs\<close>
named_theorems go_monad \<open>unfolding of the error-and-state composition\<close>

subsection \<open>Signed 64-bit integers\<close>

definition i64 :: "int \<Rightarrow> int" where
  "i64 x = sint (word_of_int x :: 64 word)"

definition in_i64 :: "int \<Rightarrow> bool" where
  "in_i64 x \<longleftrightarrow> - (2 ^ 63) \<le> x \<and> x < 2 ^ 63"

definition u64_of :: "int \<Rightarrow> u64" where
  "u64_of x = word_of_int x"

definition i64_of :: "u64 \<Rightarrow> int" where
  "i64_of w = sint w"

definition MinInt64 :: int where "MinInt64 = - (2 ^ 63)"
definition MaxInt64 :: int where "MaxInt64 = 2 ^ 63 - 1"

subsection \<open>Big-endian integers (encoding/binary)\<close>

text \<open>\<open>putBE k n\<close> writes the low \<open>k\<close> bytes of \<open>n\<close>, most significant first; \<open>getBE\<close> reads them.\<close>

primrec putBE :: "nat \<Rightarrow> nat \<Rightarrow> bytes" where
  "putBE 0 n = []"
| "putBE (Suc k) n = putBE k (n div 256) @ [of_nat n]"

definition getBE :: "bytes \<Rightarrow> nat" where
  "getBE bs = foldl (\<lambda>a b. a * 256 + unat b) 0 bs"

definition PutUint64 :: "u64 \<Rightarrow> bytes" where
  "PutUint64 w = putBE 8 (unat w)"

definition Uint64 :: "bytes \<Rightarrow> u64" where
  "Uint64 bs = of_nat (getBE (take 8 bs))"

definition PutUint32 :: "nat \<Rightarrow> bytes" where
  "PutUint32 n = putBE 4 n"

definition Uint32 :: "bytes \<Rightarrow> nat" where
  "Uint32 bs = getBE (take 4 bs)"

definition PutUint16 :: "nat \<Rightarrow> bytes" where
  "PutUint16 n = putBE 2 n"

definition Uint16 :: "bytes \<Rightarrow> nat" where
  "Uint16 bs = getBE (take 2 bs)"

subsection \<open>Variable-length integers (encoding/binary)\<close>

text \<open>
  \<^verbatim>\<open>PutUvarint\<close> and \<^verbatim>\<open>Uvarint\<close>. The reader returns the value and the number of bytes read, 0 when
  the buffer ends too early, a negative number on overflow of 64 bits.
\<close>

fun putUvarint_nat :: "nat \<Rightarrow> bytes" where
  "putUvarint_nat x = (if x < 128 then [of_nat x] else of_nat (x mod 128 + 128) # putUvarint_nat (x div 128))"

definition PutUvarint :: "u64 \<Rightarrow> bytes" where
  "PutUvarint w = putUvarint_nat (unat w)"

primrec uvarint_from :: "nat \<Rightarrow> nat \<Rightarrow> bytes \<Rightarrow> u64 \<times> int" where
  "uvarint_from i x [] = (0, 0)"
| "uvarint_from i x (b # bs) =
     (if unat b < 128
      then (if i > 9 \<or> i = 9 \<and> unat b > 1 then (0, - (int i + 1))
            else (of_nat (x + unat b * 2 ^ (7 * i)), int i + 1))
      else uvarint_from (Suc i) (x + (unat b - 128) * 2 ^ (7 * i)) bs)"

definition Uvarint :: "bytes \<Rightarrow> u64 \<times> int" where
  "Uvarint bs = uvarint_from 0 0 bs"

subsection \<open>Methods that can fail after having changed their receiver\<close>

text \<open>
  A Go method with a pointer receiver and an error result is a function from the state to the
  error or the result, and the state it leaves behind; an early return keeps the mutations
  already made.
\<close>

type_synonym ('s, 'e, 'a) meth = "'s \<Rightarrow> ('e + 'a) \<times> 's"

definition ret :: "'a \<Rightarrow> ('s, 'e, 'a) meth" where
  "ret a s = (Inr a, s)"

definition raise :: "'e \<Rightarrow> ('s, 'e, 'a) meth" where
  "raise e s = (Inl e, s)"

definition bindE :: "('s, 'e, 'a) meth \<Rightarrow> ('a \<Rightarrow> ('s, 'e, 'b) meth) \<Rightarrow> ('s, 'e, 'b) meth" where
  "bindE m f s = (case m s of (Inl e, t) \<Rightarrow> (Inl e, t) | (Inr a, t) \<Rightarrow> f a t)"

definition update :: "('s \<Rightarrow> 's) \<Rightarrow> ('s, 'e, unit) meth" where
  "update f s = (Inr (), f s)"

subsection \<open>Lemmas: signed integers\<close>

lemma i64_id [simp]: "in_i64 x \<Longrightarrow> i64 x = x"
  by (simp add: i64_def in_i64_def sint_uint uint_word_of_int_eq signed_take_bit_take_bit signed_take_bit_int_eq_self)

lemma in_i64_i64 [simp]: "in_i64 (i64 x)"
  using sint_ge [of "word_of_int x :: 64 word"] sint_lt [of "word_of_int x :: 64 word"]
  by (simp add: i64_def in_i64_def)

lemma i64_of_u64_of [simp]: "i64_of (u64_of x) = i64 x"
  by (simp add: i64_of_def u64_of_def i64_def)

lemma u64_of_i64_of [simp]: "u64_of (i64_of w) = w"
  by (simp add: i64_of_def u64_of_def)

lemma in_i64_i64_of [simp]: "in_i64 (i64_of w)"
  using sint_ge [of w] sint_lt [of w] by (simp add: i64_of_def in_i64_def)

lemma u64_of_i64 [simp]: "u64_of (i64 x) = u64_of x"
  by (simp add: u64_of_def i64_def)

lemma u64_of_add: "u64_of (x + y) = u64_of x + u64_of y"
  by (simp add: u64_of_def)

lemma u64_of_diff: "u64_of (x - y) = u64_of x - u64_of y"
  by (simp add: u64_of_def)

lemma u64_of_mult: "u64_of (x * y) = u64_of x * u64_of y"
  by (simp add: u64_of_def)

lemma i64_eq_iff: "i64 x = i64 y \<longleftrightarrow> u64_of x = u64_of y"
  by (metis i64_of_u64_of u64_of_i64)

lemma i64_add_i64 [simp]: "i64 (i64 x + y) = i64 (x + y)" "i64 (x + i64 y) = i64 (x + y)"
  by (simp_all add: i64_eq_iff u64_of_add)

lemma i64_of_of_nat: "n < 2 ^ 63 \<Longrightarrow> i64_of (of_nat n) = int n"
proof -
  assume "n < 2 ^ 63"
  then have "int n < int (2 ^ 63)" unfolding of_nat_less_iff .
  then have "in_i64 (int n)" by (simp add: in_i64_def)
  then have "i64_of (u64_of (int n)) = int n" by simp
  then show ?thesis by (simp add: u64_of_def)
qed

lemma i64_of_eq_i64: "i64_of w = i64 (uint w)"
  by (simp add: i64_of_def i64_def)

lemma i64_wrap: "2 ^ 63 \<le> x \<Longrightarrow> x < 2 ^ 63 + 2 ^ 64 \<Longrightarrow> i64 x = x - 2 ^ 64"
proof -
  assume a: "2 ^ 63 \<le> x" "x < 2 ^ 63 + 2 ^ 64"
  have "u64_of (x - 2 ^ 64) = u64_of x" by (simp add: u64_of_def)
  then have "i64 x = i64 (x - 2 ^ 64)" by (simp only: i64_eq_iff)
  also have "\<dots> = x - 2 ^ 64" using a by (intro i64_id) (simp add: in_i64_def)
  finally show ?thesis .
qed

lemma i64_u64: "i64 x = i64_of (u64_of x)"
  by simp

subsection \<open>Lemmas: big-endian integers\<close>

lemma length_putBE [simp]: "length (putBE k n) = k"
  by (induction k arbitrary: n) auto

lemma getBE_Nil [simp]: "getBE [] = 0"
  by (simp add: getBE_def)

lemma getBE_snoc [simp]: "getBE (bs @ [b]) = getBE bs * 256 + unat b"
  by (simp add: getBE_def)

lemma getBE_putBE_mod: "getBE (putBE k n) = n mod 256 ^ k"
proof (induction k arbitrary: n)
  case 0
  then show ?case by simp
next
  case (Suc k)
  have "n mod (256 * 256 ^ k) = 256 * (n div 256 mod 256 ^ k) + n mod 256"
    by (rule mod_mult2_eq)
  then show ?case
    by (simp add: Suc.IH unat_of_nat)
qed

lemma getBE_putBE [go_codec]: "n < 256 ^ k \<Longrightarrow> getBE (putBE k n) = n"
  by (simp add: getBE_putBE_mod)

lemma getBE_bound: "getBE bs < 256 ^ length bs"
proof (induction bs rule: rev_induct)
  case Nil
  then show ?case by simp
next
  case (snoc b bs)
  have "unat b < 256" using unsigned_less [of b, where ?'a = nat] by simp
  moreover have "getBE bs + 1 \<le> 256 ^ length bs" using snoc.IH by simp
  then have "(getBE bs + 1) * 256 \<le> 256 ^ length bs * 256" by (rule mult_right_mono) simp
  ultimately show ?case by simp
qed

lemma putBE_getBE: "putBE (length bs) (getBE bs) = bs"
proof (induction bs rule: rev_induct)
  case Nil
  then show ?case by simp
next
  case (snoc b bs)
  have "unat b < 256" using unsigned_less [of b, where ?'a = nat] by simp
  then have "(getBE bs * 256 + unat b) div 256 = getBE bs" by simp
  moreover have "(of_nat (getBE bs * 256 + unat b) :: byte) = b"
    by (rule word_unat_eq_iff [THEN iffD2]) (simp add: unat_of_nat \<open>unat b < 256\<close> del: of_nat_add)
  ultimately show ?case using snoc.IH by simp
qed

lemma length_PutUint64 [simp]: "length (PutUint64 w) = 8"
  by (simp add: PutUint64_def)

lemma length_PutUint32 [simp]: "length (PutUint32 n) = 4"
  by (simp add: PutUint32_def)

lemma length_PutUint16 [simp]: "length (PutUint16 n) = 2"
  by (simp add: PutUint16_def)

lemma Uint64_PutUint64 [go_codec, simp]: "Uint64 (PutUint64 w @ rest) = w"
proof -
  have "unat w < 256 ^ 8" using unsigned_less [of w, where ?'a = nat] by simp
  then show ?thesis by (simp add: Uint64_def PutUint64_def getBE_putBE)
qed

lemma Uint64_PutUint64_Nil [simp]: "Uint64 (PutUint64 w) = w"
  using Uint64_PutUint64 [of w "[]"] by simp

lemma Uint32_PutUint32 [go_codec]: "n < 2 ^ 32 \<Longrightarrow> Uint32 (PutUint32 n @ rest) = n"
  by (simp add: Uint32_def PutUint32_def getBE_putBE)

lemma Uint16_PutUint16 [go_codec]: "n < 2 ^ 16 \<Longrightarrow> Uint16 (PutUint16 n @ rest) = n"
  by (simp add: Uint16_def PutUint16_def getBE_putBE)

lemma PutUint64_Uint64: "length bs = 8 \<Longrightarrow> PutUint64 (Uint64 bs) = bs"
proof -
  assume "length bs = 8"
  then have "getBE bs < 2 ^ 64" using getBE_bound [of bs] by simp
  then have "unat (of_nat (getBE bs) :: u64) = getBE bs" by (simp add: unat_of_nat)
  with \<open>length bs = 8\<close> show ?thesis
    using putBE_getBE [of bs] by (simp add: PutUint64_def Uint64_def)
qed

subsection \<open>Lemmas: variable-length integers\<close>

declare putUvarint_nat.simps [simp del]

lemma putUvarint_nat_neq_Nil [simp]: "putUvarint_nat x \<noteq> []"
  by (subst putUvarint_nat.simps) simp

lemma uvarint_from_put:
  assumes "acc + x * 2 ^ (7 * i) < 2 ^ 64" and "i \<le> 9" and "x > 0 \<or> i = 0"
  shows "uvarint_from i acc (putUvarint_nat x @ rest) =
    (of_nat (acc + x * 2 ^ (7 * i)), int (i + length (putUvarint_nat x)))"
  using assms
proof (induction x arbitrary: i acc rule: putUvarint_nat.induct)
  case (1 x)
  show ?case
  proof (cases "x < 128")
    case True
    have "\<not> (i = 9 \<and> x > 1)"
    proof
      assume "i = 9 \<and> x > 1"
      then have "2 * 2 ^ 63 \<le> x * 2 ^ (7 * i)" by simp
      with "1.prems"(1) show False by simp
    qed
    moreover have "unat (of_nat x :: byte) = x"
      using True by (simp add: unat_of_nat)
    ultimately show ?thesis
      using True "1.prems"(2) putUvarint_nat.simps [of x] by simp
  next
    case False
    have ix: "i < 9"
    proof (rule ccontr)
      assume "\<not> i < 9"
      with "1.prems"(2) have "i = 9" by simp
      with False "1.prems"(1) show False by simp
    qed
    have split: "(x mod 128) * 2 ^ (7 * i) + (x div 128) * 2 ^ (7 * Suc i) = x * 2 ^ (7 * i)"
    proof -
      have "x * p = (x div 128 * 128) * p + (x mod 128) * p" for p
        by (metis div_mult_mod_eq add_mult_distrib)
      then show ?thesis by (simp add: power_add)
    qed
    have b: "unat (of_nat (x mod 128 + 128) :: byte) = x mod 128 + 128"
    proof -
      have "x mod 128 + 128 < 256" by simp
      then show ?thesis by (simp add: unat_of_nat del: of_nat_add)
    qed
    have "uvarint_from (Suc i) (acc + (x mod 128) * 2 ^ (7 * i)) (putUvarint_nat (x div 128) @ rest)
      = (of_nat (acc + (x mod 128) * 2 ^ (7 * i) + (x div 128) * 2 ^ (7 * Suc i)),
         int (Suc i + length (putUvarint_nat (x div 128))))"
      using False ix split "1.prems"(1) by (intro "1.IH") (simp_all add: add.assoc)
    with False b split putUvarint_nat.simps [of x] show ?thesis
      by (simp add: add.assoc del: of_nat_add of_nat_mult power_Suc mult_Suc_right)
  qed
qed

lemma Uvarint_PutUvarint [go_codec]:
  "Uvarint (PutUvarint w @ rest) = (w, int (length (PutUvarint w)))"
proof -
  have "unat w < 2 ^ 64" using unsigned_less [of w, where ?'a = nat] by simp
  then show ?thesis
    by (simp add: Uvarint_def PutUvarint_def uvarint_from_put)
qed

lemma uvarint_from_le: "uvarint_from i x bs = (w, n) \<Longrightarrow> n \<le> int i + int (length bs)"
  by (induction bs arbitrary: i x) (fastforce split: if_splits)+

lemma Uvarint_le: "Uvarint bs = (w, n) \<Longrightarrow> n \<le> int (length bs)"
  using uvarint_from_le [of 0 0 bs w n] by (simp add: Uvarint_def)

lemma length_PutUvarint_pos [simp]: "0 < length (PutUvarint w)"
  by (simp add: PutUvarint_def)

lemma length_putUvarint_nat: "x < 128 ^ Suc k \<Longrightarrow> length (putUvarint_nat x) \<le> Suc k"
proof (induction k arbitrary: x)
  case 0
  then show ?case by (subst putUvarint_nat.simps) simp
next
  case (Suc k)
  then have "x div 128 < 128 ^ Suc k"
    by (simp add: less_mult_imp_div_less mult.commute)
  then have "length (putUvarint_nat (x div 128)) \<le> Suc k" by (rule Suc.IH)
  then show ?case by (subst putUvarint_nat.simps) simp
qed

lemma length_PutUvarint_le: "length (PutUvarint w) \<le> 10"
proof -
  have "unat w < 128 ^ Suc 9"
    using unsigned_less [of w, where ?'a = nat] by simp
  then show ?thesis using length_putUvarint_nat [of "unat w" 9] by (simp add: PutUvarint_def)
qed

subsection \<open>Lemmas: composition of methods\<close>

lemma bindE_Inl [go_monad]: "m s = (Inl e, t) \<Longrightarrow> bindE m f s = (Inl e, t)"
  by (simp add: bindE_def)

lemma bindE_Inr [go_monad]: "m s = (Inr a, t) \<Longrightarrow> bindE m f s = f a t"
  by (simp add: bindE_def)

lemmas go_monad_defs = ret_def raise_def update_def bindE_def

subsection \<open>Lemmas: lists\<close>

lemma take_append_exact [simp]: "length xs = n \<Longrightarrow> take n (xs @ ys) = xs"
  by simp

lemma drop_append_exact [simp]: "length xs = n \<Longrightarrow> drop n (xs @ ys) = ys"
  by simp

end
