(* ===== verification/Hh_Segment.thy ===== *)
theory Hh_Segment
  imports Prelude "HOL-Library.AList" "HOL-Library.Char_ord" "HOL-Library.List_Lexorder"
begin

text \<open>
  One segment file of the hinted-handoff queue (\<^verbatim>\<open>services/hh/queue.go\<close>, type \<^verbatim>\<open>segment\<close>).

  The directory of the queue is an explicit store of files; an open file handle is the current
  offset. Reads, writes and seeks are those of \<^verbatim>\<open>os.File\<close> on a regular file, including end of
  file, short reads and invalid seeks; failures of the device itself are not modelled. A segment
  holds records, each preceded by its length in 8 bytes, and ends in an 8-byte footer with the
  position of the first record that has not been consumed.
\<close>

subsection \<open>Files\<close>

datatype hh_error =
    ErrNotOpen | ErrQueueFull | ErrSegmentFull | EOF
  | ErrInvalid | InvalidSeek | BadSeek | BadRead | RecordSizeOutOfRange int int
  | NotExist | IsDirectory | QueueIsOpen | ErrPanic

record hh_file =
  f_isdir :: bool
  f_data :: bytes
  f_mtime :: int

record hh_disk =
  files :: "(string \<times> hh_file) list"
  clock :: int

definition put_file :: "string \<Rightarrow> hh_file \<Rightarrow> hh_disk \<Rightarrow> hh_disk" where
  "put_file p f d = d\<lparr>files := AList.update p f (files d)\<rparr>"

definition file_at :: "hh_disk \<Rightarrow> string \<Rightarrow> hh_file option" where
  "file_at d p = map_of (files d) p"

subsection \<open>The segment\<close>

record segment =
  s_size :: int
  s_file :: "int option"
  s_path :: string
  s_pos :: int
  s_currentSize :: int
  s_maxSize :: int

type_synonym seg_state = "hh_disk \<times> segment"
type_synonym 'a seg_method = "(seg_state, hh_error, 'a) meth"

definition footerSize :: int where "footerSize = 8"

text \<open>\<^verbatim>\<open>os.File\<close> methods on a nil file return \<^verbatim>\<open>os.ErrInvalid\<close>.\<close>

definition seek :: "int \<Rightarrow> unit seg_method" where
  "seek p = (\<lambda>(d, s). case s_file s of
      None \<Rightarrow> (Inl ErrInvalid, (d, s))
    | Some _ \<Rightarrow> if p < 0 then (Inl InvalidSeek, (d, s)) else (Inr (), (d, s\<lparr>s_file := Some p\<rparr>)))"

definition seekToCurrent :: "unit seg_method" where
  "seekToCurrent = (\<lambda>(d, s). seek (s_pos s) (d, s))"

definition seekEnd :: "int \<Rightarrow> unit seg_method" where
  "seekEnd p = (\<lambda>(d, s). case (s_file s, file_at d (s_path s)) of
      (Some _, Some f) \<Rightarrow>
        (let n = int (length (f_data f)) + p
         in if n < 0 then (Inl InvalidSeek, (d, s)) else (Inr (), (d, s\<lparr>s_file := Some n\<rparr>)))
    | _ \<Rightarrow> (Inl ErrInvalid, (d, s)))"

definition filePos :: "segment \<Rightarrow> int" where
  "filePos s = (case s_file s of None \<Rightarrow> 0 | Some n \<Rightarrow> n)"

definition write_at :: "nat \<Rightarrow> bytes \<Rightarrow> bytes \<Rightarrow> bytes" where
  "write_at off b xs = take off xs @ replicate (off - length xs) 0 @ b @ drop (off + length b) xs"

definition writeBytes :: "bytes \<Rightarrow> unit seg_method" where
  "writeBytes b = (\<lambda>(d, s). case (s_file s, file_at d (s_path s)) of
      (Some n, Some f) \<Rightarrow>
        (Inr (), (put_file (s_path s) (f\<lparr>f_data := write_at (nat n) b (f_data f), f_mtime := clock d\<rparr>) d,
                  s\<lparr>s_file := Some (n + int (length b))\<rparr>))
    | _ \<Rightarrow> (Inl ErrInvalid, (d, s)))"

definition readBytes :: "nat \<Rightarrow> bytes seg_method" where
  "readBytes k = (\<lambda>(d, s). case (s_file s, file_at d (s_path s)) of
      (Some n, Some f) \<Rightarrow>
        (let b = take k (drop (nat n) (f_data f))
         in if k > 0 \<and> b = [] then (Inl EOF, (d, s))
            else if length b \<noteq> k then (Inl BadRead, (d, s\<lparr>s_file := Some (n + int (length b))\<rparr>))
            else (Inr b, (d, s\<lparr>s_file := Some (n + int k)\<rparr>)))
    | _ \<Rightarrow> (Inl ErrInvalid, (d, s)))"

definition readUint64 :: "u64 seg_method" where
  "readUint64 = bindE (readBytes 8) (\<lambda>b. ret (Uint64 b))"

definition writeUint64 :: "u64 \<Rightarrow> unit seg_method" where
  "writeUint64 sz = writeBytes (PutUint64 sz)"

definition set_pos :: "int \<Rightarrow> unit seg_method" where
  "set_pos p = update (\<lambda>(d, s). (d, s\<lparr>s_pos := p\<rparr>))"

definition set_currentSize :: "int \<Rightarrow> unit seg_method" where
  "set_currentSize n = update (\<lambda>(d, s). (d, s\<lparr>s_currentSize := n\<rparr>))"

definition set_size :: "int \<Rightarrow> unit seg_method" where
  "set_size n = update (\<lambda>(d, s). (d, s\<lparr>s_size := n\<rparr>))"

text \<open>\<^verbatim>\<open>segment.open\<close>: a new file gets a footer; an existing one is positioned by its footer.\<close>

definition open_segment :: "unit seg_method" where
  "open_segment = (\<lambda>(d, s).
     if s_size s = 0 then
       bindE (set_pos 0) (\<lambda>_. bindE (set_currentSize 0) (\<lambda>_.
       bindE (writeUint64 (u64_of 0)) (\<lambda>_. set_size footerSize))) (d, s)
     else
       bindE (seekEnd (- footerSize)) (\<lambda>_.
       bindE readUint64 (\<lambda>pos.
       bindE (set_pos (i64_of pos)) (\<lambda>_.
       bindE seekToCurrent (\<lambda>_ (d, s).
         if s_pos s < s_size s - footerSize
         then bindE readUint64 (\<lambda>sz. set_currentSize (i64_of sz)) (d, s)
         else (Inr (), (d, s)))))) (d, s))"

definition append_segment :: "bytes \<Rightarrow> unit seg_method" where
  "append_segment b = (\<lambda>(d, s).
     if s_file s = None then (Inl ErrNotOpen, (d, s))
     else if i64 (s_size s + int (length b)) > s_maxSize s then (Inl ErrSegmentFull, (d, s))
     else bindE (seekEnd (- footerSize)) (\<lambda>_.
          bindE (writeUint64 (of_nat (length b))) (\<lambda>_.
          bindE (writeBytes b) (\<lambda>_.
          bindE (writeUint64 (u64_of (s_pos s))) (\<lambda>_ (d, s).
            let s' = (if s_currentSize s = 0 then s\<lparr>s_currentSize := int (length b)\<rparr> else s)
            in (Inr (), (d, s'\<lparr>s_size := i64 (s_size s + (int (length b) + 8))\<rparr>)))))) (d, s))"

definition current_segment :: "bytes seg_method" where
  "current_segment = (\<lambda>(d, s).
     if s_pos s = i64 (s_size s - 8) then (Inl EOF, (d, s))
     else bindE seekToCurrent (\<lambda>_.
          bindE readUint64 (\<lambda>sz.
          bindE (set_currentSize (i64_of sz)) (\<lambda>_ (d, s).
            if i64_of sz > s_maxSize s then (Inl (RecordSizeOutOfRange (s_maxSize s) (i64_of sz)), (d, s))
            else if i64_of sz < 0 then (Inl ErrPanic, (d, s))
            else readBytes (unat sz) (d, s)))) (d, s))"

definition advance_segment :: "unit seg_method" where
  "advance_segment = (\<lambda>(d, s).
     if s_file s = None then (Inl ErrNotOpen, (d, s))
     else if s_pos s = i64 (s_size s - footerSize) then (Inl EOF, (d, s\<lparr>s_currentSize := 0\<rparr>))
     else bindE (seekEnd (- footerSize)) (\<lambda>_ (d, s).
            let pos = i64 (s_pos s + s_currentSize s + 8) in
            bindE (writeUint64 (u64_of pos)) (\<lambda>_.
            bindE (set_pos pos) (\<lambda>_.
            bindE seekToCurrent (\<lambda>_.
            bindE readUint64 (\<lambda>sz.
            bindE (set_currentSize (i64_of sz)) (\<lambda>_ (d, s).
              if s_pos s = i64 (s_size s - footerSize)
              then (Inl EOF, (d, s\<lparr>s_currentSize := 0\<rparr>))
              else (Inr (), (d, s))))))) (d, s)) (d, s))"

definition close_segment :: "unit seg_method" where
  "close_segment = (\<lambda>(d, s). case s_file s of
      None \<Rightarrow> (Inl ErrInvalid, (d, s))
    | Some _ \<Rightarrow> (Inr (), (d, s\<lparr>s_file := None\<rparr>)))"

text \<open>\<^verbatim>\<open>lastModified\<close> asks the handle for its name: on a nil handle that is a nil dereference.\<close>

definition lastModified :: "int seg_method" where
  "lastModified = (\<lambda>(d, s). case s_file s of
      None \<Rightarrow> (Inl ErrPanic, (d, s))
    | Some _ \<Rightarrow> (case file_at d (s_path s) of
        None \<Rightarrow> (Inl NotExist, (d, s)) | Some f \<Rightarrow> (Inr (f_mtime f), (d, s))))"

definition diskUsage_segment :: "segment \<Rightarrow> int" where
  "diskUsage_segment s = s_size s"

definition SetMaxSegmentSize_segment :: "int \<Rightarrow> segment \<Rightarrow> segment" where
  "SetMaxSegmentSize_segment n s = s\<lparr>s_maxSize := n\<rparr>"

text \<open>\<^verbatim>\<open>newSegment\<close> creates the file when it is missing.\<close>

definition newSegment :: "string \<Rightarrow> int \<Rightarrow> hh_disk \<Rightarrow> (hh_error + segment) \<times> hh_disk" where
  "newSegment path maxSize d =
     (let d1 = (case file_at d path of
                  None \<Rightarrow> put_file path \<lparr>f_isdir = False, f_data = [], f_mtime = clock d\<rparr> d
                | Some _ \<Rightarrow> d)
      in case file_at d1 path of
           None \<Rightarrow> (Inl NotExist, d1)
         | Some f \<Rightarrow>
             if f_isdir f then (Inl IsDirectory, d1)
             else let s = \<lparr>s_size = int (length (f_data f)), s_file = Some 0, s_path = path,
                           s_pos = 0, s_currentSize = 0, s_maxSize = maxSize\<rparr>
                  in case open_segment (d1, s) of
                       (Inl e, (d2, _)) \<Rightarrow> (Inl e, d2)
                     | (Inr _, (d2, s2)) \<Rightarrow> (Inr s2, d2))"

subsection \<open>What a segment file holds\<close>

text \<open>
  The file of a segment with consumed records \<open>dn\<close> and pending records \<open>td\<close> is their encoding
  followed by the footer. \<open>seg_rep\<close> also ties the cached fields of the segment to the file.
\<close>

definition enc_rec :: "bytes \<Rightarrow> bytes" where
  "enc_rec r = PutUint64 (of_nat (length r)) @ r"

definition enc_recs :: "bytes list \<Rightarrow> bytes" where
  "enc_recs rs = concat (map enc_rec rs)"

definition head_size :: "bytes list \<Rightarrow> int" where
  "head_size td = (case td of [] \<Rightarrow> 0 | r # _ \<Rightarrow> int (length r))"

definition seg_data :: "bytes list \<Rightarrow> bytes list \<Rightarrow> bytes" where
  "seg_data dn td = enc_recs dn @ enc_recs td @ PutUint64 (u64_of (int (length (enc_recs dn))))"

definition file_rep :: "hh_disk \<Rightarrow> string \<Rightarrow> bytes list \<Rightarrow> bytes list \<Rightarrow> bool" where
  "file_rep d p dn td \<longleftrightarrow>
     (\<exists>f. file_at d p = Some f \<and> \<not> f_isdir f \<and> f_data f = seg_data dn td) \<and>
     int (length (seg_data dn td)) < 2 ^ 63"

definition seg_rep :: "hh_disk \<Rightarrow> segment \<Rightarrow> bytes list \<Rightarrow> bytes list \<Rightarrow> bool" where
  "seg_rep d s dn td \<longleftrightarrow>
     file_rep d (s_path s) dn td \<and>
     (\<exists>n. s_file s = Some n) \<and>
     s_pos s = int (length (enc_recs dn)) \<and>
     s_size s = int (length (seg_data dn td)) \<and>
     s_currentSize s = head_size td \<and>
     (\<forall>r\<in>set td. r \<noteq> [] \<and> int (length r) \<le> s_maxSize s)"

subsection \<open>Lemmas: files\<close>

lemma file_at_put_file [simp]: "file_at (put_file p f d) q = (if q = p then Some f else file_at d q)"
  by (simp add: file_at_def put_file_def update_conv')

lemma clock_put_file [simp]: "clock (put_file p f d) = clock d"
  by (simp add: put_file_def)

lemma put_file_twice [simp]: "put_file p g (put_file p f d) = put_file p g d"
  by (simp add: put_file_def update_last)

lemma write_at_end [simp]: "write_at (length xs) b xs = xs @ b"
  by (simp add: write_at_def)

lemma write_at_suffix: "length b = length ys \<Longrightarrow> write_at (length xs) b (xs @ ys) = xs @ b"
  by (simp add: write_at_def)

lemma enc_recs_simps [simp]:
  "enc_recs [] = []"
  "enc_recs (r # rs) = enc_rec r @ enc_recs rs"
  "enc_recs (rs @ rs') = enc_recs rs @ enc_recs rs'"
  by (simp_all add: enc_recs_def)

lemma length_enc_rec [simp]: "length (enc_rec r) = 8 + length r"
  by (simp add: enc_rec_def)

lemma length_seg_data [simp]:
  "length (seg_data dn td) = length (enc_recs dn) + length (enc_recs td) + 8"
  by (simp add: seg_data_def)

lemma file_rep_put_other:
  "p \<noteq> q \<Longrightarrow> file_rep (put_file p f d) q dn td = file_rep d q dn td"
  by (simp add: file_rep_def)

lemma i64_of_small: "n < 2 ^ 63 \<Longrightarrow> i64_of (of_nat n) = int n"
proof -
  assume "n < 2 ^ 63"
  moreover have "int n < 2 ^ 63" using \<open>n < 2 ^ 63\<close> by (metis of_nat_less_iff of_nat_numeral of_nat_power)
  ultimately have "in_i64 (int n)" by (simp add: in_i64_def)
  then have "i64_of (u64_of (int n)) = int n" by simp
  then show ?thesis by (simp add: u64_of_def)
qed

lemma in_i64_nat: "0 \<le> x \<Longrightarrow> x < 2 ^ 63 \<Longrightarrow> in_i64 x"
  by (simp add: in_i64_def)

subsection \<open>Lemmas: the methods of a segment\<close>

lemma seekEnd_suffix:
  assumes "s_file s = Some n" "file_at d (s_path s) = Some f" "f_data f = xs @ ys" "int (length ys) = k"
  shows "seekEnd (- k) (d, s) = (Inr (), (d, s\<lparr>s_file := Some (int (length xs))\<rparr>))"
  using assms by (auto simp: seekEnd_def Let_def)

lemma writeBytes_at:
  assumes "s_file s = Some (int k)" "file_at d (s_path s) = Some f"
  shows "writeBytes b (d, s) =
    (Inr (), (put_file (s_path s) (f\<lparr>f_data := write_at k b (f_data f), f_mtime := clock d\<rparr>) d,
              s\<lparr>s_file := Some (int k + int (length b))\<rparr>))"
  using assms by (simp add: writeBytes_def)

lemma readBytes_at:
  assumes "s_file s = Some (int (length xs))" "file_at d (s_path s) = Some f"
    and "f_data f = xs @ b @ ys" "length b = k" "b \<noteq> []"
  shows "readBytes k (d, s) = (Inr b, (d, s\<lparr>s_file := Some (int (length xs) + int k)\<rparr>))"
  using assms by (auto simp: readBytes_def Let_def)

lemma readUint64_at:
  assumes "s_file s = Some (int (length xs))" "file_at d (s_path s) = Some f"
    and "f_data f = xs @ PutUint64 w @ ys"
  shows "readUint64 (d, s) = (Inr w, (d, s\<lparr>s_file := Some (int (length xs) + 8)\<rparr>))"
proof -
  have "readBytes 8 (d, s) = (Inr (PutUint64 w), (d, s\<lparr>s_file := Some (int (length xs) + int 8)\<rparr>))"
    using assms by (intro readBytes_at) (auto simp flip: length_greater_0_conv)
  then show ?thesis by (simp add: readUint64_def go_monad ret_def)
qed

lemma seekToCurrent_open:
  assumes "s_file s = Some n" "0 \<le> s_pos s"
  shows "seekToCurrent (d, s) = (Inr (), (d, s\<lparr>s_file := Some (s_pos s)\<rparr>))"
  using assms by (simp add: seekToCurrent_def seek_def)

lemmas seg_setters = set_pos_def set_currentSize_def set_size_def update_def

text \<open>Every method keeps the path and the size limit of the segment.\<close>

definition same_file :: "segment \<Rightarrow> segment \<Rightarrow> bool" where
  "same_file s s' \<longleftrightarrow> s_path s' = s_path s \<and> s_maxSize s' = s_maxSize s"

definition mk_file :: "hh_disk \<Rightarrow> bytes \<Rightarrow> hh_file" where
  "mk_file d xs = \<lparr>f_isdir = False, f_data = xs, f_mtime = clock d\<rparr>"

lemma mk_file_simps [simp]:
  "f_data (mk_file d xs) = xs" "\<not> f_isdir (mk_file d xs)" "f_mtime (mk_file d xs) = clock d"
  "mk_file (put_file p f d) xs = mk_file d xs"
  by (simp_all add: mk_file_def)

lemma writeBytes_suffix:
  assumes "s_file s = Some (int (length pre))" "file_at d (s_path s) = Some f" "\<not> f_isdir f"
    and "f_data f = pre @ old" "length old = length b \<or> old = []"
  shows "writeBytes b (d, s) =
    (Inr (), (put_file (s_path s) (mk_file d (pre @ b)) d, s\<lparr>s_file := Some (int (length (pre @ b)))\<rparr>))"
proof -
  have "f\<lparr>f_data := pre @ b, f_mtime := clock d\<rparr> = mk_file d (pre @ b)"
    using assms(3) by (cases f) (simp add: mk_file_def)
  moreover have "write_at (length pre) b (f_data f) = pre @ b"
    using assms(4,5) by (auto simp: write_at_suffix)
  ultimately show ?thesis using writeBytes_at [OF assms(1,2)] by simp
qed

lemma write_record:
  assumes "s_file s = Some (int (length pre))" "file_at d (s_path s) = Some f" "\<not> f_isdir f"
    and "f_data f = pre @ old" "length old = 8"
  shows "bindE (writeUint64 w) (\<lambda>_. bindE (writeBytes b) (\<lambda>_. bindE (writeUint64 p) k)) (d, s) =
    k () (put_file (s_path s) (mk_file d (pre @ PutUint64 w @ b @ PutUint64 p)) d,
          s\<lparr>s_file := Some (int (length (pre @ PutUint64 w @ b @ PutUint64 p)))\<rparr>)"
proof -
  let ?d1 = "put_file (s_path s) (mk_file d (pre @ PutUint64 w)) d"
  let ?s1 = "s\<lparr>s_file := Some (int (length (pre @ PutUint64 w)))\<rparr>"
  let ?d2 = "put_file (s_path s) (mk_file d ((pre @ PutUint64 w) @ b)) d"
  let ?s2 = "s\<lparr>s_file := Some (int (length ((pre @ PutUint64 w) @ b)))\<rparr>"
  have 1: "writeUint64 w (d, s) = (Inr (), (?d1, ?s1))"
    using assms unfolding writeUint64_def by (intro writeBytes_suffix) auto
  have 2: "writeBytes b (?d1, ?s1) = (Inr (), (?d2, ?s2))"
    using writeBytes_suffix [of ?s1 "pre @ PutUint64 w" ?d1 "mk_file d (pre @ PutUint64 w)" "[]" b] by simp
  have 3: "writeUint64 p (?d2, ?s2) = (Inr (), (put_file (s_path s) (mk_file d (((pre @ PutUint64 w) @ b) @ PutUint64 p)) d,
      s\<lparr>s_file := Some (int (length (((pre @ PutUint64 w) @ b) @ PutUint64 p)))\<rparr>))"
    using writeBytes_suffix [of ?s2 "(pre @ PutUint64 w) @ b" ?d2 "mk_file d ((pre @ PutUint64 w) @ b)" "[]" "PutUint64 p"]
    by (simp add: writeUint64_def)
  show ?thesis using 1 2 3 by (simp add: bindE_def)
qed

lemma seg_repD:
  assumes "seg_rep d s dn td"
  obtains n f where "s_file s = Some n" "file_at d (s_path s) = Some f" "\<not> f_isdir f"
    "f_data f = enc_recs dn @ enc_recs td @ PutUint64 (u64_of (s_pos s))"
    "s_size s = int (length (enc_recs dn)) + int (length (enc_recs td)) + 8"
    "s_pos s = int (length (enc_recs dn))" "s_size s < 2 ^ 63"
  using assms by (auto simp: seg_rep_def file_rep_def seg_data_def)

lemma append_segment_ok:
  assumes rep: "seg_rep d s dn td" and b: "b \<noteq> []"
    and room: "s_size s + int (length b) \<le> s_maxSize s"
    and bound: "s_size s + int (length b) + 8 < 2 ^ 63"
  shows "\<exists>s'. append_segment b (d, s) = (Inr (), (put_file (s_path s) (mk_file d (seg_data dn (td @ [b]))) d, s'))
    \<and> seg_rep (put_file (s_path s) (mk_file d (seg_data dn (td @ [b]))) d) s' dn (td @ [b]) \<and> same_file s s'"
proof -
  from rep obtain n f where n: "s_file s = Some n" and f: "file_at d (s_path s) = Some f" "\<not> f_isdir f"
    and data: "f_data f = (enc_recs dn @ enc_recs td) @ PutUint64 (u64_of (s_pos s))"
    and sz: "s_size s = int (length (enc_recs dn)) + int (length (enc_recs td)) + 8"
    and pos: "s_pos s = int (length (enc_recs dn))"
    by (auto elim: seg_repD)
  have cs: "s_currentSize s = head_size td" and td: "\<forall>r\<in>set td. r \<noteq> [] \<and> int (length r) \<le> s_maxSize s"
    using rep by (auto simp: seg_rep_def)
  have seek: "seekEnd (- footerSize) (d, s) = (Inr (), (d, s\<lparr>s_file := Some (int (length (enc_recs dn @ enc_recs td)))\<rparr>))"
    by (rule seekEnd_suffix [OF n f(1) data]) (simp add: footerSize_def)
  have full: "(enc_recs dn @ enc_recs td) @ PutUint64 (of_nat (length b)) @ b @ PutUint64 (u64_of (s_pos s)) = seg_data dn (td @ [b])"
    using pos by (simp add: seg_data_def enc_rec_def)
  define s' where "s' = s\<lparr>s_file := Some (int (length (seg_data dn (td @ [b])))),
    s_currentSize := head_size (td @ [b]), s_size := s_size s + int (length b) + 8\<rparr>"
  have "in_i64 (s_size s + int (length b))" "in_i64 (s_size s + (int (length b) + 8))"
    using bound sz by (auto intro!: in_i64_nat)
  moreover have "head_size (td @ [b]) = (if s_currentSize s = 0 then int (length b) else s_currentSize s)"
    using cs td by (cases td) (auto simp: head_size_def)
  ultimately have "append_segment b (d, s) = (Inr (), (put_file (s_path s) (mk_file d (seg_data dn (td @ [b]))) d, s'))"
    using n room full f data
    by (simp add: append_segment_def bindE_Inr [of "seekEnd (- footerSize)", OF seek] s'_def add.assoc
        write_record [where pre = "enc_recs dn @ enc_recs td" and old = "PutUint64 (u64_of (s_pos s))"] del: length_append)
  moreover have "seg_rep (put_file (s_path s) (mk_file d (seg_data dn (td @ [b]))) d) s' dn (td @ [b])"
    using bound sz pos td room b by (auto simp: seg_rep_def file_rep_def s'_def)
  moreover have "same_file s s'" by (simp add: same_file_def s'_def)
  ultimately show ?thesis by blast
qed

lemma append_segment_full:
  assumes "seg_rep d s dn td" "s_size s + int (length b) > s_maxSize s" "s_size s + int (length b) < 2 ^ 63"
  shows "append_segment b (d, s) = (Inl ErrSegmentFull, (d, s))"
proof -
  have "in_i64 (s_size s + int (length b))"
    using assms by (auto simp: seg_rep_def intro!: in_i64_nat)
  then show ?thesis using assms by (auto simp: append_segment_def seg_rep_def)
qed

lemma seg_rep_seek: "seg_rep d s dn td \<Longrightarrow> seg_rep d (s\<lparr>s_file := Some n\<rparr>) dn td"
  by (auto simp: seg_rep_def)

lemma enc_rec_data:
  assumes "seg_rep d s dn (r # td)"
  obtains n f where "s_file s = Some n" "file_at d (s_path s) = Some f" "\<not> f_isdir f"
    "f_data f = enc_recs dn @ PutUint64 (of_nat (length r)) @ r @ enc_recs td @ PutUint64 (u64_of (s_pos s))"
    "s_pos s = int (length (enc_recs dn))" "s_size s = s_pos s + int (length r) + int (length (enc_recs td)) + 16"
    "s_size s < 2 ^ 63" "length r < 2 ^ 63" "r \<noteq> []" "int (length r) \<le> s_maxSize s"
proof -
  from assms obtain n f where *: "s_file s = Some n" "file_at d (s_path s) = Some f" "\<not> f_isdir f"
    "f_data f = enc_recs dn @ PutUint64 (of_nat (length r)) @ r @ enc_recs td @ PutUint64 (u64_of (s_pos s))"
    "s_pos s = int (length (enc_recs dn))" "s_size s = s_pos s + int (length r) + int (length (enc_recs td)) + 16"
    "s_size s < 2 ^ 63"
    by (auto simp: enc_rec_def elim: seg_repD)
  then have "int (length r) < int (2 ^ 63)" by simp
  then have "length r < 2 ^ 63" unfolding of_nat_less_iff .
  moreover have "r \<noteq> []" "int (length r) \<le> s_maxSize s" using assms by (auto simp: seg_rep_def)
  ultimately show ?thesis using * that by blast
qed

lemma current_segment_ok:
  assumes "seg_rep d s dn (r # td)"
  shows "\<exists>n. current_segment (d, s) = (Inr r, (d, s\<lparr>s_file := Some n\<rparr>))"
proof -
  from assms obtain n f where n: "s_file s = Some n" and f: "file_at d (s_path s) = Some f"
    and data: "f_data f = enc_recs dn @ PutUint64 (of_nat (length r)) @ r @ enc_recs td @ PutUint64 (u64_of (s_pos s))"
    and pos: "s_pos s = int (length (enc_recs dn))"
    and sz: "s_size s = s_pos s + int (length r) + int (length (enc_recs td)) + 16" "s_size s < 2 ^ 63"
    and r: "length r < 2 ^ 63" "r \<noteq> []" "int (length r) \<le> s_maxSize s"
    by (auto elim: enc_rec_data)
  let ?s1 = "s\<lparr>s_file := Some (s_pos s)\<rparr>" and ?s2 = "s\<lparr>s_file := Some (int (length (enc_recs dn)) + 8)\<rparr>"
  have 1: "seekToCurrent (d, s) = (Inr (), (d, ?s1))" using n pos by (simp add: seekToCurrent_open)
  have 2: "readUint64 (d, ?s1) = (Inr (of_nat (length r)), (d, ?s2))"
    using readUint64_at [of ?s1 "enc_recs dn" d f "of_nat (length r)"] f data pos by simp
  have same: "?s2\<lparr>s_currentSize := int (length r)\<rparr> = ?s2"
    using assms by (simp add: seg_rep_def head_size_def)
  have 3: "readBytes (length r) (d, ?s2) = (Inr r, (d, ?s2\<lparr>s_file := Some (int (length (enc_recs dn) + 8) + int (length r))\<rparr>))"
    using readBytes_at [of ?s2 "enc_recs dn @ PutUint64 (of_nat (length r))" d f r "enc_recs td @ PutUint64 (u64_of (s_pos s))" "length r"]
      f data r by simp
  have "in_i64 (s_size s - 8)" using sz pos by (auto intro!: in_i64_nat)
  moreover have "unat (of_nat (length r) :: u64) = length r" using r(1) by (simp add: unat_of_nat)
  ultimately show ?thesis
    using 1 2 3 same r sz pos
    by (simp add: current_segment_def bindE_def seg_setters i64_of_small) blast
qed

lemma current_segment_EOF:
  assumes "seg_rep d s dn []"
  shows "current_segment (d, s) = (Inl EOF, (d, s))"
proof -
  from assms have "s_size s = s_pos s + 8" "0 \<le> s_pos s" "s_size s < 2 ^ 63" by (auto elim!: seg_repD)
  then have "in_i64 (s_size s - 8)" by (auto intro!: in_i64_nat)
  then show ?thesis using \<open>s_size s = s_pos s + 8\<close> by (simp add: current_segment_def)
qed

lemma advance_segment_EOF:
  assumes "seg_rep d s dn []"
  shows "advance_segment (d, s) = (Inl EOF, (d, s))"
proof -
  from assms obtain n where "s_size s = s_pos s + 8" "0 \<le> s_pos s" "s_size s < 2 ^ 63" "s_file s = Some n"
    by (auto elim!: seg_repD)
  moreover then have "in_i64 (s_size s - 8)" by (auto intro!: in_i64_nat)
  moreover have "s\<lparr>s_currentSize := 0\<rparr> = s" using assms by (simp add: seg_rep_def head_size_def)
  ultimately show ?thesis by (simp add: advance_segment_def footerSize_def)
qed

text \<open>
  Advancing rewrites the footer. At the new position the file holds either the length of the next
  record or, after the last one, the footer itself.
\<close>

lemma read_next_size:
  assumes f: "file_at d (s_path s) = Some f" "f_data f = seg_data dn td"
    and s: "s_file s = Some (int (length (enc_recs dn)))"
  shows "\<exists>w. readUint64 (d, s) = (Inr w, (d, s\<lparr>s_file := Some (int (length (enc_recs dn)) + 8)\<rparr>)) \<and>
    (td \<noteq> [] \<longrightarrow> w = of_nat (length (hd td)))"
proof (cases td)
  case Nil
  with f have "f_data f = enc_recs dn @ PutUint64 (u64_of (int (length (enc_recs dn)))) @ []"
    by (simp add: seg_data_def)
  from readUint64_at [OF s f(1) this] Nil show ?thesis by simp
next
  case (Cons r td')
  with f have "f_data f = enc_recs dn @ PutUint64 (of_nat (length r)) @
      (r @ enc_recs td' @ PutUint64 (u64_of (int (length (enc_recs dn)))))"
    by (simp add: seg_data_def enc_rec_def)
  from readUint64_at [OF s f(1) this] Cons show ?thesis by simp
qed

lemma head_size_read:
  assumes "int (length (enc_recs td)) < 2 ^ 63" "td \<noteq> []"
  shows "i64_of (of_nat (length (hd td))) = head_size td"
proof -
  from assms(2) obtain r td' where td: "td = r # td'" by (cases td) auto
  with assms(1) have "int (length r) < int (2 ^ 63)" by simp
  then have "length r < 2 ^ 63" unfolding of_nat_less_iff .
  with td show ?thesis by (simp add: i64_of_small head_size_def)
qed

lemma advance_segment_ok:
  assumes rep: "seg_rep d s dn (r # td)"
  shows "\<exists>s'. advance_segment (d, s) =
      ((if td = [] then Inl EOF else Inr ()), (put_file (s_path s) (mk_file d (seg_data (dn @ [r]) td)) d, s'))
    \<and> seg_rep (put_file (s_path s) (mk_file d (seg_data (dn @ [r]) td)) d) s' (dn @ [r]) td \<and> same_file s s'"
proof -
  from rep obtain n f where n: "s_file s = Some n" and f: "file_at d (s_path s) = Some f" "\<not> f_isdir f"
    and data: "f_data f = (enc_recs (dn @ [r]) @ enc_recs td) @ PutUint64 (u64_of (s_pos s))"
    and pos: "s_pos s = int (length (enc_recs dn))"
    and sz: "s_size s = s_pos s + int (length r) + int (length (enc_recs td)) + 16" "s_size s < 2 ^ 63"
    by (auto simp: enc_rec_def elim!: enc_rec_data)
  let ?d = "put_file (s_path s) (mk_file d (seg_data (dn @ [r]) td)) d"
  define p where "p = int (length (enc_recs (dn @ [r])))"
  have "s_pos s + s_currentSize s + 8 = p" "0 \<le> p" "p < 2 ^ 63"
    using rep sz pos by (auto simp: p_def seg_rep_def head_size_def)
  then have p: "s_pos s + s_currentSize s + 8 = p" "i64 p = p" "0 \<le> p"
    and i: "i64 (s_size s - footerSize) = s_size s - footerSize" "s_pos s \<noteq> s_size s - footerSize"
    using sz pos by (auto simp: footerSize_def intro!: i64_id in_i64_nat)
  define t where "t k = s\<lparr>s_file := Some k, s_pos := p\<rparr>" for k
  let ?s1 = "s\<lparr>s_file := Some (int (length (enc_recs (dn @ [r]) @ enc_recs td)))\<rparr>"
  have 1: "seekEnd (- footerSize) (d, s) = (Inr (), (d, ?s1))"
    by (rule seekEnd_suffix [OF n f(1) data]) (simp add: footerSize_def)
  have 2: "writeUint64 (u64_of p) (d, ?s1) = (Inr (), (?d, ?s1\<lparr>s_file := Some (s_size s)\<rparr>))"
    using writeBytes_suffix [of ?s1 "enc_recs (dn @ [r]) @ enc_recs td" d f "PutUint64 (u64_of (s_pos s))" "PutUint64 (u64_of p)"]
      f data sz pos by (simp add: writeUint64_def p_def seg_data_def add_ac)
  have 3: "seekToCurrent (?d, t (s_size s)) = (Inr (), (?d, t p))"
    using p by (simp add: seekToCurrent_open t_def)
  obtain w where 4: "readUint64 (?d, t p) = (Inr w, (?d, t (p + 8)))" and w: "td \<noteq> [] \<longrightarrow> w = of_nat (length (hd td))"
    using read_next_size [of ?d "t p" "mk_file d (seg_data (dn @ [r]) td)" "dn @ [r]" td] by (auto simp: t_def p_def)
  have w': "td \<noteq> [] \<longrightarrow> i64_of w = head_size td"
    using w sz pos by (simp add: head_size_read)
  have last: "(p = s_size s - footerSize) = (td = [])"
    using sz pos by (cases td) (auto simp: p_def footerSize_def)
  define s' where "s' = (t (p + 8))\<lparr>s_currentSize := head_size td\<rparr>"
  have "advance_segment (d, s) = ((if td = [] then Inl EOF else Inr ()), (?d, s'))"
    using n p i 1 2 3 4 w' last
    by (auto simp: advance_segment_def bindE_def seg_setters Let_def t_def s'_def head_size_def simp del: length_append)
  moreover have "seg_rep ?d s' (dn @ [r]) td"
    using rep sz by (auto simp: seg_rep_def file_rep_def s'_def t_def p_def)
  moreover have "same_file s s'" by (simp add: same_file_def s'_def t_def)
  ultimately show ?thesis by blast
qed

text \<open>Creating a segment on a missing file, and opening one again from the file it left behind.\<close>

lemma newSegment_fresh:
  assumes "file_at d p = None"
  shows "\<exists>s. newSegment p m d = (Inr s, put_file p (mk_file d (seg_data [] [])) d) \<and>
    seg_rep (put_file p (mk_file d (seg_data [] [])) d) s [] [] \<and> s_path s = p \<and> s_maxSize s = m"
proof -
  let ?d1 = "put_file p \<lparr>f_isdir = False, f_data = [], f_mtime = clock d\<rparr> d"
  let ?s = "\<lparr>s_size = 0, s_file = Some 0, s_path = p, s_pos = 0, s_currentSize = 0, s_maxSize = m\<rparr>"
  have w: "writeUint64 (u64_of 0) (?d1, ?s) = (Inr (), (put_file p (mk_file d (seg_data [] [])) d, ?s\<lparr>s_file := Some 8\<rparr>))"
    using writeBytes_suffix [of ?s "[]" ?d1 "\<lparr>f_isdir = False, f_data = [], f_mtime = clock d\<rparr>" "[]" "PutUint64 (u64_of 0)"]
    by (simp add: writeUint64_def seg_data_def)
  then have "newSegment p m d = (Inr (?s\<lparr>s_file := Some 8, s_size := 8\<rparr>), put_file p (mk_file d (seg_data [] [])) d)"
    using assms by (simp add: newSegment_def open_segment_def Let_def seg_setters bindE_def footerSize_def)
  then show ?thesis by (simp add: seg_rep_def file_rep_def head_size_def)
qed

lemma newSegment_reopen:
  assumes rep: "file_rep d p dn td" and td: "\<forall>r\<in>set td. r \<noteq> [] \<and> int (length r) \<le> m"
  shows "\<exists>s. newSegment p m d = (Inr s, d) \<and> seg_rep d s dn td \<and> s_path s = p \<and> s_maxSize s = m"
proof -
  from rep obtain f where f: "file_at d p = Some f" "\<not> f_isdir f" "f_data f = seg_data dn td"
    and b: "int (length (seg_data dn td)) < 2 ^ 63" by (auto simp: file_rep_def)
  define q where "q = int (length (enc_recs dn))"
  define N where "N = int (length (seg_data dn td))"
  define t where "t k x c = \<lparr>s_size = N, s_file = Some k, s_path = p,
      s_pos = x, s_currentSize = c, s_maxSize = m\<rparr>" for k x c
  have q: "i64_of (u64_of q) = q" "0 \<le> q" using b by (auto simp: q_def intro!: i64_id in_i64_nat)
  have data: "f_data f = (enc_recs dn @ enc_recs td) @ PutUint64 (u64_of q)" using f by (simp add: seg_data_def q_def)
  have 1: "seekEnd (- footerSize) (d, t 0 0 0) = (Inr (), (d, t (int (length (enc_recs dn @ enc_recs td))) 0 0))"
    using seekEnd_suffix [of "t 0 0 0" 0 d f, OF _ _ data] f by (simp add: t_def footerSize_def)
  have 2: "readUint64 (d, t (int (length (enc_recs dn @ enc_recs td))) 0 0) = (Inr (u64_of q), (d, t (int (length (enc_recs dn @ enc_recs td)) + 8) 0 0))"
    using readUint64_at [of "t (int (length (enc_recs dn @ enc_recs td))) 0 0" "enc_recs dn @ enc_recs td" d f "u64_of q" "[]"] f data
    by (simp add: t_def)
  have 3: "seekToCurrent (d, t k q 0) = (Inr (), (d, t q q 0))" for k
    using q by (simp add: seekToCurrent_open t_def)
  obtain w where 4: "readUint64 (d, t q q 0) = (Inr w, (d, t (q + 8) q 0))" and w: "td \<noteq> [] \<longrightarrow> w = of_nat (length (hd td))"
    using read_next_size [of d "t q q 0" f dn td] f by (auto simp: t_def q_def)
  have w': "td \<noteq> [] \<longrightarrow> i64_of w = head_size td"
    using w b by (simp add: head_size_read)
  have Nq: "(q < N - footerSize) = (td \<noteq> [])" "N \<noteq> 0" "td = [] \<longrightarrow> head_size td = 0"
    by (cases td; auto simp: q_def N_def footerSize_def head_size_def)+
  have "newSegment p m d = (Inr (t (if td = [] then q else q + 8) q (head_size td)), d)"
    using f 1 2 3 4 w' q Nq
    by (auto simp: newSegment_def open_segment_def Let_def seg_setters bindE_def t_def N_def [symmetric] simp del: length_seg_data)
  moreover have "seg_rep d (t k q (head_size td)) dn td" for k
    using rep td by (auto simp: seg_rep_def t_def q_def N_def)
  ultimately show ?thesis by (auto simp: t_def)
qed

end
