(* ===== verification/Fifo.thy ===== *)
theory Fifo
  imports Prelude
begin

text \<open>
  The interface between a durable queue and the process that drains it: the node processor of
  \<^verbatim>\<open>services/hh/node_processor.go\<close> reads the head of its queue, sends it, and advances past it
  only when it was sent or cannot be decoded.

  \<open>send_with\<close> is that discipline over the operations of a queue (\<open>emb\<close> embeds the queue's errors in those of
  the process), \<open>drain_with\<close> its repetition,
  and \<open>drain_list\<close> the same on a plain list. The locale \<open>fifo\<close> has the laws of the queue and the
  facts that follow from them.
\<close>

text \<open>What became of one record: sent, undecodable (skipped), or to be tried again.\<close>

datatype 'e outcome = Sent nat | Skip 'e | Retry 'e

definition send_with ::
  "('s, 'e, bytes) meth \<Rightarrow> ('s, 'e, unit) meth \<Rightarrow> ('e \<Rightarrow> 'x) \<Rightarrow> 'x \<Rightarrow> ('w \<Rightarrow> 'x + bool) \<Rightarrow>
   (bytes \<Rightarrow> 'w \<Rightarrow> 'x outcome \<times> 'w) \<Rightarrow> 's \<times> 'w \<Rightarrow> ('x + nat) \<times> ('s \<times> 'w)" where
  "send_with cur adv emb idle active deliver = (\<lambda>(q, w).
     case active w of
       Inl e \<Rightarrow> (Inl e, (q, w))
     | Inr False \<Rightarrow> (Inl idle, (q, w))
     | Inr True \<Rightarrow> (case cur q of
         (Inl e, q1) \<Rightarrow> (Inl (emb e), (q1, w))
       | (Inr b, q1) \<Rightarrow> (case deliver b w of
           (Skip e, w1) \<Rightarrow> (Inl e, (snd (adv q1), w1))
         | (Retry e, w1) \<Rightarrow> (Inl e, (q1, w1))
         | (Sent n, w1) \<Rightarrow> (Inr n, (snd (adv q1), w1)))))"

fun drain_with ::
  "('s \<times> 'w \<Rightarrow> ('e + nat) \<times> ('s \<times> 'w)) \<Rightarrow> nat \<Rightarrow> 's \<times> 'w \<Rightarrow> ('e \<times> 's \<times> 'w) option" where
  "drain_with send 0 st = None"
| "drain_with send (Suc n) st = (case send st of
     (Inl e, st') \<Rightarrow> Some (e, st')
   | (Inr _, st') \<Rightarrow> drain_with send n st')"

fun drain_list ::
  "'e \<Rightarrow> ('w \<Rightarrow> 'e + bool) \<Rightarrow> (bytes \<Rightarrow> 'w \<Rightarrow> 'e outcome \<times> 'w) \<Rightarrow> bytes list \<Rightarrow> 'w \<Rightarrow> 'e \<times> bytes list \<times> 'w" where
  "drain_list eof active deliver [] w = (case active w of Inl e \<Rightarrow> (e, [], w) | Inr _ \<Rightarrow> (eof, [], w))"
| "drain_list eof active deliver (r # rs) w = (case active w of
     Inl e \<Rightarrow> (e, r # rs, w)
   | Inr False \<Rightarrow> (eof, r # rs, w)
   | Inr True \<Rightarrow> (case deliver r w of
       (Skip e, w1) \<Rightarrow> (e, rs, w1)
     | (Retry e, w1) \<Rightarrow> (e, r # rs, w1)
     | (Sent n, w1) \<Rightarrow> drain_list eof active deliver rs w1))"

locale fifo =
  fixes app :: "bytes \<Rightarrow> ('s, 'e, unit) meth"
    and cur :: "('s, 'e, bytes) meth"
    and adv :: "('s, 'e, unit) meth"
    and eof :: 'e
    and fits :: "'s \<Rightarrow> bytes \<Rightarrow> bool"
    and content :: "'s \<Rightarrow> bytes list"
    and invar :: "'s \<Rightarrow> bool"
  assumes app_law: "invar q \<Longrightarrow> fits q b \<Longrightarrow>
      \<exists>q'. app b q = (Inr (), q') \<and> invar q' \<and> content q' = content q @ [b]"
    and cur_law: "invar q \<Longrightarrow>
      \<exists>q'. cur q = ((case content q of [] \<Rightarrow> Inl eof | r # _ \<Rightarrow> Inr r), q') \<and> invar q' \<and> content q' = content q"
    and adv_law: "invar q \<Longrightarrow> \<exists>q'. adv q = (Inr (), q') \<and> invar q' \<and> content q' = tl (content q)"
begin

lemma send_invar:
  assumes "invar q"
  shows "invar (fst (snd (send_with cur adv emb (emb eof) active deliver (q, w))))"
proof -
  obtain q1 where q1: "snd (cur q) = q1" "invar q1" using cur_law [OF assms] by auto
  moreover obtain q2 where "snd (adv q1) = q2" "invar q2" using adv_law [OF q1(2)] by auto
  ultimately show ?thesis using assms
    by (cases "cur q") (simp add: send_with_def split: sum.split bool.split outcome.split prod.split)
qed

lemma send_content:
  assumes "invar q"
  shows "case send_with cur adv emb (emb eof) active deliver (q, w) of (r, (q', w')) \<Rightarrow>
    (case active w of
       Inl e \<Rightarrow> r = Inl e \<and> content q' = content q \<and> w' = w
     | Inr False \<Rightarrow> r = Inl (emb eof) \<and> content q' = content q \<and> w' = w
     | Inr True \<Rightarrow> (case content q of
         [] \<Rightarrow> r = Inl (emb eof) \<and> content q' = [] \<and> w' = w
       | b # bs \<Rightarrow> (case deliver b w of
           (Skip e, w1) \<Rightarrow> r = Inl e \<and> content q' = bs \<and> w' = w1
         | (Retry e, w1) \<Rightarrow> r = Inl e \<and> content q' = b # bs \<and> w' = w1
         | (Sent n, w1) \<Rightarrow> r = Inr n \<and> content q' = bs \<and> w' = w1)))"
proof -
  obtain q1 where q1: "cur q = ((case content q of [] \<Rightarrow> Inl eof | r # _ \<Rightarrow> Inr r), q1)"
    "invar q1" "content q1 = content q" using cur_law [OF assms] by blast
  obtain q2 where q2: "adv q1 = (Inr (), q2)" "content q2 = tl (content q)"
    using adv_law [OF q1(2)] q1(3) by auto
  show ?thesis
    by (cases "content q") (simp_all add: send_with_def q1(1,3) q2 split: sum.split bool.split outcome.split prod.split)
qed

lemma send_list:
  assumes "invar q" and s: "send_with cur adv emb (emb eof) active deliver (q, w) = (r, (q1, w1))"
  shows "case r of
      Inl e \<Rightarrow> drain_list (emb eof) active deliver (content q) w = (e, content q1, w1)
    | Inr k \<Rightarrow> length (content q1) < length (content q) \<and>
        drain_list (emb eof) active deliver (content q) w = drain_list (emb eof) active deliver (content q1) w1"
proof (cases "\<exists>b bs. active w = Inr True \<and> content q = b # bs")
  case True
  then obtain b bs where b: "active w = Inr True" "content q = b # bs" by blast
  obtain x w2 where x: "deliver b w = (x, w2)" by (cases "deliver b w")
  show ?thesis using send_content [OF assms(1), where emb = emb and active = active and deliver = deliver and w = w, unfolded s] b x by (cases x) simp_all
next
  case False
  show ?thesis
  proof (cases "active w")
    case (Inl e)
    then show ?thesis using send_content [OF assms(1), where emb = emb and active = active and deliver = deliver and w = w, unfolded s]
      by (cases "content q") simp_all
  next
    case (Inr x)
    then show ?thesis using False send_content [OF assms(1), where emb = emb and active = active and deliver = deliver and w = w, unfolded s]
      by (cases x; cases "content q") simp_all
  qed
qed

lemma drain_refines:
  assumes "invar q" "length (content q) < n"
  shows "\<exists>q' w'. drain_with (send_with cur adv emb (emb eof) active deliver) n (q, w) =
      Some (fst (drain_list (emb eof) active deliver (content q) w), q', w') \<and>
    invar q' \<and> (content q', w') = snd (drain_list (emb eof) active deliver (content q) w)"
  using assms
proof (induction n arbitrary: q w)
  case 0
  then show ?case by simp
next
  case (Suc n)
  obtain r q1 w1 where s: "send_with cur adv emb (emb eof) active deliver (q, w) = (r, (q1, w1))"
    by (metis prod_cases3)
  have i: "invar q1" using send_invar [OF Suc.prems(1), where emb = emb and active = active and deliver = deliver and w = w] s by simp
  from send_list [OF Suc.prems(1) s] show ?case using Suc.IH [OF i, of w1] Suc.prems(2) s i by (cases r) auto
qed

end

end
