(* ===== verification/Go_Strconv.thy ===== *)
theory Go_Strconv
  imports Prelude "HOL-Library.Char_ord" "HOL-Library.List_Lexorder"
begin

text \<open>
  Decimal numbers in file names: \<^verbatim>\<open>strconv.FormatUint\<close> and \<^verbatim>\<open>strconv.ParseUint\<close> in base 10, the verb \<^verbatim>\<open>%05d\<close> of \<^verbatim>\<open>fmt.Sprintf\<close>, and
  the order of strings by \<^verbatim>\<open>sort.Strings\<close>, which compares bytes.
\<close>

definition digit_char :: "nat \<Rightarrow> char" where
  "digit_char n = char_of (48 + n)"

fun FormatUint :: "nat \<Rightarrow> string" where
  "FormatUint n = (if n < 10 then [digit_char n] else FormatUint (n div 10) @ [digit_char (n mod 10)])"

definition is_digit :: "char \<Rightarrow> bool" where
  "is_digit c \<longleftrightarrow> 48 \<le> (of_char c :: nat) \<and> (of_char c :: nat) \<le> 57"

definition ParseUint :: "string \<Rightarrow> nat option" where
  "ParseUint s =
     (if s = [] \<or> \<not> list_all is_digit s then None
      else let n = foldl (\<lambda>a c. a * 10 + (of_char c - 48)) 0 s
           in if n < 2 ^ 64 then Some n else None)"

text \<open>\<^verbatim>\<open>%0kd\<close>: zeros on the left up to the width.\<close>

definition format_padded :: "nat \<Rightarrow> nat \<Rightarrow> string" where
  "format_padded k n = replicate (k - length (FormatUint n)) (digit_char 0) @ FormatUint n"

declare FormatUint.simps [simp del]

lemma of_char_digit: "n < 10 \<Longrightarrow> of_char (digit_char n) = 48 + n"
  by (simp add: digit_char_def)

lemma is_digit_digit_char: "n < 10 \<Longrightarrow> is_digit (digit_char n)"
  by (simp add: is_digit_def of_char_digit)

lemma is_digit_FormatUint: "list_all is_digit (FormatUint n)"
proof (induction n rule: FormatUint.induct)
  case (1 n)
  then show ?case
    by (subst FormatUint.simps) (auto simp: is_digit_digit_char)
qed

lemma FormatUint_neq_Nil [simp]: "FormatUint n \<noteq> []"
  by (subst FormatUint.simps) simp

lemma foldl_FormatUint: "foldl (\<lambda>a c. a * 10 + (of_char c - 48)) 0 (FormatUint n) = n"
proof (induction n rule: FormatUint.induct)
  case (1 n)
  then show ?case
    by (subst FormatUint.simps) (auto simp: of_char_digit)
qed

lemma ParseUint_FormatUint: "n < 2 ^ 64 \<Longrightarrow> ParseUint (FormatUint n) = Some n"
  by (simp add: ParseUint_def is_digit_FormatUint foldl_FormatUint)

subsection \<open>The order of padded numbers\<close>

fun digits :: "nat \<Rightarrow> nat \<Rightarrow> string" where
  "digits 0 n = []"
| "digits (Suc k) n = digits k (n div 10) @ [digit_char (n mod 10)]"

lemma length_digits [simp]: "length (digits k n) = k"
  by (induction k arbitrary: n) auto

lemma digits_0: "digits k 0 = replicate k (digit_char 0)"
  by (induction k) (auto simp: replicate_append_same)

lemma length_FormatUint: "n < 10 ^ Suc k \<Longrightarrow> length (FormatUint n) \<le> Suc k"
proof (induction k arbitrary: n)
  case 0
  then show ?case by (subst FormatUint.simps) simp
next
  case (Suc k)
  then show ?case by (subst FormatUint.simps) (simp add: less_mult_imp_div_less)
qed

lemma format_padded_digits: "n < 10 ^ Suc k \<Longrightarrow> format_padded (Suc k) n = digits (Suc k) n"
proof (induction k arbitrary: n)
  case 0
  then show ?case by (subst format_padded_def, subst FormatUint.simps, subst FormatUint.simps) simp
next
  case (Suc k)
  show ?case
  proof (cases "n < 10")
    case True
    then show ?thesis
      by (simp add: format_padded_def FormatUint.simps [of n] digits_0 replicate_append_same [symmetric])
  next
    case False
    have "n div 10 < 10 ^ Suc k" using Suc.prems by (simp add: less_mult_imp_div_less)
    from Suc.IH [OF this] show ?thesis using False by (simp add: format_padded_def FormatUint.simps [of n])
  qed
qed

lemma snoc_less: "length xs = length ys \<Longrightarrow> xs @ [a] < ys @ [b] \<longleftrightarrow> xs < ys \<or> xs = ys \<and> a < (b :: char)"
  by (induction xs ys rule: list_induct2) auto

lemma digit_char_less: "m < 10 \<Longrightarrow> n < 10 \<Longrightarrow> digit_char m < digit_char n \<longleftrightarrow> m < n"
  by (simp add: less_char_def of_char_digit)

lemma digits_less: "m < 10 ^ k \<Longrightarrow> n < 10 ^ k \<Longrightarrow> digits k m < digits k n \<longleftrightarrow> m < n"
proof (induction k arbitrary: m n)
  case (Suc k)
  have "m div 10 < 10 ^ k" "n div 10 < 10 ^ k" using Suc.prems by (simp_all add: less_mult_imp_div_less)
  with Suc.IH have IH: "digits k (m div 10) < digits k (n div 10) \<longleftrightarrow> m div 10 < n div 10"
    "digits k (m div 10) = digits k (n div 10) \<longleftrightarrow> m div 10 = n div 10"
    by (blast, metis linorder_neq_iff)
  have "m < n \<longleftrightarrow> m div 10 < n div 10 \<or> m div 10 = n div 10 \<and> m mod 10 < n mod 10"
    using div_mult_mod_eq [of m 10] div_mult_mod_eq [of n 10] mod_less_divisor [of 10 m] mod_less_divisor [of 10 n] by linarith
  then show ?case by (simp add: snoc_less IH digit_char_less)
qed simp

lemma format_padded_less:
  "m < 10 ^ Suc k \<Longrightarrow> n < 10 ^ Suc k \<Longrightarrow> format_padded (Suc k) m < format_padded (Suc k) n \<longleftrightarrow> m < n"
  by (simp add: format_padded_digits digits_less del: power_Suc digits.simps)

lemma append_same_less: "length xs = length ys \<Longrightarrow> xs @ zs < ys @ zs \<longleftrightarrow> xs < (ys :: string)"
  by (induction xs ys rule: list_induct2) auto

lemma is_digit_format_padded: "list_all is_digit (format_padded k n)"
  using is_digit_FormatUint [of n] by (auto simp: format_padded_def is_digit_digit_char list_all_iff)

lemma foldl_zeros: "foldl (\<lambda>a c. a * 10 + (of_char c - 48)) (0 :: nat) (replicate k (digit_char 0)) = 0"
  by (induction k) (auto simp: of_char_digit)

lemma ParseUint_format_padded: "n < 2 ^ 64 \<Longrightarrow> ParseUint (format_padded k n) = Some n"
  using is_digit_format_padded [of k n] by (simp add: ParseUint_def format_padded_def foldl_zeros foldl_FormatUint)

end
