(* ===== verification/Hh_Queue.thy ===== *)
theory Hh_Queue
  imports Hh_Segment Fifo Go_Strconv
begin

text \<open>
  The hinted-handoff queue (\<^verbatim>\<open>services/hh/queue.go\<close>, type \<^verbatim>\<open>queue\<close>): a list of segment files, read
  at the first and written at the last.

  The code holds segments by pointer, and \<^verbatim>\<open>head\<close> and \<^verbatim>\<open>tail\<close> alias elements of \<^verbatim>\<open>segments\<close>; the
  model therefore keeps the segments in a heap and the queue in addresses, so that a tail that
  was closed through the head stays visible. Paths are relative to the queue's directory.
\<close>

subsection \<open>The queue\<close>

record queue =
  q_disk :: hh_disk
  q_heap :: "segment list"
  q_head :: "nat option"
  q_tail :: "nat option"
  q_maxSegmentSize :: int
  q_maxSize :: int
  q_segments :: "nat list option"

type_synonym 'a queue_method = "(queue, hh_error, 'a) meth"

definition defaultSegmentSize :: int where "defaultSegmentSize = 10 * 1024 * 1024"

definition newQueue :: "hh_disk \<Rightarrow> int \<Rightarrow> queue" where
  "newQueue d maxSize = \<lparr>q_disk = d, q_heap = [], q_head = None, q_tail = None,
     q_maxSegmentSize = defaultSegmentSize, q_maxSize = maxSize, q_segments = Some []\<rparr>"

text \<open>\<^verbatim>\<open>len\<close> and \<^verbatim>\<open>range\<close> treat a nil slice as an empty one.\<close>

definition segs :: "queue \<Rightarrow> nat list" where
  "segs q = (case q_segments q of None \<Rightarrow> [] | Some as \<Rightarrow> as)"

definition seg :: "queue \<Rightarrow> nat \<Rightarrow> segment" where
  "seg q a = q_heap q ! a"

text \<open>Calling a method of the segment at an address.\<close>

definition on_seg :: "nat \<Rightarrow> 'a seg_method \<Rightarrow> 'a queue_method" where
  "on_seg a m q = (case m (q_disk q, seg q a) of
     (r, (d, s)) \<Rightarrow> (r, q\<lparr>q_disk := d, q_heap := (q_heap q)[a := s]\<rparr>))"

definition diskUsage :: "queue \<Rightarrow> int" where
  "diskUsage q = foldl (\<lambda>n a. i64 (n + diskUsage_segment (seg q a))) 0 (segs q)"

text \<open>\<^verbatim>\<open>ioutil.ReadDir\<close> returns the entries sorted by file name.\<close>

definition ReadDir :: "hh_disk \<Rightarrow> (string \<times> hh_file) list" where
  "ReadDir d = sort_key fst (files d)"

definition segment_ids :: "hh_disk \<Rightarrow> nat list" where
  "segment_ids d = List.map_filter (\<lambda>(n, f). if f_isdir f then None else ParseUint n) (ReadDir d)"

definition nextSegmentID :: "hh_disk \<Rightarrow> nat" where
  "nextSegmentID d = (foldl (\<lambda>m i. if i > m then i else m) 0 (segment_ids d) + 1) mod 2 ^ 64"

definition alloc_segment :: "segment \<Rightarrow> nat queue_method" where
  "alloc_segment s q = (Inr (length (q_heap q)), q\<lparr>q_heap := q_heap q @ [s]\<rparr>)"

definition addSegment :: "nat queue_method" where
  "addSegment q =
     (case newSegment (FormatUint (nextSegmentID (q_disk q))) (q_maxSegmentSize q) (q_disk q) of
        (Inl e, d) \<Rightarrow> (Inl e, q\<lparr>q_disk := d\<rparr>)
      | (Inr s, d) \<Rightarrow>
          bindE (alloc_segment s) (\<lambda>a q. (Inr a, q\<lparr>q_segments := Some (segs q @ [a])\<rparr>)) (q\<lparr>q_disk := d\<rparr>))"

text \<open>\<^verbatim>\<open>loadSegments\<close> walks the directory in file-name order.\<close>

fun load_from :: "(string \<times> hh_file) list \<Rightarrow> nat list \<Rightarrow> (nat list) queue_method" where
  "load_from [] as q = (Inr as, q)"
| "load_from ((n, f) # es) as q =
     (if f_isdir f then load_from es as q
      else if ParseUint n = None then load_from es as q
      else case newSegment n (q_maxSegmentSize q) (q_disk q) of
             (Inl e, d) \<Rightarrow> (Inl e, q\<lparr>q_disk := d\<rparr>)
           | (Inr s, d) \<Rightarrow> bindE (alloc_segment s) (\<lambda>a. load_from es (as @ [a])) (q\<lparr>q_disk := d\<rparr>))"

definition loadSegments :: "(nat list) queue_method" where
  "loadSegments q = load_from (ReadDir (q_disk q)) [] q"

definition remove_file :: "string \<Rightarrow> hh_disk \<Rightarrow> hh_disk" where
  "remove_file p d = d\<lparr>files := AList.delete p (files d)\<rparr>"

definition trimHead :: "unit queue_method" where
  "trimHead q =
     (if length (segs q) > 1 then
        (case q_head q of
           None \<Rightarrow> (Inl ErrPanic, q\<lparr>q_segments := Some (tl (segs q))\<rparr>)
         | Some h \<Rightarrow>
             bindE (on_seg h close_segment) (\<lambda>_ q.
               if file_at (q_disk q) (s_path (seg q h)) = None then (Inl NotExist, q)
               else (Inr (), q\<lparr>q_disk := remove_file (s_path (seg q h)) (q_disk q),
                               q_head := Some (hd (segs q))\<rparr>))
               (q\<lparr>q_segments := Some (tl (segs q))\<rparr>))
      else (Inr (), q))"

definition Open :: "unit queue_method" where
  "Open = bindE loadSegments (\<lambda>as q0.
     let q1 = q0\<lparr>q_segments := Some as\<rparr> in
     bindE (if as = [] then bindE addSegment (\<lambda>_. ret ()) else ret ()) (\<lambda>_ q.
       let q' = q\<lparr>q_head := Some (hd (segs q)), q_tail := Some (last (segs q))\<rparr> in
       case on_seg (hd (segs q)) current_segment q' of
         (Inl e, q2) \<Rightarrow> if e = EOF then trimHead q2 else (Inr (), q2)
       | (Inr _, q2) \<Rightarrow> (Inr (), q2)) q1)"

fun close_all :: "nat list \<Rightarrow> unit queue_method" where
  "close_all [] q = (Inr (), q)"
| "close_all (a # as) q = bindE (on_seg a close_segment) (\<lambda>_. close_all as) q"

definition Close :: "unit queue_method" where
  "Close q = bindE (close_all (segs q))
     (\<lambda>_ q. (Inr (), q\<lparr>q_head := None, q_tail := None, q_segments := None\<rparr>)) q"

text \<open>\<^verbatim>\<open>Remove\<close> deletes the directory with all it contains. A missing directory is modelled as an empty one: the node processor, which
  opens the queues, creates the directory first.\<close>

definition Remove :: "unit queue_method" where
  "Remove q =
     (if q_head q \<noteq> None \<or> q_tail q \<noteq> None \<or> q_segments q \<noteq> None then (Inl QueueIsOpen, q)
      else (Inr (), q\<lparr>q_disk := (q_disk q)\<lparr>files := []\<rparr>\<rparr>))"

definition SetMaxSegmentSize :: "int \<Rightarrow> unit queue_method" where
  "SetMaxSegmentSize n q =
     (let q1 = q\<lparr>q_maxSegmentSize := n,
                 q_heap := foldl (\<lambda>h a. h[a := SetMaxSegmentSize_segment n (h ! a)]) (q_heap q) (segs q)\<rparr>
      in case q_tail q1 of
           None \<Rightarrow> (Inl ErrPanic, q1)
         | Some t \<Rightarrow>
             if diskUsage_segment (seg q1 t) \<ge> n
             then bindE addSegment (\<lambda>a q. (Inr (), q\<lparr>q_tail := Some a\<rparr>)) q1
             else (Inr (), q1))"

definition Append :: "bytes \<Rightarrow> unit queue_method" where
  "Append b q =
     (case q_tail q of
        None \<Rightarrow> (Inl ErrNotOpen, q)
      | Some t \<Rightarrow>
          if i64 (diskUsage q + int (length b)) > q_maxSize q then (Inl ErrQueueFull, q)
          else case on_seg t (append_segment b) q of
                 (Inl ErrSegmentFull, q1) \<Rightarrow>
                   bindE addSegment (\<lambda>a q. on_seg a (append_segment b) (q\<lparr>q_tail := Some a\<rparr>)) q1
               | (_, q1) \<Rightarrow> (Inr (), q1))"

definition Current :: "bytes queue_method" where
  "Current q = (case q_head q of None \<Rightarrow> (Inl ErrNotOpen, q) | Some h \<Rightarrow> on_seg h current_segment q)"

definition Advance :: "unit queue_method" where
  "Advance q = (case q_head q of
      None \<Rightarrow> (Inl ErrNotOpen, q)
    | Some h \<Rightarrow> (case on_seg h advance_segment q of
        (Inl e, q1) \<Rightarrow> if e = EOF then trimHead q1 else (Inr (), q1)
      | (Inr _, q1) \<Rightarrow> (Inr (), q1)))"

definition LastModified :: "int queue_method" where
  "LastModified q = (case q_tail q of None \<Rightarrow> (Inr 0, q) | Some t \<Rightarrow> on_seg t lastModified q)"

definition Position :: "queue \<Rightarrow> (string \<times> int) option \<times> (string \<times> int) option" where
  "Position q = (map_option (\<lambda>h. (s_path (seg q h), s_pos (seg q h))) (q_head q),
                 map_option (\<lambda>t. (s_path (seg q t), filePos (seg q t))) (q_tail q))"

text \<open>
  \<^verbatim>\<open>PurgeOlderThan\<close>: \<open>None\<close> when the loop has used up its fuel. Times are in nanoseconds;
  \<^verbatim>\<open>Truncate(time.Second)\<close> rounds down.
\<close>

fun purge_loop :: "nat \<Rightarrow> int \<Rightarrow> queue \<Rightarrow> ((hh_error + unit) \<times> queue) option" where
  "purge_loop 0 cutoff q = None"
| "purge_loop (Suc n) cutoff q =
     (case q_head q of
        None \<Rightarrow> Some (Inl ErrPanic, q)
      | Some h \<Rightarrow>
         (case on_seg h lastModified q of
            (Inl e, q1) \<Rightarrow> Some (Inl e, q1)
          | (Inr t, q1) \<Rightarrow>
              if t \<ge> cutoff then Some (Inr (), q1)
              else (case (if length (segs q1) = 1 then bindE addSegment (\<lambda>_. ret ()) q1 else (Inr (), q1)) of
                      (Inl e, q2) \<Rightarrow> Some (Inl e, q2)
                    | (Inr _, q2) \<Rightarrow>
                        (case trimHead q2 of
                           (Inl e, q3) \<Rightarrow> Some (Inl e, q3)
                         | (Inr _, q3) \<Rightarrow> purge_loop n cutoff q3))))"

definition PurgeOlderThan :: "nat \<Rightarrow> int \<Rightarrow> queue \<Rightarrow> ((hh_error + unit) \<times> queue) option" where
  "PurgeOlderThan fuel t q =
     (if segs q = [] then Some (Inr (), q) else purge_loop fuel (t - t mod 1000000000) q)"

subsection \<open>The records a queue still has to deliver\<close>

text \<open>
  The abstraction: the records between the head position and the footer of every segment, in
  segment order. \<open>queue_ok\<close> is the invariant of an open queue, \<open>queue_live\<close> says that no segment
  but the last has been consumed completely.
\<close>

fun parse_recs :: "bytes \<Rightarrow> bytes list" where
  "parse_recs bs =
     (if length bs < 8 then []
      else take (unat (Uint64 bs)) (drop 8 bs) # parse_recs (drop (8 + unat (Uint64 bs)) bs))"

definition seg_pending :: "hh_disk \<Rightarrow> segment \<Rightarrow> bytes list" where
  "seg_pending d s = (case file_at d (s_path s) of
      None \<Rightarrow> []
    | Some f \<Rightarrow> parse_recs (drop (nat (s_pos s)) (take (length (f_data f) - 8) (f_data f))))"

definition pending :: "queue \<Rightarrow> bytes list" where
  "pending q = concat (map (\<lambda>a. seg_pending (q_disk q) (seg q a)) (segs q))"

definition disk_ok :: "hh_disk \<Rightarrow> bool" where
  "disk_ok d \<longleftrightarrow> distinct (map fst (files d)) \<and> (\<forall>(n, f)\<in>set (files d). \<not> f_isdir f)"

definition seg_ok :: "queue \<Rightarrow> nat \<times> bytes list \<times> bytes list \<Rightarrow> bool" where
  "seg_ok q = (\<lambda>(a, dn, td). a < length (q_heap q) \<and> seg_rep (q_disk q) (seg q a) dn td \<and>
     s_maxSize (seg q a) = q_maxSegmentSize q)"

definition total_size :: "(nat \<times> bytes list \<times> bytes list) list \<Rightarrow> int" where
  "total_size gs = (\<Sum>g\<leftarrow>gs. int (length (seg_data (fst (snd g)) (snd (snd g)))))"

definition queue_rep :: "queue \<Rightarrow> (nat \<times> bytes list \<times> bytes list) list \<Rightarrow> bool" where
  "queue_rep q gs \<longleftrightarrow> gs \<noteq> [] \<and> q_segments q = Some (map fst gs) \<and>
     q_head q = Some (fst (hd gs)) \<and> q_tail q = Some (fst (last gs)) \<and>
     distinct (map fst gs) \<and> distinct (map (\<lambda>g. s_path (seg q (fst g))) gs) \<and>
     list_all (seg_ok q) gs \<and> disk_ok (q_disk q) \<and>
     total_size gs < 2 ^ 63"

definition queue_ok :: "queue \<Rightarrow> bool" where
  "queue_ok q \<longleftrightarrow> (\<exists>gs. queue_rep q gs)"

definition queue_live :: "queue \<Rightarrow> bool" where
  "queue_live q \<longleftrightarrow> (\<forall>a\<in>set (butlast (segs q)). seg_pending (q_disk q) (seg q a) \<noteq> [])"

definition ids_left :: "hh_disk \<Rightarrow> bool" where
  "ids_left d \<longleftrightarrow> list_all (\<lambda>i. i + 1 < 2 ^ 64) (segment_ids d)"

subsection \<open>Lemmas: file names\<close>

declare parse_recs.simps [simp del]

lemma foldl_max_ge:
  fixes m :: nat
  shows "m \<le> foldl (\<lambda>m i. if i > m then i else m) m is \<and>
    (\<forall>i\<in>set is. i \<le> foldl (\<lambda>m i. if i > m then i else m) m is)"
proof (induction "is" arbitrary: m)
  case Nil
  then show ?case by simp
next
  case (Cons i "is")
  from Cons.IH [of "if i > m then i else m"] show ?case by auto
qed

lemma foldl_max_in:
  fixes m :: nat
  shows "foldl (\<lambda>m i. if i > m then i else m) m is \<in> insert m (set is)"
proof (induction "is" arbitrary: m)
  case Nil
  then show ?case by simp
next
  case (Cons i "is")
  from Cons.IH [of "if i > m then i else m"] show ?case by auto
qed

lemma in_segment_ids:
  "i \<in> set (segment_ids d) \<longleftrightarrow> (\<exists>n f. (n, f) \<in> set (files d) \<and> \<not> f_isdir f \<and> ParseUint n = Some i)"
proof -
  have "i \<in> set (List.map_filter g xs) \<longleftrightarrow> (\<exists>n f. (n, f) \<in> set xs \<and> g (n, f) = Some i)"
    for g :: "string \<times> hh_file \<Rightarrow> nat option" and xs
    by (simp add: List.map_filter_def image_iff) (metis option.sel)
  then show ?thesis by (simp add: segment_ids_def ReadDir_def if_distrib [where f = "\<lambda>x. x = Some i"] cong: if_cong) blast
qed

lemma nextSegmentID_fresh:
  assumes "disk_ok d" "ids_left d"
  shows "file_at d (FormatUint (nextSegmentID d)) = None"
proof (rule ccontr)
  let ?m = "foldl (\<lambda>m i. if i > m then i else m) 0 (segment_ids d)"
  have "?m + 1 < 2 ^ 64"
    using foldl_max_in [of 0 "segment_ids d"] assms(2) by (auto simp: ids_left_def list_all_iff)
  then have n: "nextSegmentID d = ?m + 1" "nextSegmentID d < 2 ^ 64" by (simp_all add: nextSegmentID_def)
  assume "file_at d (FormatUint (nextSegmentID d)) \<noteq> None"
  then obtain f where "(FormatUint (nextSegmentID d), f) \<in> set (files d)"
    by (auto simp: file_at_def dest: map_of_SomeD)
  then have "nextSegmentID d \<in> set (segment_ids d)"
    using assms(1) ParseUint_FormatUint [OF n(2)] unfolding in_segment_ids disk_ok_def by blast
  then have "nextSegmentID d \<le> ?m" using foldl_max_ge [of 0 "segment_ids d"] by blast
  with n show False by simp
qed

subsection \<open>Lemmas: the abstraction\<close>

lemma parse_recs_enc: "\<forall>r\<in>set rs. length r < 2 ^ 64 \<Longrightarrow> parse_recs (enc_recs rs) = rs"
proof (induction rs)
  case Nil
  then show ?case by (subst parse_recs.simps) simp
next
  case (Cons r rs)
  then have r: "unat (of_nat (length r) :: u64) = length r" by (simp add: unat_of_nat)
  have "parse_recs (enc_recs (r # rs)) = r # parse_recs (drop (8 + length r) (enc_recs (r # rs)))"
    by (subst parse_recs.simps) (simp add: enc_rec_def r)
  also have "drop (8 + length r) (enc_recs (r # rs)) = enc_recs rs" by simp
  finally show ?case using Cons by simp
qed

lemma length_in_enc_recs: "r \<in> set rs \<Longrightarrow> length r \<le> length (enc_recs rs)"
  by (induction rs) auto

lemma seg_pending_rep: "seg_rep d s dn td \<Longrightarrow> seg_pending d s = td"
proof -
  assume rep: "seg_rep d s dn td"
  then obtain n f where f: "file_at d (s_path s) = Some f"
    "f_data f = enc_recs dn @ enc_recs td @ PutUint64 (u64_of (s_pos s))"
    and pos: "s_pos s = int (length (enc_recs dn))"
    and b: "s_size s = int (length (enc_recs dn)) + int (length (enc_recs td)) + 8" "s_size s < 2 ^ 63"
    by (auto elim: seg_repD)
  have "\<forall>r\<in>set td. length r < 2 ^ 64"
  proof
    fix r assume "r \<in> set td"
    with length_in_enc_recs [OF this] b have "int (length r) < int (2 ^ 64)" by simp
    then show "length r < 2 ^ 64" unfolding of_nat_less_iff .
  qed
  then have "parse_recs (enc_recs td) = td" by (rule parse_recs_enc)
  then show ?thesis using f pos by (simp add: seg_pending_def)
qed

lemma queue_repD:
  assumes "queue_rep q gs"
  shows "list_all (seg_ok q) gs" "disk_ok (q_disk q)" "total_size gs < 2 ^ 63" "gs \<noteq> []"
    "q_head q = Some (fst (hd gs))" "q_tail q = Some (fst (last gs))" "distinct (map fst gs)"
  using assms by (simp_all add: queue_rep_def)

lemma segs_rep: "queue_rep q gs \<Longrightarrow> segs q = map fst gs"
  by (simp add: queue_rep_def segs_def)

lemma seg_ok_pending: "seg_ok q (a, dn, td) \<Longrightarrow> seg_pending (q_disk q) (seg q a) = td"
  by (auto simp: seg_ok_def dest: seg_pending_rep)

lemma map_seg_pending: "list_all (seg_ok q) gs \<Longrightarrow> map (\<lambda>a. seg_pending (q_disk q) (seg q a)) (map fst gs) = map (\<lambda>g. snd (snd g)) gs"
  by (induction gs) (auto dest: seg_ok_pending)

lemma pending_rep: "queue_rep q gs \<Longrightarrow> pending q = concat (map (\<lambda>g. snd (snd g)) gs)"
  by (simp only: pending_def segs_rep map_seg_pending queue_repD)

lemma queue_live_rep: "queue_rep q gs \<Longrightarrow> queue_live q \<longleftrightarrow> (\<forall>g\<in>set (butlast gs). snd (snd g) \<noteq> [])"
proof -
  assume rep: "queue_rep q gs"
  have "seg_pending (q_disk q) (seg q (fst g)) = snd (snd g)" if "g \<in> set (butlast gs)" for g
    using that rep by (auto simp: queue_rep_def list_all_iff dest!: in_set_butlastD intro!: seg_ok_pending [of q _ "fst (snd g)"])
  then show ?thesis using rep by (simp add: queue_live_def segs_rep map_butlast [symmetric] del: map_butlast)
qed

lemma total_size_nonneg: "0 \<le> total_size gs"
  unfolding total_size_def by (rule sum_list_nonneg) auto

lemma diskUsage_fold:
  assumes "list_all (seg_ok q) gs" "0 \<le> n" "n + total_size gs < 2 ^ 63"
  shows "foldl (\<lambda>n a. i64 (n + diskUsage_segment (seg q a))) n (map fst gs) = n + total_size gs"
  using assms
proof (induction gs arbitrary: n)
  case Nil
  then show ?case by (simp add: total_size_def)
next
  case (Cons g gs)
  let ?k = "int (length (seg_data (fst (snd g)) (snd (snd g))))"
  have sz: "diskUsage_segment (seg q (fst g)) = ?k"
    using Cons.prems(1) by (auto simp: seg_ok_def seg_rep_def diskUsage_segment_def split: prod.splits)
  have t: "total_size (g # gs) = ?k + total_size gs" by (simp add: total_size_def)
  then have "i64 (n + ?k) = n + ?k"
    using Cons.prems total_size_nonneg [of gs] by (intro i64_id in_i64_nat) auto
  then show ?case using Cons.IH [of "n + ?k"] Cons.prems sz t by simp
qed

lemma diskUsage_rep: "queue_rep q gs \<Longrightarrow> diskUsage q = total_size gs"
  using diskUsage_fold [of q gs 0] queue_repD(3) [of q gs] by (simp add: diskUsage_def segs_rep queue_repD(1))

subsection \<open>Lemmas: updating one segment\<close>

definition frame :: "hh_disk \<Rightarrow> string \<Rightarrow> hh_disk \<Rightarrow> bool" where
  "frame d p d' \<longleftrightarrow> (\<forall>p'. p' \<noteq> p \<longrightarrow> file_at d' p' = file_at d p') \<and> (disk_ok d \<longrightarrow> disk_ok d')"

lemma frame_refl: "frame d p d"
  by (simp add: frame_def)

lemma set_update: "x \<in> set (AList.update k v al) \<Longrightarrow> x = (k, v) \<or> x \<in> set al"
  by (induction al) (auto split: if_splits)

lemma disk_ok_put_file: "disk_ok d \<Longrightarrow> \<not> f_isdir f \<Longrightarrow> disk_ok (put_file p f d)"
  by (auto simp: disk_ok_def put_file_def distinct_update dest!: set_update)

lemma frame_put_file: "\<not> f_isdir f \<Longrightarrow> frame d p (put_file p f d)"
  by (simp add: frame_def disk_ok_put_file)

lemma seg_rep_frame: "frame d p d' \<Longrightarrow> s_path s \<noteq> p \<Longrightarrow> seg_rep d' s dn td = seg_rep d s dn td"
  by (simp add: frame_def seg_rep_def file_rep_def)

lemma seg_update:
  "a < length (q_heap q) \<Longrightarrow> seg (q\<lparr>q_disk := d, q_heap := (q_heap q)[a := s]\<rparr>) b = (if b = a then s else seg q b)"
  by (simp add: seg_def)

lemma seg_ok_update:
  assumes "seg_ok q g" "fst g \<noteq> a" "s_path (seg q (fst g)) \<noteq> p" "frame (q_disk q) p d'" "a < length (q_heap q)"
  shows "seg_ok (q\<lparr>q_disk := d', q_heap := (q_heap q)[a := s']\<rparr>) g"
  using assms by (auto simp: seg_ok_def seg_update seg_rep_frame)

lemma queue_rep_update:
  assumes rep: "queue_rep q (xs @ (a, dn, td) # ys)"
    and s': "seg_rep d' s' dn' td'" "same_file (seg q a) s'" "frame (q_disk q) (s_path (seg q a)) d'"
    and sz: "total_size (xs @ (a, dn', td') # ys) < 2 ^ 63"
  shows "queue_rep (q\<lparr>q_disk := d', q_heap := (q_heap q)[a := s']\<rparr>) (xs @ (a, dn', td') # ys)" (is "queue_rep ?q _")
proof -
  have a: "a < length (q_heap q)" and m: "s_maxSize (seg q a) = q_maxSegmentSize q"
    using rep by (auto simp: queue_rep_def seg_ok_def)
  have "map (\<lambda>g. s_path (seg ?q (fst g))) (xs @ (a, dn', td') # ys) = map (\<lambda>g. s_path (seg q (fst g))) (xs @ (a, dn, td) # ys)"
    using a s'(2) by (auto simp: seg_update same_file_def)
  then have path: "distinct (map (\<lambda>g. s_path (seg ?q (fst g))) (xs @ (a, dn', td') # ys))"
    using rep by (simp only: queue_rep_def)
  have "seg_ok ?q g" if "g \<in> set (xs @ ys)" for g
    using that rep s'(3) a
    by (intro seg_ok_update [where p = "s_path (seg q a)"]) (auto simp: queue_rep_def list_all_iff image_iff)
  moreover have "seg_ok ?q (a, dn', td')"
    using a m s' by (simp add: seg_ok_def seg_update same_file_def)
  ultimately have all: "list_all (seg_ok ?q) (xs @ (a, dn', td') # ys)"
    by (auto simp: list_all_iff)
  have hd: "fst (hd (xs @ (a, dn', td') # ys)) = fst (hd (xs @ (a, dn, td) # ys))" by (cases xs) auto
  show ?thesis
    using rep all path hd sz s'(3) by (simp add: queue_rep_def frame_def)
qed

text \<open>The first and the last segment of a queue, and how the abstraction sees an update of them.\<close>

lemma on_seg_eq:
  "m (q_disk q, seg q a) = (r, (d, s)) \<Longrightarrow> on_seg a m q = (r, q\<lparr>q_disk := d, q_heap := (q_heap q)[a := s]\<rparr>)"
  by (simp add: on_seg_def)

lemma queue_rep_segD:
  assumes "queue_rep q (xs @ (a, dn, td) # ys)"
  shows "seg_rep (q_disk q) (seg q a) dn td" "a < length (q_heap q)" "s_maxSize (seg q a) = q_maxSegmentSize q"
    "s_size (seg q a) = int (length (seg_data dn td))"
  using assms by (auto simp: queue_rep_def seg_ok_def seg_rep_def)

lemma total_size_simps [simp]:
  "total_size [] = 0"
  "total_size ((a, dn, td) # gs) = int (length (seg_data dn td)) + total_size gs"
  "total_size (xs @ ys) = total_size xs + total_size ys"
  by (simp_all add: total_size_def)

lemma current_rep:
  assumes rep: "queue_rep q ((a, dn, td) # gs)"
  shows "\<exists>q'. Current q = ((case td of [] \<Rightarrow> Inl EOF | r # _ \<Rightarrow> Inr r), q') \<and> queue_rep q' ((a, dn, td) # gs)"
proof -
  have seg: "seg_rep (q_disk q) (seg q a) dn td" using queue_rep_segD(1) [of q "[]" a dn td gs] rep by simp
  have hd: "q_head q = Some a" using rep by (simp add: queue_rep_def)
  obtain s where s: "current_segment (q_disk q, seg q a) = ((case td of [] \<Rightarrow> Inl EOF | r # _ \<Rightarrow> Inr r), (q_disk q, s))"
    and srep: "seg_rep (q_disk q) s dn td" "same_file (seg q a) s"
  proof (cases td)
    case Nil
    with seg current_segment_EOF that [of "seg q a"] show ?thesis by (simp add: same_file_def)
  next
    case (Cons r td')
    with seg current_segment_ok [of "q_disk q" "seg q a" dn r td'] obtain n
      where "current_segment (q_disk q, seg q a) = (Inr r, (q_disk q, (seg q a)\<lparr>s_file := Some n\<rparr>))" by auto
    with Cons seg that show ?thesis by (simp add: seg_rep_seek same_file_def)
  qed
  have "queue_rep (q\<lparr>q_disk := q_disk q, q_heap := (q_heap q)[a := s]\<rparr>) ([] @ (a, dn, td) # gs)"
    using rep srep by (intro queue_rep_update [where dn = dn and td = td]) (auto simp: frame_refl queue_rep_def)
  then show ?thesis using hd on_seg_eq [of current_segment q a, OF s] by (simp add: Current_def)
qed

subsection \<open>Lemmas: adding and removing segments\<close>

lemma seg_ok_alloc:
  assumes "seg_ok q g" "file_at (q_disk q) p = None" "\<not> f_isdir f"
  shows "seg_ok (q\<lparr>q_disk := put_file p f (q_disk q), q_heap := q_heap q @ [s], q_segments := x, q_tail := t\<rparr>) g"
    and "s_path (seg q (fst g)) \<noteq> p"
proof -
  show p: "s_path (seg q (fst g)) \<noteq> p"
    using assms(1,2) by (auto simp: seg_ok_def seg_rep_def file_rep_def)
  show "seg_ok (q\<lparr>q_disk := put_file p f (q_disk q), q_heap := q_heap q @ [s], q_segments := x, q_tail := t\<rparr>) g"
    using assms p by (auto simp: seg_ok_def seg_def nth_append seg_rep_def file_rep_def)
qed

lemma addSegment_rep:
  assumes rep: "queue_rep q gs" and ids: "ids_left (q_disk q)" and sz: "total_size gs + 8 < 2 ^ 63"
  shows "\<exists>q'. addSegment q = (Inr (length (q_heap q)), q') \<and>
    queue_rep (q'\<lparr>q_tail := Some (length (q_heap q))\<rparr>) (gs @ [(length (q_heap q), [], [])]) \<and>
    q_maxSegmentSize q' = q_maxSegmentSize q \<and> q_maxSize q' = q_maxSize q \<and> q_tail q' = q_tail q \<and>
    (\<exists>f. file_at (q_disk q') (s_path (seg q' (length (q_heap q)))) = Some f \<and> f_mtime f = clock (q_disk q))"
proof -
  let ?p = "FormatUint (nextSegmentID (q_disk q))" and ?f = "mk_file (q_disk q) (seg_data [] [])"
  have fresh: "file_at (q_disk q) ?p = None" using nextSegmentID_fresh ids queue_repD(2) [OF rep] by blast
  then obtain s where s: "newSegment ?p (q_maxSegmentSize q) (q_disk q) = (Inr s, put_file ?p ?f (q_disk q))"
    and srep: "seg_rep (put_file ?p ?f (q_disk q)) s [] []" "s_path s = ?p" "s_maxSize s = q_maxSegmentSize q"
    using newSegment_fresh by blast
  let ?a = "length (q_heap q)"
  let ?q = "q\<lparr>q_disk := put_file ?p ?f (q_disk q), q_heap := q_heap q @ [s], q_segments := Some (map fst gs @ [?a])\<rparr>"
  let ?t = "?q\<lparr>q_tail := Some ?a\<rparr>"
  have add: "addSegment q = (Inr ?a, ?q)"
    using s segs_rep [OF rep] by (simp add: addSegment_def alloc_segment_def bindE_def segs_def)
  have old: "seg_ok ?t g" "s_path (seg q (fst g)) \<noteq> ?p" "fst g \<noteq> ?a" "seg ?t (fst g) = seg q (fst g)" if "g \<in> set gs" for g
    using that queue_repD(1) [OF rep] seg_ok_alloc(1) [OF _ fresh, where g = g and f = ?f and s = s and x = "Some (map fst gs @ [?a])" and t = "Some ?a"]
      seg_ok_alloc(2) [OF _ fresh, where g = g and f = ?f]
    by (auto simp: list_all_iff seg_ok_def seg_def nth_append)
  have "seg_ok ?t (?a, [], [])" using srep by (simp add: seg_ok_def seg_def nth_append)
  then have "list_all (seg_ok ?t) (gs @ [(?a, [], [])])" using old by (simp add: list_all_iff)
  moreover have "distinct (map (\<lambda>g. s_path (seg ?t (fst g))) (gs @ [(?a, [], [])]))"
  proof -
    have "map (\<lambda>g. s_path (seg ?t (fst g))) (gs @ [(?a, [], [])]) = map (\<lambda>g. s_path (seg q (fst g))) gs @ [?p]"
      using old(4) srep(2) by (simp add: seg_def nth_append)
    moreover have "?p \<notin> (\<lambda>g. s_path (seg q (fst g))) ` set gs"
      unfolding image_iff using old(2) by metis
    ultimately show ?thesis using rep by (simp only: queue_rep_def distinct_append) simp
  qed
  moreover have "?a \<notin> fst ` set gs" unfolding image_iff using old(3) by metis
  then have "distinct (map fst (gs @ [(?a, [], [])]))" using rep by (simp add: queue_rep_def)
  ultimately have "queue_rep ?t (gs @ [(?a, [], [])])"
    using rep sz by (simp add: queue_rep_def disk_ok_put_file)
  moreover have "seg ?q ?a = s" by (simp add: seg_def)
  ultimately show ?thesis using add srep(2) by simp
qed

lemma file_at_remove [simp]: "file_at (remove_file p d) q = (if q = p then None else file_at d q)"
  by (simp add: file_at_def remove_file_def delete_conv')

lemma disk_ok_remove: "disk_ok d \<Longrightarrow> disk_ok (remove_file p d)"
  using distinct_delete [of "files d" p] by (auto simp: disk_ok_def remove_file_def AList.delete_eq)

lemma seg_ok_remove:
  assumes "seg_ok q h" "fst h \<noteq> a" "s_path (seg q (fst h)) \<noteq> p"
  shows "seg_ok (q\<lparr>q_segments := x, q_heap := (q_heap q)[a := s], q_disk := remove_file p (q_disk q), q_head := y\<rparr>) h"
    "s_path (seg (q\<lparr>q_segments := x, q_heap := (q_heap q)[a := s], q_disk := remove_file p (q_disk q), q_head := y\<rparr>) (fst h))
      = s_path (seg q (fst h))"
  using assms by (auto simp: seg_ok_def seg_def seg_rep_def file_rep_def)

lemma trimHead_rep:
  assumes rep: "queue_rep q ((a, dn, td) # g # gs)"
  shows "\<exists>q'. trimHead q = (Inr (), q') \<and> queue_rep q' (g # gs) \<and>
    q_disk q' = remove_file (s_path (seg q a)) (q_disk q) \<and> s_file (seg q' a) = None \<and>
    (\<forall>h\<in>set (g # gs). s_path (seg q' (fst h)) = s_path (seg q (fst h)) \<and> s_path (seg q (fst h)) \<noteq> s_path (seg q a))"
proof -
  have seg: "seg_rep (q_disk q) (seg q a) dn td" "a < length (q_heap q)"
    using queue_rep_segD(1,2) [of q "[]"] rep by auto
  then obtain n where n: "s_file (seg q a) = Some n" and f: "file_at (q_disk q) (s_path (seg q a)) \<noteq> None"
    by (auto simp: seg_rep_def file_rep_def)
  define s where "s = (seg q a)\<lparr>s_file := None\<rparr>"
  define q' where "q' = q\<lparr>q_segments := Some (map fst (g # gs)), q_heap := (q_heap q)[a := s],
    q_disk := remove_file (s_path (seg q a)) (q_disk q), q_head := Some (fst g)\<rparr>"
  have "trimHead q = (Inr (), q')"
    using segs_rep [OF rep] queue_repD(5) [OF rep] n f seg(2)
    by (simp add: trimHead_def on_seg_def seg_def close_segment_def bindE_def segs_def q'_def s_def)
  moreover have old: "seg_ok q' h" "s_path (seg q' (fst h)) = s_path (seg q (fst h))" if "h \<in> set (g # gs)" for h
  proof -
    have "seg_ok q h" using that queue_repD(1) [OF rep] by (auto simp: list_all_iff)
    moreover have "fst h \<noteq> a" "s_path (seg q (fst h)) \<noteq> s_path (seg q a)"
      using that rep by (auto simp: queue_rep_def image_iff)
    ultimately show "seg_ok q' h" "s_path (seg q' (fst h)) = s_path (seg q (fst h))"
      unfolding q'_def by (rule seg_ok_remove)+
  qed
  moreover have "map (\<lambda>h. s_path (seg q' (fst h))) (g # gs) = map (\<lambda>h. s_path (seg q (fst h))) (g # gs)"
    using old(2) by simp
  then have "distinct (map (\<lambda>h. s_path (seg q' (fst h))) (g # gs))"
    using rep by (simp only: queue_rep_def list.map distinct.simps simp_thms)
  moreover have "list_all (seg_ok q') (g # gs)" using old(1) by (simp add: list_all_iff)
  moreover have "total_size (g # gs) < 2 ^ 63"
    using queue_repD(3) [OF rep] by (simp add: total_size_def)
  ultimately have "queue_rep q' (g # gs)"
    using rep unfolding queue_rep_def by (simp add: disk_ok_remove q'_def)
  moreover have "\<forall>h\<in>set (g # gs). s_path (seg q (fst h)) \<noteq> s_path (seg q a)"
    using rep by (auto simp: queue_rep_def image_iff)
  ultimately show ?thesis using \<open>trimHead q = (Inr (), q')\<close> old(2) seg(2) by (auto simp: q'_def s_def seg_def)
qed

subsection \<open>Lemmas: the operations on the representation\<close>

lemma length_seg_data_move: "length (seg_data (dn @ [r]) td) = length (seg_data dn (r # td))"
  by (simp add: length_seg_data)

lemma trimHead_single: "queue_rep q [g] \<Longrightarrow> trimHead q = (Inr (), q)"
  by (simp add: trimHead_def segs_rep)

lemma trimHead_after:
  assumes "queue_rep q ((a, dn, []) # gs)"
  shows "\<exists>q'. trimHead q = (Inr (), q') \<and> queue_rep q' (if gs = [] then [(a, dn, [])] else gs)"
proof (cases gs)
  case Nil
  with assms show ?thesis using trimHead_single by auto
next
  case (Cons g gs')
  with assms trimHead_rep [of q a dn "[]" g gs'] show ?thesis by auto
qed

lemma advance_rep:
  assumes rep: "queue_rep q ((a, dn, td) # gs)"
  shows "\<exists>q' dn'. Advance q = (Inr (), q') \<and>
    queue_rep q' (if tl td = [] \<and> gs \<noteq> [] then gs else (a, dn', tl td) # gs)"
proof (cases td)
  have hd: "q_head q = Some a" using rep by (simp add: queue_rep_def)
  have seg: "seg_rep (q_disk q) (seg q a) dn td" using queue_rep_segD(1) [of q "[]" a dn td gs] rep by simp
  {
    case Nil
    have "on_seg a advance_segment q = (Inl EOF, q\<lparr>q_disk := q_disk q, q_heap := (q_heap q)[a := seg q a]\<rparr>)"
      using seg Nil by (intro on_seg_eq advance_segment_EOF) simp
    then have "Advance q = trimHead q" using hd by (simp add: Advance_def seg_def)
    then show ?thesis using trimHead_after [of q a dn gs] rep Nil by (cases "gs = []"; simp; blast)
  next
    case (Cons r rs)
    let ?d = "put_file (s_path (seg q a)) (mk_file (q_disk q) (seg_data (dn @ [r]) rs)) (q_disk q)"
    from advance_segment_ok [of "q_disk q" "seg q a" dn r rs] seg Cons obtain s where
      s: "advance_segment (q_disk q, seg q a) = ((if rs = [] then Inl EOF else Inr ()), (?d, s))"
      and srep: "seg_rep ?d s (dn @ [r]) rs" "same_file (seg q a) s" by auto
    define q1 where "q1 = q\<lparr>q_disk := ?d, q_heap := (q_heap q)[a := s]\<rparr>"
    have "total_size ([] @ (a, dn @ [r], rs) # gs) < 2 ^ 63"
      using queue_repD(3) [OF rep] Cons by (simp add: length_seg_data_move)
    then have rep1: "queue_rep q1 ((a, dn @ [r], rs) # gs)"
      using queue_rep_update [of q "[]" a dn td gs ?d s "dn @ [r]" rs] rep srep
      by (simp add: frame_put_file q1_def)
    have "Advance q = (if rs = [] then trimHead q1 else (Inr (), q1))"
      using on_seg_eq [of advance_segment q a, OF s] hd by (simp add: Advance_def q1_def)
    then show ?thesis using rep1 trimHead_after [of q1 a "dn @ [r]" gs] Cons
      by (cases "rs = []"; cases "gs = []"; simp; blast)
  }
qed

lemma append_room_rep:
  assumes rep: "queue_rep q (xs @ [(a, dn, td)])" and b: "b \<noteq> []"
    and room: "int (length (seg_data dn td)) + int (length b) \<le> q_maxSegmentSize q"
    and sz: "total_size (xs @ [(a, dn, td)]) + int (length b) + 8 < 2 ^ 63"
  shows "\<exists>q'. on_seg a (append_segment b) q = (Inr (), q') \<and> queue_rep q' (xs @ [(a, dn, td @ [b])]) \<and>
    q_maxSegmentSize q' = q_maxSegmentSize q \<and> q_maxSize q' = q_maxSize q"
proof -
  have seg: "seg_rep (q_disk q) (seg q a) dn td" "s_maxSize (seg q a) = q_maxSegmentSize q"
    "s_size (seg q a) = int (length (seg_data dn td))" using queue_rep_segD [of q xs a dn td "[]"] rep by auto
  have "s_size (seg q a) + int (length b) + 8 < 2 ^ 63"
    using sz seg(3) total_size_nonneg [of xs] by simp
  then obtain d s where
    s: "append_segment b (q_disk q, seg q a) = (Inr (), (d, s))"
    and d: "d = put_file (s_path (seg q a)) (mk_file (q_disk q) (seg_data dn (td @ [b]))) (q_disk q)"
    and srep: "seg_rep d s dn (td @ [b])" "same_file (seg q a) s"
    using append_segment_ok [OF seg(1) b] room seg(2,3) by auto
  have "total_size (xs @ [(a, dn, td @ [b])]) < 2 ^ 63" using sz by (simp add: length_seg_data)
  then have "queue_rep (q\<lparr>q_disk := d, q_heap := (q_heap q)[a := s]\<rparr>) (xs @ [(a, dn, td @ [b])])"
    using queue_rep_update [of q xs a dn td "[]" d s dn "td @ [b]"] rep srep d by (simp add: frame_put_file)
  then show ?thesis using on_seg_eq [of "append_segment b" q a, OF s] by simp
qed

lemma append_rep:
  assumes rep: "queue_rep q (xs @ [(a, dn, td)])" and b: "b \<noteq> []"
    and fits: "8 + int (length b) \<le> q_maxSegmentSize q" and ids: "ids_left (q_disk q)"
    and use: "diskUsage q + int (length b) \<le> q_maxSize q" and max: "q_maxSize q + 16 < 2 ^ 63"
  shows "\<exists>q' gs'. Append b q = (Inr (), q') \<and> queue_rep q' gs' \<and> q_maxSegmentSize q' = q_maxSegmentSize q \<and>
    q_maxSize q' = q_maxSize q \<and>
    gs' = (if int (length (seg_data dn td)) + int (length b) \<le> q_maxSegmentSize q then xs @ [(a, dn, td @ [b])]
           else xs @ [(a, dn, td), (length (q_heap q), [], [b])])"
proof -
  let ?gs = "xs @ [(a, dn, td)]"
  have seg: "seg_rep (q_disk q) (seg q a) dn td" "s_maxSize (seg q a) = q_maxSegmentSize q"
    "s_size (seg q a) = int (length (seg_data dn td))" using queue_rep_segD [of q xs a dn td "[]"] rep by auto
  have tail: "q_tail q = Some a" using queue_repD(6) [OF rep] by simp
  have sz: "total_size ?gs + int (length b) + 16 < 2 ^ 63" using use max diskUsage_rep [OF rep] by simp
  have "i64 (diskUsage q + int (length b)) = diskUsage q + int (length b)"
    using sz diskUsage_rep [OF rep] total_size_nonneg [of ?gs] by (intro i64_id in_i64_nat) auto
  with use have notfull: "\<not> i64 (diskUsage q + int (length b)) > q_maxSize q" by simp
  show ?thesis
  proof (cases "int (length (seg_data dn td)) + int (length b) \<le> q_maxSegmentSize q")
    case True
    then obtain q' where "on_seg a (append_segment b) q = (Inr (), q')" "queue_rep q' (xs @ [(a, dn, td @ [b])])"
      "q_maxSegmentSize q' = q_maxSegmentSize q" "q_maxSize q' = q_maxSize q"
      using append_room_rep [OF rep b] sz by fastforce
    then show ?thesis using True tail notfull by (simp add: Append_def)
  next
    case False
    have "s_size (seg q a) + int (length b) < 2 ^ 63" using sz seg(3) total_size_nonneg [of xs] by simp
    then have "on_seg a (append_segment b) q = (Inl ErrSegmentFull, q\<lparr>q_disk := q_disk q, q_heap := (q_heap q)[a := seg q a]\<rparr>)"
      using seg False by (intro on_seg_eq append_segment_full) auto
    then have full: "on_seg a (append_segment b) q = (Inl ErrSegmentFull, q)" by (simp add: seg_def)
    obtain q1 where q1: "addSegment q = (Inr (length (q_heap q)), q1)"
      "queue_rep (q1\<lparr>q_tail := Some (length (q_heap q))\<rparr>) (?gs @ [(length (q_heap q), [], [])])"
      "q_maxSegmentSize q1 = q_maxSegmentSize q" "q_maxSize q1 = q_maxSize q"
      using addSegment_rep [OF rep ids] sz by fastforce
    then obtain q' where "on_seg (length (q_heap q)) (append_segment b) (q1\<lparr>q_tail := Some (length (q_heap q))\<rparr>) = (Inr (), q')"
      "queue_rep q' (?gs @ [(length (q_heap q), [], [b])])"
      "q_maxSegmentSize q' = q_maxSegmentSize q" "q_maxSize q' = q_maxSize q"
      using append_room_rep [OF q1(2) b] sz fits by (auto simp: length_seg_data)
    then show ?thesis using False tail notfull full q1(1) by (simp add: Append_def bindE_def)
  qed
qed

subsection \<open>The operations on the abstraction\<close>

text \<open>\<open>can_take q b\<close>: record \<open>b\<close> fits in the queue and in a segment.\<close>

definition can_take :: "queue \<Rightarrow> bytes \<Rightarrow> bool" where
  "can_take q b \<longleftrightarrow> b \<noteq> [] \<and> 8 + int (length b) \<le> q_maxSegmentSize q \<and>
     diskUsage q + int (length b) \<le> q_maxSize q \<and> q_maxSize q + 16 < 2 ^ 63 \<and> ids_left (q_disk q)"

text \<open>\<open>tail_ready q b\<close>: the last segment has room for \<open>b\<close>, or records of its own to deliver.\<close>

definition tail_ready :: "queue \<Rightarrow> bytes \<Rightarrow> bool" where
  "tail_ready q b \<longleftrightarrow> (case q_tail q of None \<Rightarrow> False | Some t \<Rightarrow>
     s_size (seg q t) + int (length b) \<le> q_maxSegmentSize q \<or> seg_pending (q_disk q) (seg q t) \<noteq> [])"

lemma queue_ok_cases:
  assumes "queue_ok q"
  obtains xs a dn td where "queue_rep q (xs @ [(a, dn, td)])"
  using assms unfolding queue_ok_def by (metis prod_cases3 queue_repD(4) rev_exhaust)

lemma queue_ok_cases_hd:
  assumes "queue_ok q"
  obtains a dn td gs where "queue_rep q ((a, dn, td) # gs)"
  using assms unfolding queue_ok_def by (metis prod_cases3 queue_repD(4) neq_Nil_conv)

lemma tail_ready_rep:
  assumes "queue_rep q (xs @ [(a, dn, td)])"
  shows "tail_ready q b \<longleftrightarrow> int (length (seg_data dn td)) + int (length b) \<le> q_maxSegmentSize q \<or> td \<noteq> []"
  using queue_rep_segD [OF assms] queue_repD(6) [OF assms] by (simp add: tail_ready_def seg_pending_rep)

lemma Append_pending:
  assumes "queue_ok q" "can_take q b"
  shows "\<exists>q'. Append b q = (Inr (), q') \<and> queue_ok q' \<and> pending q' = pending q @ [b] \<and>
    (queue_live q \<longrightarrow> tail_ready q b \<longrightarrow> queue_live q')"
proof -
  obtain xs a dn td where rep: "queue_rep q (xs @ [(a, dn, td)])" using assms(1) by (rule queue_ok_cases)
  have "b \<noteq> []" "8 + int (length b) \<le> q_maxSegmentSize q" "ids_left (q_disk q)"
    "diskUsage q + int (length b) \<le> q_maxSize q" "q_maxSize q + 16 < 2 ^ 63"
    using assms(2) by (auto simp: can_take_def)
  from append_rep [OF rep this] obtain q' gs' where q': "Append b q = (Inr (), q')" "queue_rep q' gs'"
    and gs': "gs' = (if int (length (seg_data dn td)) + int (length b) \<le> q_maxSegmentSize q then xs @ [(a, dn, td @ [b])]
      else xs @ [(a, dn, td), (length (q_heap q), [], [b])])" by blast
  have "queue_live q'" if "queue_live q" "tail_ready q b"
    using that gs' unfolding queue_live_rep [OF rep] queue_live_rep [OF q'(2)] tail_ready_rep [OF rep]
    by (auto simp: butlast_append)
  moreover have "pending q' = pending q @ [b]"
    using gs' by (simp add: pending_rep [OF rep] pending_rep [OF q'(2)])
  ultimately show ?thesis using q' by (auto simp: queue_ok_def)
qed

lemma Append_full:
  assumes "queue_ok q" "diskUsage q + int (length b) > q_maxSize q" "diskUsage q + int (length b) < 2 ^ 63"
  shows "Append b q = (Inl ErrQueueFull, q)"
proof -
  obtain gs where rep: "queue_rep q gs" using assms(1) by (auto simp: queue_ok_def)
  have "i64 (diskUsage q + int (length b)) = diskUsage q + int (length b)"
    using assms(3) diskUsage_rep [OF rep] total_size_nonneg [of gs] by (intro i64_id in_i64_nat) auto
  then show ?thesis using assms(2) queue_repD(6) [OF rep] by (simp add: Append_def)
qed

lemma Current_pending:
  assumes "queue_ok q" "queue_live q"
  shows "\<exists>q'. Current q = ((case pending q of [] \<Rightarrow> Inl EOF | r # _ \<Rightarrow> Inr r), q') \<and>
    queue_ok q' \<and> queue_live q' \<and> pending q' = pending q"
proof -
  obtain a dn td gs where rep: "queue_rep q ((a, dn, td) # gs)" using assms(1) by (rule queue_ok_cases_hd)
  obtain q' where q': "Current q = ((case td of [] \<Rightarrow> Inl EOF | r # _ \<Rightarrow> Inr r), q')" "queue_rep q' ((a, dn, td) # gs)"
    using current_rep [OF rep] by blast
  have "td = [] \<Longrightarrow> gs = []" using assms(2) by (cases gs) (auto simp: queue_live_rep [OF rep])
  then have "(case pending q of [] \<Rightarrow> Inl EOF | r # _ \<Rightarrow> Inr r) = (case td of [] \<Rightarrow> Inl EOF | r # _ \<Rightarrow> Inr r)"
    by (cases td) (auto simp: pending_rep [OF rep])
  then show ?thesis
    using q' assms(2) by (auto simp: queue_ok_def pending_rep [OF rep] pending_rep [OF q'(2)] queue_live_rep [OF rep] queue_live_rep [OF q'(2)])
qed

lemma Advance_pending:
  assumes "queue_ok q" "queue_live q"
  shows "\<exists>q'. Advance q = (Inr (), q') \<and> queue_ok q' \<and> queue_live q' \<and> pending q' = tl (pending q)"
proof -
  obtain a dn td gs where rep: "queue_rep q ((a, dn, td) # gs)" using assms(1) by (rule queue_ok_cases_hd)
  obtain q' dn' where q': "Advance q = (Inr (), q')" "queue_rep q' (if tl td = [] \<and> gs \<noteq> [] then gs else (a, dn', tl td) # gs)"
    using advance_rep [OF rep] by blast
  have td: "td = [] \<Longrightarrow> gs = []" using assms(2) by (cases gs) (auto simp: queue_live_rep [OF rep])
  have "pending q' = tl (pending q)"
    using td by (cases td) (auto simp: pending_rep [OF rep] pending_rep [OF q'(2)])
  moreover have "queue_live q'"
    using assms(2) by (cases gs) (auto simp: queue_live_rep [OF rep] queue_live_rep [OF q'(2)])
  ultimately show ?thesis using q' by (auto simp: queue_ok_def)
qed

definition hh_fits :: "queue \<Rightarrow> bytes \<Rightarrow> bool" where
  "hh_fits q b \<longleftrightarrow> can_take q b \<and> tail_ready q b"

definition hh_invar :: "queue \<Rightarrow> bool" where
  "hh_invar q \<longleftrightarrow> queue_ok q \<and> queue_live q"

interpretation hhq: fifo Append Current Advance EOF hh_fits pending hh_invar
proof unfold_locales
  fix q b assume "hh_invar q" "hh_fits q b"
  then show "\<exists>q'. Append b q = (Inr (), q') \<and> hh_invar q' \<and> pending q' = pending q @ [b]"
    using Append_pending [of q b] by (auto simp: hh_invar_def hh_fits_def)
next
  fix q assume "hh_invar q"
  then show "\<exists>q'. Current q = ((case pending q of [] \<Rightarrow> Inl EOF | r # _ \<Rightarrow> Inr r), q') \<and> hh_invar q' \<and> pending q' = pending q"
    using Current_pending [of q] unfolding hh_invar_def by blast
next
  fix q assume "hh_invar q"
  then show "\<exists>q'. Advance q = (Inr (), q') \<and> hh_invar q' \<and> pending q' = tl (pending q)"
    using Advance_pending [of q] unfolding hh_invar_def by blast
qed

subsection \<open>Lemmas: opening an existing directory\<close>

lemma seg_alloc_old: "a < length (q_heap q) \<Longrightarrow> seg (q\<lparr>q_heap := q_heap q @ [s]\<rparr>) a = seg q a"
  by (simp add: seg_def nth_append)

definition loaded :: "queue \<Rightarrow> nat list \<Rightarrow> (string \<times> bytes list \<times> bytes list) list \<Rightarrow> bool" where
  "loaded q as ls \<longleftrightarrow> distinct as \<and> length as = length ls \<and>
     (\<forall>i<length as. as ! i < length (q_heap q) \<and> s_path (seg q (as ! i)) = fst (ls ! i) \<and>
       seg_ok q (as ! i, snd (ls ! i)))"

lemma loaded_snoc:
  assumes "loaded q as ls" "seg_rep (q_disk q) s dn td" "s_path s = n" "s_maxSize s = q_maxSegmentSize q"
  shows "loaded (q\<lparr>q_heap := q_heap q @ [s]\<rparr>) (as @ [length (q_heap q)]) (ls @ [(n, dn, td)])"
  using assms unfolding loaded_def
  by (auto simp: seg_ok_def nth_append seg_def less_Suc_eq in_set_conv_nth)

lemma load_from_ok:
  assumes "\<forall>(n, f)\<in>set es. \<not> f_isdir f \<and> ParseUint n \<noteq> None"
    and "list_all2 (\<lambda>(n, f) (dn, td). file_rep (q_disk q) n dn td \<and> (\<forall>r\<in>set td. r \<noteq> [] \<and> int (length r) \<le> q_maxSegmentSize q)) es cs"
    and "loaded q as ls"
  shows "\<exists>as' h. load_from es as q = (Inr as', q\<lparr>q_heap := h\<rparr>) \<and>
    loaded (q\<lparr>q_heap := h\<rparr>) as' (ls @ zip (map fst es) cs)"
  using assms
proof (induction es arbitrary: q as ls cs)
  case Nil
  have "q = q\<lparr>q_heap := q_heap q\<rparr>" by simp
  moreover have "cs = []" using Nil.prems(2) by simp
  ultimately show ?case using Nil.prems(3) by (metis append_Nil2 list.map(1) load_from.simps(1) zip_Nil)
next
  case (Cons e es)
  obtain n f where e: "e = (n, f)" by (cases e)
  with Cons.prems(2) obtain dn td cs' where cs: "cs = (dn, td) # cs'" and rep: "file_rep (q_disk q) n dn td"
    "\<forall>r\<in>set td. r \<noteq> [] \<and> int (length r) \<le> q_maxSegmentSize q" by (cases cs) auto
  obtain s where s: "newSegment n (q_maxSegmentSize q) (q_disk q) = (Inr s, q_disk q)"
    "seg_rep (q_disk q) s dn td" "s_path s = n" "s_maxSize s = q_maxSegmentSize q"
    using newSegment_reopen [OF rep] by blast
  let ?q = "q\<lparr>q_heap := q_heap q @ [s]\<rparr>"
  have "loaded ?q (as @ [length (q_heap q)]) (ls @ [(n, dn, td)])" by (rule loaded_snoc [OF Cons.prems(3) s(2-)])
  then have "\<exists>as' h. load_from es (as @ [length (q_heap q)]) ?q = (Inr as', ?q\<lparr>q_heap := h\<rparr>) \<and>
    loaded (?q\<lparr>q_heap := h\<rparr>) as' ((ls @ [(n, dn, td)]) @ zip (map fst es) cs')"
    using Cons.prems(1,2) cs e by (intro Cons.IH) simp_all
  then show ?case using Cons.prems(1) s(1) e cs by (auto simp: alloc_segment_def bindE_def)
qed

text \<open>
  \<open>dir_rep d m cs\<close>: the directory holds segment files only; in file-name order they contain the
  consumed and the pending records \<open>cs\<close>, none of which exceeds \<open>m\<close> bytes.
\<close>

definition dir_rep :: "hh_disk \<Rightarrow> int \<Rightarrow> (bytes list \<times> bytes list) list \<Rightarrow> bool" where
  "dir_rep d m cs \<longleftrightarrow> disk_ok d \<and> (\<forall>(n, f)\<in>set (files d). ParseUint n \<noteq> None) \<and>
     list_all2 (\<lambda>(n, f) (dn, td). file_rep d n dn td \<and> (\<forall>r\<in>set td. r \<noteq> [] \<and> int (length r) \<le> m)) (ReadDir d) cs \<and>
     (\<Sum>(dn, td)\<leftarrow>cs. int (length (seg_data dn td))) < 2 ^ 63"

lemma set_ReadDir [simp]: "set (ReadDir d) = set (files d)"
  by (simp add: ReadDir_def)

lemma distinct_ReadDir: "disk_ok d \<Longrightarrow> distinct (map fst (ReadDir d))"
proof -
  assume "disk_ok d"
  then have d: "distinct (files d)" "inj_on fst (set (files d))" by (simp_all add: disk_ok_def distinct_map)
  have "distinct (ReadDir d)" using d(1) by (simp add: ReadDir_def)
  then show ?thesis using d(2) by (simp add: distinct_map)
qed

lemma loaded_rep:
  assumes l: "loaded q as (zip (map fst (ReadDir (q_disk q))) cs)" and d: "dir_rep (q_disk q) m cs" and ne: "cs \<noteq> []"
  shows "queue_rep (q\<lparr>q_segments := Some as, q_head := Some (hd as), q_tail := Some (last as)\<rparr>) (zip as cs)"
proof -
  let ?q = "q\<lparr>q_segments := Some as, q_head := Some (hd as), q_tail := Some (last as)\<rparr>"
  have len: "length (ReadDir (q_disk q)) = length cs" using d by (auto simp: dir_rep_def dest: list_all2_lengthD)
  have las: "length as = length cs" using l len by (simp add: loaded_def)
  have seg: "seg ?q a = seg q a" for a by (simp add: seg_def)
  have ok: "seg_ok ?q (as ! i, cs ! i)" "s_path (seg ?q (as ! i)) = map fst (ReadDir (q_disk q)) ! i" if "i < length as" for i
    using l that las len by (simp_all add: loaded_def seg_ok_def seg split: prod.splits)
  have "map (\<lambda>g. s_path (seg ?q (fst g))) (zip as cs) = map fst (ReadDir (q_disk q))"
    using las len ok(2) by (auto intro!: nth_equalityI)
  moreover have "list_all (seg_ok ?q) (zip as cs)"
    using las ok(1) by (auto simp: list_all_length)
  moreover have "total_size (zip as cs) = (\<Sum>(dn, td)\<leftarrow>cs. int (length (seg_data dn td)))"
    using las by (auto simp: total_size_def case_prod_beta intro!: arg_cong [where f = sum_list] nth_equalityI)
  moreover have "as \<noteq> []" using ne las by auto
  moreover have "fst (hd (zip as cs)) = hd as" "fst (last (zip as cs)) = last as"
    using las ne \<open>as \<noteq> []\<close> by (simp_all add: hd_conv_nth last_conv_nth)
  moreover have "distinct as" using l by (simp add: loaded_def)
  ultimately show ?thesis
    using d distinct_ReadDir [of "q_disk q"] las ne unfolding queue_rep_def by (simp add: dir_rep_def)
qed

lemma Open_rep:
  assumes d: "dir_rep d defaultSegmentSize cs" and ne: "cs \<noteq> []"
  shows "\<exists>q'. Open (newQueue d m) = (Inr (), q') \<and> queue_ok q' \<and> pending q' = concat (map snd cs)"
proof -
  let ?q = "newQueue d m"
  have q: "q_disk ?q = d" "q_maxSegmentSize ?q = defaultSegmentSize" by (simp_all add: newQueue_def)
  have "loaded ?q [] []" by (simp add: loaded_def)
  moreover have "\<forall>(n, f)\<in>set (ReadDir d). \<not> f_isdir f \<and> ParseUint n \<noteq> None"
    using d unfolding dir_rep_def disk_ok_def set_ReadDir by blast
  ultimately obtain as h where ld: "loadSegments ?q = (Inr as, ?q\<lparr>q_heap := h\<rparr>)"
    "loaded (?q\<lparr>q_heap := h\<rparr>) as (zip (map fst (ReadDir d)) cs)"
    using load_from_ok [of "ReadDir d" ?q cs "[]" "[]"] d q by (simp add: dir_rep_def loadSegments_def) blast
  define q1 where "q1 = ?q\<lparr>q_heap := h, q_segments := Some as, q_head := Some (hd as), q_tail := Some (last as)\<rparr>"
  have rep: "queue_rep q1 (zip as cs)"
    using loaded_rep [of "?q\<lparr>q_heap := h\<rparr>" as cs] ld(2) d ne q by (simp add: q1_def)
  then have as: "as \<noteq> []" "length as = length cs" using ne ld(2) d
    by (auto simp: queue_rep_def loaded_def dir_rep_def dest: list_all2_lengthD)
  then obtain a dn td gs where gs: "zip as cs = (a, dn, td) # gs"
    by (metis length_0_conv length_zip min.idem neq_Nil_conv prod_cases3)
  obtain q2 where q2: "Current q1 = ((case td of [] \<Rightarrow> Inl EOF | r # _ \<Rightarrow> Inr r), q2)" "queue_rep q2 ((a, dn, td) # gs)"
    using current_rep rep gs by metis
  have "Current q1 = on_seg (hd as) current_segment q1" by (simp add: Current_def q1_def)
  then have "Open ?q = (case Current q1 of (Inl e, q2) \<Rightarrow> if e = EOF then trimHead q2 else (Inr (), q2) | (Inr _, q2) \<Rightarrow> (Inr (), q2))"
    using ld(1) as by (simp add: Open_def bindE_def ret_def segs_def q1_def Let_def)
  then have o: "Open ?q = (if td = [] then trimHead q2 else (Inr (), q2))" using q2(1) by (cases td) auto
  have p: "concat (map snd cs) = td @ concat (map (\<lambda>g. snd (snd g)) gs)"
  proof -
    have "map snd cs = map (\<lambda>g. snd (snd g)) (zip as cs)" using as by (auto intro!: nth_equalityI)
    then show ?thesis using gs by simp
  qed
  show ?thesis
  proof (cases "td = []")
    case True
    then obtain q3 where q3: "trimHead q2 = (Inr (), q3)" "queue_rep q3 (if gs = [] then [(a, dn, [])] else gs)"
      using trimHead_after q2(2) by blast
    then show ?thesis using o p True pending_rep [OF q3(2)] by (auto simp: queue_ok_def)
  next
    case False
    then show ?thesis using o p q2(2) pending_rep [OF q2(2)] by (auto simp: queue_ok_def)
  qed
qed

end
