(* ===== verification/Hh_Queue_Props.thy ===== *)
theory Hh_Queue_Props
  imports Hh_Queue
begin

text \<open>
  The properties of the hinted-handoff queue (\<^verbatim>\<open>services/hh/queue.go\<close>): what the operations do to
  the records still to be delivered, what a restart keeps, what a purge removes, and the two
  situations in which records are stuck or dropped.
\<close>

subsection \<open>Lemmas: purging\<close>

definition mtime :: "queue \<Rightarrow> nat \<Rightarrow> int" where
  "mtime q a = (case file_at (q_disk q) (s_path (seg q a)) of None \<Rightarrow> 0 | Some f \<Rightarrow> f_mtime f)"

lemma lastModified_rep:
  assumes "queue_rep q ((a, dn, td) # gs)"
  shows "on_seg a lastModified q = (Inr (mtime q a), q)"
  using queue_rep_segD(1,2) [of q "[]" a dn td gs] assms
  by (auto simp: on_seg_def lastModified_def seg_rep_def file_rep_def mtime_def seg_def)

lemma purge_young:
  assumes "queue_rep q ((a, dn, td) # gs)" "cutoff \<le> mtime q a"
  shows "purge_loop (Suc n) cutoff q = Some (Inr (), q)"
  using assms queue_repD(5) [OF assms(1)] lastModified_rep [OF assms(1)] by simp

lemma purge_old:
  assumes rep: "queue_rep q ((a, dn, td) # g # gs)" and old: "mtime q a < cutoff"
  shows "\<exists>q'. purge_loop (Suc n) cutoff q = purge_loop n cutoff q' \<and> queue_rep q' (g # gs) \<and>
    q_disk q' = remove_file (s_path (seg q a)) (q_disk q) \<and> (\<forall>h\<in>set (g # gs). mtime q' (fst h) = mtime q (fst h))"
proof -
  obtain q' where "trimHead q = (Inr (), q')" "queue_rep q' (g # gs)" "q_disk q' = remove_file (s_path (seg q a)) (q_disk q)"
    "\<forall>h\<in>set (g # gs). s_path (seg q' (fst h)) = s_path (seg q (fst h)) \<and> s_path (seg q (fst h)) \<noteq> s_path (seg q a)"
    using trimHead_rep [OF rep] by blast
  moreover then have "\<forall>h\<in>set (g # gs). mtime q' (fst h) = mtime q (fst h)" by (simp add: mtime_def)
  moreover have "purge_loop (Suc n) cutoff q = purge_loop n cutoff q'"
    using old \<open>trimHead q = (Inr (), q')\<close> queue_repD(5) [OF rep] lastModified_rep [OF rep] segs_rep [OF rep] by simp
  ultimately show ?thesis by blast
qed

lemma purge_prefix:
  assumes "queue_rep q gs" "cutoff \<le> mtime q (fst (last gs))" "length gs \<le> n"
  shows "\<exists>q'. purge_loop n cutoff q = Some (Inr (), q') \<and>
    queue_rep q' (dropWhile (\<lambda>g. mtime q (fst g) < cutoff) gs)"
  using assms
proof (induction gs arbitrary: q n)
  case Nil
  then show ?case by (simp add: queue_rep_def)
next
  case (Cons g gs)
  obtain a dn td where g: "g = (a, dn, td)" by (cases g)
  obtain m where n: "n = Suc m" using Cons.prems(3) by (cases n) auto
  show ?case
  proof (cases "cutoff \<le> mtime q a")
    case True
    then show ?thesis using purge_young Cons.prems(1) g n by auto
  next
    case False
    then obtain h hs where gs: "gs = h # hs" using Cons.prems(2) g by (cases gs) auto
    then obtain q' where q': "purge_loop n cutoff q = purge_loop m cutoff q'" "queue_rep q' gs"
      "\<forall>h\<in>set gs. mtime q' (fst h) = mtime q (fst h)"
      using purge_old [of q a dn td h hs cutoff m] Cons.prems(1) False g n by auto
    moreover have "mtime q' (fst (last gs)) = mtime q (fst (last gs))" using q'(3) gs by (metis last_in_set list.distinct(1))
    moreover have "dropWhile (\<lambda>g. mtime q' (fst g) < cutoff) gs = dropWhile (\<lambda>g. mtime q (fst g) < cutoff) gs"
      using q'(3) by (intro dropWhile_cong) auto
    ultimately show ?thesis using Cons.IH [of q' m] Cons.prems(2,3) False g gs n by simp
  qed
qed

lemma on_seg_tail: "on_seg a m (q\<lparr>q_tail := t\<rparr>) = map_prod id (\<lambda>q. q\<lparr>q_tail := t\<rparr>) (on_seg a m q)"
  by (cases "m (q_disk q, seg q a)") (simp add: on_seg_def seg_def split: prod.split)

lemma trimHead_tail: "trimHead (q\<lparr>q_tail := t\<rparr>) = map_prod id (\<lambda>q. q\<lparr>q_tail := t\<rparr>) (trimHead q)"
proof (cases "q_head q")
  case None
  then show ?thesis by (simp add: trimHead_def segs_def)
next
  case (Some h)
  let ?q = "q\<lparr>q_segments := Some (tl (segs q))\<rparr>"
  obtain r q1 where q1: "on_seg h close_segment ?q = (r, q1)" by (cases "on_seg h close_segment ?q")
  have "q\<lparr>q_tail := t, q_segments := Some (tl (segs q))\<rparr> = ?q\<lparr>q_tail := t\<rparr>" by simp
  then have "on_seg h close_segment (q\<lparr>q_tail := t, q_segments := Some (tl (segs q))\<rparr>) = (r, q1\<lparr>q_tail := t\<rparr>)"
    by (simp only: on_seg_tail q1 map_prod_simp id_apply)
  then show ?thesis using Some q1
    by (cases r) (simp_all add: trimHead_def bindE_def segs_def seg_def)
qed

text \<open>A queue whose only segment is too old: the code adds a segment and drops the old one, but keeps
  the old one as its tail.\<close>

lemma purge_single:
  assumes rep: "queue_rep q [(a, dn, td)]" and old: "mtime q a < cutoff" and cut: "cutoff \<le> clock (q_disk q)"
    and ids: "ids_left (q_disk q)" and sz: "diskUsage q + 8 < 2 ^ 63"
  shows "\<exists>q' n. purge_loop (Suc (Suc k)) cutoff q = Some (Inr (), q') \<and> q_tail q' = Some a \<and>
    s_file (seg q' a) = None \<and> queue_rep (q'\<lparr>q_tail := Some n\<rparr>) [(n, [], [])]"
proof -
  let ?n = "length (q_heap q)"
  obtain q1 where q1: "addSegment q = (Inr ?n, q1)" "queue_rep (q1\<lparr>q_tail := Some ?n\<rparr>) [(a, dn, td), (?n, [], [])]"
    "q_tail q1 = q_tail q" "q_maxSize q1 = q_maxSize q"
    "mtime q1 ?n = clock (q_disk q)"
    using addSegment_rep [OF rep ids] sz diskUsage_rep [OF rep] by (auto simp: mtime_def)
  obtain q2 where q2: "trimHead (q1\<lparr>q_tail := Some ?n\<rparr>) = (Inr (), q2)" "queue_rep q2 [(?n, [], [])]"
    "s_file (seg q2 a) = None" "mtime q2 ?n = mtime q1 ?n"
    using trimHead_rep [OF q1(2)] by (auto simp: mtime_def seg_def)
  define q' where "q' = q2\<lparr>q_tail := q_tail q\<rparr>"
  have "q1 = q1\<lparr>q_tail := Some ?n\<rparr>\<lparr>q_tail := q_tail q\<rparr>" using q1(3) by simp
  then have trim: "trimHead q1 = (Inr (), q')"
    using trimHead_tail [where q = "q1\<lparr>q_tail := Some ?n\<rparr>" and t = "q_tail q"] q2(1) by (simp add: q'_def)
  have tail: "q'\<lparr>q_tail := Some ?n\<rparr> = q2" using queue_repD(6) [OF q2(2)] by (simp add: q'_def)
  have "on_seg ?n lastModified q' = (Inr (mtime q2 ?n), q')"
    using lastModified_rep [OF q2(2)] by (auto simp: q'_def on_seg_def mtime_def seg_def lastModified_def split: option.splits)
  then have "purge_loop (Suc k) cutoff q' = Some (Inr (), q')"
    using cut q2(4) q1(5) queue_repD(5) [OF q2(2)] by (simp add: q'_def)
  then have "purge_loop (Suc (Suc k)) cutoff q = Some (Inr (), q')"
    using old queue_repD(5) [OF rep] lastModified_rep [OF rep] segs_rep [OF rep] q1(1) trim by (simp add: bindE_def ret_def)
  then show ?thesis using tail queue_repD(6) [OF rep] q2 q'_def by (intro exI [of _ q'] exI [of _ ?n]) (simp add: seg_def)
qed

lemma clock_remove [simp]: "clock (remove_file p d) = clock d"
  by (simp add: remove_file_def)

lemma ids_left_remove: "ids_left d \<Longrightarrow> ids_left (remove_file p d)"
proof -
  have "set (files (remove_file p d)) \<subseteq> set (files d)" by (auto simp: remove_file_def AList.delete_eq)
  then have "set (segment_ids (remove_file p d)) \<subseteq> set (segment_ids d)" unfolding in_segment_ids subset_iff by blast
  then show "ids_left d \<Longrightarrow> ids_left (remove_file p d)" by (auto simp: ids_left_def list_all_iff)
qed

lemma purge_returns:
  assumes "queue_rep q gs" "cutoff \<le> clock (q_disk q)" "ids_left (q_disk q)" "total_size gs + 8 < 2 ^ 63"
  shows "\<exists>q'. purge_loop (length gs + 1 + k) cutoff q = Some (Inr (), q') \<and>
    pending q' = concat (map (\<lambda>g. snd (snd g)) (dropWhile (\<lambda>g. mtime q (fst g) < cutoff) gs))"
  using assms
proof (induction gs arbitrary: q)
  case Nil
  then show ?case by (simp add: queue_rep_def)
next
  case (Cons g gs)
  obtain a dn td where g: "g = (a, dn, td)" by (cases g)
  show ?case
  proof (cases "cutoff \<le> mtime q a")
    case True
    then show ?thesis using purge_young [of q a dn td gs cutoff] Cons.prems(1) g pending_rep [OF Cons.prems(1)] by simp
  next
    case False
    show ?thesis
    proof (cases gs)
      case Nil
      then obtain q' n where q': "purge_loop (Suc (Suc k)) cutoff q = Some (Inr (), q')" "queue_rep (q'\<lparr>q_tail := Some n\<rparr>) [(n, [], [])]"
        using purge_single [of q a dn td cutoff k] Cons.prems g False diskUsage_rep [OF Cons.prems(1)] by auto
      have "pending q' = []" using pending_rep [OF q'(2)] by (simp add: pending_def segs_def seg_def)
      then show ?thesis using q'(1) Nil g False by simp
    next
      case (Cons h hs)
      then obtain q' where q': "purge_loop (Suc (length gs + 1 + k)) cutoff q = purge_loop (length gs + 1 + k) cutoff q'"
        "queue_rep q' gs" "q_disk q' = remove_file (s_path (seg q a)) (q_disk q)" "\<forall>h\<in>set gs. mtime q' (fst h) = mtime q (fst h)"
        using purge_old [of q a dn td h hs cutoff "length gs + 1 + k"] Cons.prems(1) False g by auto
      have "dropWhile (\<lambda>g. mtime q' (fst g) < cutoff) gs = dropWhile (\<lambda>g. mtime q (fst g) < cutoff) gs"
        using q'(4) by (intro dropWhile_cong) auto
      then show ?thesis using Cons.IH [of q'] Cons.prems g q'(1-3) False by (simp add: ids_left_remove)
    qed
  qed
qed

subsection \<open>Lemmas: one operation on any queue\<close>

text \<open>What the operations do to a queue of which a segment but the last may have been consumed completely. A record
  that has been read is at the head of the first segment.\<close>

definition head_starts :: "queue \<Rightarrow> bytes \<Rightarrow> bool" where
  "head_starts q b \<longleftrightarrow> (\<exists>a dn td gs. queue_rep q ((a, dn, b # td) # gs))"

text \<open>\<open>sizes_left q b\<close>: appending \<open>b\<close> overflows neither the segment numbers nor the 64-bit sizes.\<close>

definition sizes_left :: "queue \<Rightarrow> bytes \<Rightarrow> bool" where
  "sizes_left q b \<longleftrightarrow> ids_left (q_disk q) \<and> diskUsage q + int (length b) + 16 < 2 ^ 63"

lemma append_outcome:
  assumes rep: "queue_rep q (xs @ [(a, dn, td)])" and b: "b \<noteq> []" and sz: "sizes_left q b" and app: "Append b q = (r, q')"
  shows "r = Inr () \<and> queue_rep q' (xs @ [(a, dn, td @ [b])]) \<or>
    (\<exists>k. r = Inr () \<and> queue_rep q' (xs @ [(a, dn, td), (k, [], [b])])) \<or>
    (\<exists>e. r = Inl e \<and> queue_rep q' (xs @ [(a, dn, td)])) \<or>
    (\<exists>e k. r = Inl e \<and> queue_rep q' (xs @ [(a, dn, td), (k, [], [])]))"
proof (cases "i64 (diskUsage q + int (length b)) > q_maxSize q")
  case True
  then show ?thesis using app rep queue_repD(6) [OF rep] by (auto simp: Append_def)
next
  case notfull: False
  let ?gs = "xs @ [(a, dn, td)]" and ?k = "length (q_heap q)"
  have tail: "q_tail q = Some a" using queue_repD(6) [OF rep] by simp
  have ids: "ids_left (q_disk q)" and len: "total_size ?gs + int (length b) + 16 < 2 ^ 63"
    using sz diskUsage_rep [OF rep] by (auto simp: sizes_left_def)
  have seg: "seg_rep (q_disk q) (seg q a) dn td" "s_maxSize (seg q a) = q_maxSegmentSize q"
    "s_size (seg q a) = int (length (seg_data dn td))" using queue_rep_segD [of q xs a dn td "[]"] rep by auto
  show ?thesis
  proof (cases "int (length (seg_data dn td)) + int (length b) \<le> q_maxSegmentSize q")
    case True
    then obtain q1 where "on_seg a (append_segment b) q = (Inr (), q1)" "queue_rep q1 (xs @ [(a, dn, td @ [b])])"
      using append_room_rep [OF rep b] len by fastforce
    then show ?thesis using tail notfull app by (simp add: Append_def)
  next
    case False
    have "s_size (seg q a) + int (length b) < 2 ^ 63" using len seg(3) total_size_nonneg [of xs] by simp
    then have "on_seg a (append_segment b) q = (Inl ErrSegmentFull, q\<lparr>q_disk := q_disk q, q_heap := (q_heap q)[a := seg q a]\<rparr>)"
      using seg False by (intro on_seg_eq append_segment_full) auto
    then have full: "on_seg a (append_segment b) q = (Inl ErrSegmentFull, q)" by (simp add: seg_def)
    obtain q1 where add: "addSegment q = (Inr ?k, q1)" and max: "q_maxSegmentSize q1 = q_maxSegmentSize q"
      and rep1: "queue_rep (q1\<lparr>q_tail := Some ?k\<rparr>) (?gs @ [(?k, [], [])])"
      using addSegment_rep [OF rep ids] len by fastforce
    let ?q1 = "q1\<lparr>q_tail := Some ?k\<rparr>"
    have eq: "Append b q = on_seg ?k (append_segment b) ?q1"
      using tail notfull full add by (simp add: Append_def bindE_def)
    show ?thesis
    proof (cases "8 + int (length b) \<le> q_maxSegmentSize q")
      case True
      then obtain q2 where "on_seg ?k (append_segment b) ?q1 = (Inr (), q2)" "queue_rep q2 (?gs @ [(?k, [], [b])])"
        using append_room_rep [OF rep1 b] len max by (auto simp: length_seg_data)
      then show ?thesis using eq app by auto
    next
      case False
      have k: "seg_rep (q_disk ?q1) (seg ?q1 ?k) [] []" "s_maxSize (seg ?q1 ?k) = q_maxSegmentSize q" "s_size (seg ?q1 ?k) = 8"
        using queue_rep_segD [of ?q1 ?gs ?k "[]" "[]" "[]"] rep1 max by (auto simp: length_seg_data)
      then have "on_seg ?k (append_segment b) ?q1 = (Inl ErrSegmentFull, ?q1\<lparr>q_disk := q_disk ?q1, q_heap := (q_heap ?q1)[?k := seg ?q1 ?k]\<rparr>)"
        using False len total_size_nonneg [of ?gs] by (intro on_seg_eq append_segment_full) auto
      then show ?thesis using eq app rep1 by (auto simp: seg_def)
    qed
  qed
qed

lemma head_startsI: "queue_rep q gs \<Longrightarrow> gs = (a, dn, b # td) # ys \<Longrightarrow> head_starts q b"
  by (auto simp: head_starts_def)

lemma head_todo:
  assumes "queue_rep q ((a, dn, td) # gs)" "head_starts q b"
  shows "\<exists>td'. td = b # td'"
proof -
  obtain a' dn' td' gs' where r: "queue_rep q ((a', dn', b # td') # gs')" using assms(2) by (auto simp: head_starts_def)
  have "a' = a" using queue_repD(5) [OF assms(1)] queue_repD(5) [OF r] by simp
  then show ?thesis
    using queue_repD(1) [OF assms(1)] queue_repD(1) [OF r] by (auto dest!: seg_ok_pending)
qed

lemma append_keeps:
  assumes "queue_ok q" "b \<noteq> []" "sizes_left q b" "Append b q = (r, q')"
  shows "queue_ok q'" "pending q' = pending q @ (case r of Inl _ \<Rightarrow> [] | Inr _ \<Rightarrow> [b])" "head_starts q c \<Longrightarrow> head_starts q' c"
proof -
  obtain xs a dn td where rep: "queue_rep q (xs @ [(a, dn, td)])" using assms(1) by (rule queue_ok_cases)
  have "\<exists>td' ys. queue_rep q' (xs @ (a, dn, td @ td') # ys) \<and>
    td' @ concat (map (\<lambda>g. snd (snd g)) ys) = (case r of Inl _ \<Rightarrow> [] | Inr _ \<Rightarrow> [b])" (is "\<exists>td' ys. ?P td' ys")
    using append_outcome [OF rep assms(2-)]
  proof (elim disjE exE conjE)
    show "r = Inr () \<Longrightarrow> queue_rep q' (xs @ [(a, dn, td @ [b])]) \<Longrightarrow> \<exists>td' ys. ?P td' ys"
      by (intro exI [of _ "[b]"] exI [of _ "[]"]) simp
    show "r = Inr () \<Longrightarrow> queue_rep q' (xs @ [(a, dn, td), (k, [], [b])]) \<Longrightarrow> \<exists>td' ys. ?P td' ys" for k
      by (intro exI [of _ "[]"] exI [of _ "[(k, [], [b])]"]) simp
    show "r = Inl e \<Longrightarrow> queue_rep q' (xs @ [(a, dn, td)]) \<Longrightarrow> \<exists>td' ys. ?P td' ys" for e
      by (intro exI [of _ "[]"]) simp
    show "r = Inl e \<Longrightarrow> queue_rep q' (xs @ [(a, dn, td), (k, [], [])]) \<Longrightarrow> \<exists>td' ys. ?P td' ys" for e k
      by (intro exI [of _ "[]"] exI [of _ "[(k, [], [])]"]) simp
  qed
  then obtain td' ys where out: "queue_rep q' (xs @ (a, dn, td @ td') # ys)"
    "td' @ concat (map (\<lambda>g. snd (snd g)) ys) = (case r of Inl _ \<Rightarrow> [] | Inr _ \<Rightarrow> [b])" by blast
  show "queue_ok q'" using out(1) by (auto simp: queue_ok_def)
  show "pending q' = pending q @ (case r of Inl _ \<Rightarrow> [] | Inr _ \<Rightarrow> [b])"
    using out(2) by (simp add: pending_rep [OF rep] pending_rep [OF out(1)])
  assume c: "head_starts q c"
  show "head_starts q' c"
  proof (cases xs)
    case Nil
    then obtain td1 where "td = c # td1" using head_todo [of q a dn td "[]" c] rep c by auto
    then show ?thesis using head_startsI [OF out(1)] Nil by simp
  next
    case (Cons x xs')
    obtain a1 dn1 td1 where "x = (a1, dn1, td1)" by (cases x)
    then have xs: "xs = (a1, dn1, td1) # xs'" using Cons by simp
    then obtain td2 where "td1 = c # td2" using head_todo [of q a1 dn1 td1 "xs' @ [(a, dn, td)]" c] rep c by auto
    then show ?thesis using head_startsI [OF out(1)] xs by simp
  qed
qed

lemma current_keeps:
  assumes "queue_ok q" "Current q = (r, q')"
  shows "queue_ok q'" "pending q' = pending q" "r = Inr b \<Longrightarrow> head_starts q' b"
proof -
  obtain a dn td gs where rep: "queue_rep q ((a, dn, td) # gs)" using assms(1) by (rule queue_ok_cases_hd)
  have q': "r = (case td of [] \<Rightarrow> Inl EOF | r # _ \<Rightarrow> Inr r)" "queue_rep q' ((a, dn, td) # gs)"
    using current_rep [OF rep] assms(2) by auto
  show "queue_ok q'" using q'(2) by (auto simp: queue_ok_def)
  show "pending q' = pending q" by (simp add: pending_rep [OF rep] pending_rep [OF q'(2)])
  show "head_starts q' b" if "r = Inr b" using that q' by (cases td) (auto simp: head_starts_def)
qed

lemma advance_takes:
  assumes "head_starts q b" "Advance q = (r, q')"
  shows "queue_ok q'" "pending q = b # pending q'"
proof -
  obtain a dn td gs where rep: "queue_rep q ((a, dn, b # td) # gs)" using assms(1) by (auto simp: head_starts_def)
  obtain q1 dn' where q1: "Advance q = (Inr (), q1)" "queue_rep q1 (if td = [] \<and> gs \<noteq> [] then gs else (a, dn', td) # gs)"
    using advance_rep [OF rep] unfolding list.sel by blast
  then have q': "queue_rep q' (if td = [] \<and> gs \<noteq> [] then gs else (a, dn', td) # gs)" using assms(2) by simp
  show "queue_ok q'" using q' by (auto simp: queue_ok_def)
  show "pending q = b # pending q'" by (simp add: pending_rep [OF rep] pending_rep [OF q'])
qed

lemma purge_keeps:
  assumes "queue_ok q" "t - t mod 1000000000 \<le> mtime q (last (segs q))" "PurgeOlderThan (length (segs q) + 2) t q = Some (r, q')"
  shows "queue_ok q'" "\<exists>dr. pending q = dr @ pending q'"
proof -
  let ?old = "\<lambda>g. mtime q (fst g) < t - t mod 1000000000"
  obtain gs where rep: "queue_rep q gs" using assms(1) by (auto simp: queue_ok_def)
  have ne: "gs \<noteq> []" "segs q \<noteq> []" using queue_repD(4) [OF rep] segs_rep [OF rep] by auto
  then have rep': "queue_rep q' (dropWhile ?old gs)"
    using purge_prefix [OF rep, of "t - t mod 1000000000" "length (segs q) + 2"] assms(2,3) segs_rep [OF rep]
    by (auto simp: last_map PurgeOlderThan_def)
  show "queue_ok q'" using rep' by (auto simp: queue_ok_def)
  have "concat (map (\<lambda>g. snd (snd g)) (takeWhile ?old gs @ dropWhile ?old gs)) = pending q"
    by (simp only: takeWhile_dropWhile_id pending_rep [OF rep])
  then show "\<exists>dr. pending q = dr @ pending q'" by (metis concat_append map_append pending_rep [OF rep'])
qed

lemma clock_keeps:
  assumes "queue_rep q gs"
  shows "queue_rep (q\<lparr>q_disk := (q_disk q)\<lparr>clock := c\<rparr>\<rparr>) gs"
proof -
  have "file_at ((q_disk q)\<lparr>clock := c\<rparr>) = file_at (q_disk q)" by (simp add: file_at_def fun_eq_iff)
  then have "seg_ok (q\<lparr>q_disk := (q_disk q)\<lparr>clock := c\<rparr>\<rparr>) = seg_ok q" by (simp add: seg_ok_def seg_def seg_rep_def file_rep_def)
  then show ?thesis using assms by (simp add: queue_rep_def seg_def disk_ok_def)
qed

subsection \<open>A queue with one segment, for the witnesses\<close>

definition demo_queue :: "int \<Rightarrow> int \<Rightarrow> bytes list \<Rightarrow> bytes list \<Rightarrow> queue" where
  "demo_queue now maxSegment dn td =
     \<lparr>q_disk = \<lparr>files = [(''1'', \<lparr>f_isdir = False, f_data = seg_data dn td, f_mtime = 5\<rparr>)], clock = now\<rparr>,
      q_heap = [\<lparr>s_size = int (length (seg_data dn td)), s_file = Some 0, s_path = ''1'',
        s_pos = int (length (enc_recs dn)), s_currentSize = head_size td, s_maxSize = maxSegment\<rparr>],
      q_head = Some 0, q_tail = Some 0, q_maxSegmentSize = maxSegment, q_maxSize = 1000, q_segments = Some [0]\<rparr>"

lemma demo_queue_rep:
  assumes "int (length (seg_data dn td)) < 2 ^ 63" "\<forall>r\<in>set td. r \<noteq> [] \<and> int (length r) \<le> m"
  shows "queue_rep (demo_queue now m dn td) [(0, dn, td)]"
  using assms by (simp add: queue_rep_def demo_queue_def seg_ok_def seg_def seg_rep_def file_rep_def file_at_def disk_ok_def)

lemma demo_queue_sizes [simp]:
  "q_maxSegmentSize (demo_queue now m dn td) = m" "q_maxSize (demo_queue now m dn td) = 1000"
  "segs (demo_queue now m dn td) = [0]" "clock (q_disk (demo_queue now m dn td)) = now" "mtime (demo_queue now m dn td) 0 = 5"
  by (simp_all add: demo_queue_def segs_def mtime_def file_at_def seg_def)

lemma demo_queue_ids: "ids_left (q_disk (demo_queue now m dn td))"
  by (simp add: ids_left_def demo_queue_def segment_ids_def ReadDir_def List.map_filter_simps ParseUint_def is_digit_def)

lemma demo_queue_facts:
  assumes "int (length (seg_data dn td)) < 2 ^ 63" "\<forall>r\<in>set td. r \<noteq> [] \<and> int (length r) \<le> m"
  shows "queue_ok (demo_queue now m dn td)" "queue_live (demo_queue now m dn td)" "pending (demo_queue now m dn td) = td"
    "diskUsage (demo_queue now m dn td) = int (length (seg_data dn td))"
    "\<And>b. tail_ready (demo_queue now m dn td) b \<longleftrightarrow> int (length (seg_data dn td)) + int (length b) \<le> m \<or> td \<noteq> []"
proof -
  note rep = demo_queue_rep [OF assms, of now]
  show "queue_ok (demo_queue now m dn td)" using rep by (auto simp: queue_ok_def)
  show "queue_live (demo_queue now m dn td)" using queue_live_rep [OF rep] by simp
  show "pending (demo_queue now m dn td) = td" using pending_rep [OF rep] by simp
  show "diskUsage (demo_queue now m dn td) = int (length (seg_data dn td))" using diskUsage_rep [OF rep] by simp
  show "tail_ready (demo_queue now m dn td) b \<longleftrightarrow> int (length (seg_data dn td)) + int (length b) \<le> m \<or> td \<noteq> []" for b
    using tail_ready_rep [of _ "[]"] rep by (simp add: demo_queue_def)
qed

text \<open>A queue with two segments, the first of which is three seconds older than the second.\<close>

definition demo_queue2 :: queue where
  "demo_queue2 =
     \<lparr>q_disk = \<lparr>files = [(''1'', \<lparr>f_isdir = False, f_data = seg_data [] [[1]], f_mtime = 5\<rparr>),
        (''2'', \<lparr>f_isdir = False, f_data = seg_data [] [[2], [3]], f_mtime = 2900000000\<rparr>)], clock = 4000000000\<rparr>,
      q_heap = [\<lparr>s_size = int (length (seg_data [] [[1]])), s_file = Some 0, s_path = ''1'', s_pos = 0, s_currentSize = 1, s_maxSize = 100\<rparr>,
        \<lparr>s_size = int (length (seg_data [] [[2], [3]])), s_file = Some 0, s_path = ''2'', s_pos = 0, s_currentSize = 1, s_maxSize = 100\<rparr>],
      q_head = Some 0, q_tail = Some 1, q_maxSegmentSize = 100, q_maxSize = 1000, q_segments = Some [0, 1]\<rparr>"

lemma demo_queue2_rep: "queue_rep demo_queue2 [(0, [], [[1]]), (1, [], [[2], [3]])]"
  by (simp add: queue_rep_def demo_queue2_def seg_ok_def seg_def seg_rep_def file_rep_def file_at_def disk_ok_def head_size_def length_seg_data)

lemma demo_queue2_facts:
  "queue_ok demo_queue2" "segs demo_queue2 = [0, 1]" "clock (q_disk demo_queue2) = 4000000000" "ids_left (q_disk demo_queue2)"
  "diskUsage demo_queue2 = 43" "mtime demo_queue2 0 = 5" "mtime demo_queue2 1 = 2900000000" "mtime demo_queue2 (Suc 0) = 2900000000"
  "seg_pending (q_disk demo_queue2) (seg demo_queue2 (Suc 0)) = [[2], [3]]"
proof -
  show "queue_ok demo_queue2" using demo_queue2_rep by (auto simp: queue_ok_def)
  show "diskUsage demo_queue2 = 43" by (simp add: diskUsage_rep [OF demo_queue2_rep] length_seg_data)
  show "seg_pending (q_disk demo_queue2) (seg demo_queue2 (Suc 0)) = [[2], [3]]"
    using queue_repD(1) [OF demo_queue2_rep] by (auto dest!: seg_ok_pending)
  show "ids_left (q_disk demo_queue2)"
    by (simp add: ids_left_def demo_queue2_def segment_ids_def ReadDir_def less_char_def List.map_filter_simps ParseUint_def is_digit_def)
qed (simp_all add: demo_queue2_def segs_def mtime_def file_at_def seg_def)

subsection \<open>Lemmas: reopening\<close>

text \<open>\<open>name_ordered q\<close>: the directory holds the queue's segments and nothing else, and the file-name order
  is the order of the segments.\<close>

definition name_ordered :: "queue \<Rightarrow> bool" where
  "name_ordered q \<longleftrightarrow> map fst (ReadDir (q_disk q)) = map (\<lambda>a. s_path (seg q a)) (segs q) \<and>
     (\<forall>(n, f)\<in>set (files (q_disk q)). ParseUint n \<noteq> None)"

lemma name_ordered_dir_rep:
  assumes rep: "queue_rep q gs" and ord: "name_ordered q" and m: "q_maxSegmentSize q \<le> m"
  shows "dir_rep (q_disk q) m (map snd gs)"
proof -
  have names: "map fst (ReadDir (q_disk q)) = map (\<lambda>g. s_path (seg q (fst g))) gs"
    using ord segs_rep [OF rep] by (simp add: name_ordered_def comp_def)
  have len: "length (ReadDir (q_disk q)) = length gs" using arg_cong [OF names, of length] by simp
  have "(\<lambda>(n, f) (dn, td). file_rep (q_disk q) n dn td \<and> (\<forall>r\<in>set td. r \<noteq> [] \<and> int (length r) \<le> m))
    (ReadDir (q_disk q) ! i) (snd (gs ! i))" if i: "i < length gs" for i
  proof -
    have "fst (ReadDir (q_disk q) ! i) = s_path (seg q (fst (gs ! i)))"
      using arg_cong [OF names, of "\<lambda>l. l ! i"] i len by simp
    moreover have "seg_ok q (gs ! i)" using queue_repD(1) [OF rep] i by (simp add: list_all_length)
    moreover obtain n f a dn td where "ReadDir (q_disk q) ! i = (n, f)" "gs ! i = (a, dn, td)" by (metis prod_cases3 surj_pair)
    ultimately show ?thesis using m by (auto simp: seg_ok_def seg_rep_def)
  qed
  moreover have "(\<Sum>(dn, td)\<leftarrow>map snd gs. int (length (seg_data dn td))) = total_size gs"
    by (simp add: total_size_def comp_def case_prod_beta)
  ultimately show ?thesis
    using ord queue_repD(2,3) [OF rep] len by (simp add: dir_rep_def name_ordered_def list_all2_conv_all_nth)
qed

lemma queue_ok_maxSegment_order:
  assumes "queue_ok q" "name_ordered q" "q_maxSegmentSize q \<le> defaultSegmentSize"
  shows "\<exists>q'. Open (newQueue (q_disk q) m) = (Inr (), q') \<and> queue_ok q' \<and> pending q' = pending q"
proof -
  obtain gs where rep: "queue_rep q gs" using assms(1) by (auto simp: queue_ok_def)
  have "map snd gs \<noteq> []" using queue_repD(4) [OF rep] by simp
  from Open_rep [OF name_ordered_dir_rep [OF rep assms(2,3)] this, of m] show ?thesis
    by (simp add: pending_rep [OF rep] comp_def)
qed

subsection \<open>Properties\<close>

text \<open>C9: an \<^verbatim>\<open>Append\<close> of a record that fits succeeds, keeps the invariant of the queue and puts the
  record behind everything that is pending, whether it goes to the last segment or to a new one;
  the queue stays deliverable when the last segment has room or still has records to deliver.\<close>

theorem Append_enqueues:
  assumes "queue_ok q" "can_take q b"
  shows "\<exists>q'. Append b q = (Inr (), q') \<and> queue_ok q' \<and> pending q' = pending q @ [b] \<and>
    (queue_live q \<longrightarrow> tail_ready q b \<longrightarrow> queue_live q')"
  using assms by (rule Append_pending)

theorem Append_enqueues_witness:
  "\<exists>q'. Append [2] (demo_queue 9 100 [[7]] [[1]]) = (Inr (), q') \<and> queue_ok q' \<and> pending q' = [[1], [2]]"
  using Append_enqueues [of "demo_queue 9 100 [[7]] [[1]]" "[2]"] demo_queue_facts [of "[[7]]" "[[1]]" 100 9] demo_queue_ids [of 9 100 "[[7]]" "[[1]]"]
  by (auto simp: can_take_def length_seg_data)



text \<open>An \<^verbatim>\<open>Append\<close> that would take the queue over its maximum size is refused with
  \<^verbatim>\<open>ErrQueueFull\<close> and changes nothing.\<close>

theorem Append_rejects_full:
  assumes "queue_ok q" "diskUsage q + int (length b) > q_maxSize q" "diskUsage q + int (length b) < 2 ^ 63"
  shows "Append b q = (Inl ErrQueueFull, q)"
  using assms by (rule Append_full)

theorem Append_rejects_full_witness:
  "Append (replicate 1000 1) (demo_queue 9 100 [] []) = (Inl ErrQueueFull, demo_queue 9 100 [] [])"
  by (rule Append_rejects_full)
    (use demo_queue_facts [of "[]" "[]" 100 9] in \<open>simp_all add: length_seg_data\<close>)

text \<open>When the only segment has been consumed completely and the next record does not fit in it,
  \<^verbatim>\<open>Append\<close> rolls over to a second segment but leaves the consumed one as head: the record is
  pending, yet \<^verbatim>\<open>Current\<close> reports EOF, and it does so again on the state it leaves.\<close>

theorem roll_hides_record:
  assumes "queue_ok q" "length (segs q) = 1" "pending q = []" "can_take q b" "\<not> tail_ready q b"
  shows "\<exists>q'. Append b q = (Inr (), q') \<and> queue_ok q' \<and> pending q' = [b] \<and>
    fst (Current q') = Inl EOF \<and> fst (Current (snd (Current q'))) = Inl EOF"
proof -
  obtain a dn td where rep: "queue_rep q ([] @ [(a, dn, td)])"
    using assms(1,2) unfolding queue_ok_def
    by (metis append_Nil length_0_conv length_Suc_conv length_map One_nat_def prod_cases3 segs_rep)
  have td: "td = []" using pending_rep [OF rep] assms(3) by simp
  have "b \<noteq> []" "8 + int (length b) \<le> q_maxSegmentSize q" "ids_left (q_disk q)"
    "diskUsage q + int (length b) \<le> q_maxSize q" "q_maxSize q + 16 < 2 ^ 63"
    using assms(4) by (auto simp: can_take_def)
  from append_rep [OF rep this] obtain q' where q': "Append b q = (Inr (), q')"
    "queue_rep q' [(a, dn, []), (length (q_heap q), [], [b])]"
    using assms(5) tail_ready_rep [OF rep] td by auto
  obtain q1 where q1: "Current q' = (Inl EOF, q1)" "queue_rep q1 [(a, dn, []), (length (q_heap q), [], [b])]"
    using current_rep [OF q'(2)] by auto
  have "fst (Current q1) = Inl EOF" using current_rep [OF q1(2)] by auto
  then show ?thesis using q' q1 pending_rep [OF q'(2)] by (auto simp: queue_ok_def)
qed

theorem roll_hides_record_witness:
  "\<exists>q'. Append [2] (demo_queue 9 9 [[1]] []) = (Inr (), q') \<and> pending q' = [[2]] \<and> fst (Current q') = Inl EOF"
  using roll_hides_record [of "demo_queue 9 9 [[1]] []" "[2]"] demo_queue_facts [of "[[1]]" "[]" 9 9] demo_queue_ids [of 9 9 "[[1]]" "[]"]
  by (auto simp: can_take_def length_seg_data)

text \<open>C26: closing and reopening a queue, or restarting after a crash, keeps the pending records and their
  order, provided the names of the segment files sort in the order of the segments.\<close>

theorem reopen_keeps_pending:
  assumes "queue_ok q" "name_ordered q" "q_maxSegmentSize q \<le> defaultSegmentSize"
  shows "\<exists>q'. Open (newQueue (q_disk q) m) = (Inr (), q') \<and> queue_ok q' \<and> pending q' = pending q"
  using assms by (rule queue_ok_maxSegment_order)

theorem reopen_keeps_pending_witness:
  "\<exists>q'. Open (newQueue (q_disk (demo_queue 9 100 [[7]] [[1], [2]])) 1000) = (Inr (), q') \<and> queue_ok q' \<and> pending q' = [[1], [2]]"
proof -
  have "name_ordered (demo_queue 9 100 [[7]] [[1], [2]])"
    by (simp add: name_ordered_def demo_queue_def ReadDir_def segs_def seg_def ParseUint_def is_digit_def)
  then show ?thesis
    using reopen_keeps_pending [of "demo_queue 9 100 [[7]] [[1], [2]]" 1000] demo_queue_facts [of "[[7]]" "[[1], [2]]" 100 9]
    by (simp add: length_seg_data defaultSegmentSize_def)
qed

text \<open>The file names are decimal numbers without padding and are compared as strings, so a queue with
  segments 9 and 10 is read back with segment 10 first: the restart reverses the records.\<close>

theorem reopen_reorders_segments:
  fixes r1 r2 :: bytes
  assumes "r1 \<noteq> []" "r2 \<noteq> []" "length r1 \<le> 1000" "length r2 \<le> 1000"
    and "d = \<lparr>files = [(FormatUint 9, \<lparr>f_isdir = False, f_data = seg_data [] [r1], f_mtime = t\<rparr>),
                       (FormatUint 10, \<lparr>f_isdir = False, f_data = seg_data [] [r2], f_mtime = t\<rparr>)], clock = t\<rparr>"
  shows "\<exists>q. Open (newQueue d m) = (Inr (), q) \<and> queue_ok q \<and> pending q = [r2, r1]"
proof -
  have names: "FormatUint 9 = ''9''" "FormatUint 10 = ''10''"
    by (simp_all add: FormatUint.simps [of 9] FormatUint.simps [of 10] FormatUint.simps [of "Suc 0"] digit_char_def char_of_def bit_0)
  define f where "f r = \<lparr>f_isdir = False, f_data = seg_data [] [r], f_mtime = t\<rparr>" for r
  have f: "\<not> f_isdir (f r)" "f_data (f r) = seg_data [] [r]" for r by (simp_all add: f_def)
  have d: "files d = [(''9'', f r1), (''10'', f r2)]" using assms(5) by (simp add: names f_def)
  have dir: "ReadDir d = [(''10'', f r2), (''9'', f r1)]"
    unfolding ReadDir_def d by (simp add: less_char_def)
  have "disk_ok d" by (simp add: disk_ok_def d f)
  moreover have "ParseUint ''9'' = Some 9" "ParseUint ''10'' = Some 10" by (simp_all add: ParseUint_def is_digit_def)
  moreover have "file_rep d ''9'' [] [r1]" "file_rep d ''10'' [] [r2]"
    using assms(3,4) by (simp_all add: file_rep_def file_at_def d f length_seg_data)
  ultimately have "dir_rep d defaultSegmentSize [([], [r2]), ([], [r1])]"
    using assms(1-4) unfolding dir_rep_def dir d by (simp add: length_seg_data defaultSegmentSize_def)
  from Open_rep [OF this, of m] show ?thesis by (simp only: list.distinct list.map concat.simps append.simps snd_conv not_False_eq_True simp_thms)
qed

theorem reopen_reorders_segments_witness:
  "\<exists>q. Open (newQueue \<lparr>files = [(FormatUint 9, \<lparr>f_isdir = False, f_data = seg_data [] [[1]], f_mtime = 0\<rparr>),
      (FormatUint 10, \<lparr>f_isdir = False, f_data = seg_data [] [[2]], f_mtime = 0\<rparr>)], clock = 0\<rparr> 1000) = (Inr (), q) \<and>
    queue_ok q \<and> pending q = [[2], [1]]"
  by (rule reopen_reorders_segments [OF _ _ _ _ refl]) simp_all

text \<open>C27: a purge whose limit is not in the future removes exactly the records in the segments before the first one that is
  young enough, and keeps all other pending records in order. When the last segment is young enough exactly those
  segments are removed and the invariant is kept; when all are too old nothing stays pending.\<close>

theorem PurgeOlderThan_drops_old_prefix:
  assumes "queue_ok q" "t \<le> clock (q_disk q)" "ids_left (q_disk q)" "diskUsage q + 8 < 2 ^ 63"
  shows "\<exists>q'. PurgeOlderThan (length (segs q) + 2) t q = Some (Inr (), q') \<and>
    pending q' = concat (map (\<lambda>a. seg_pending (q_disk q) (seg q a)) (dropWhile (\<lambda>a. mtime q a < t - t mod 1000000000) (segs q))) \<and>
    (t - t mod 1000000000 \<le> mtime q (last (segs q)) \<longrightarrow>
      queue_ok q' \<and> segs q' = dropWhile (\<lambda>a. mtime q a < t - t mod 1000000000) (segs q))"
proof -
  let ?c = "t - t mod 1000000000"
  obtain gs where rep: "queue_rep q gs" using assms(1) by (auto simp: queue_ok_def)
  let ?young = "dropWhile (\<lambda>g. mtime q (fst g) < ?c) gs"
  have ne: "gs \<noteq> []" "segs q \<noteq> []" using queue_repD(4) [OF rep] segs_rep [OF rep] by auto
  have "?c \<le> clock (q_disk q)" using assms(2) by (smt (verit) pos_mod_sign)
  then obtain q' where q': "purge_loop (length (segs q) + 2) ?c q = Some (Inr (), q')" "pending q' = concat (map (\<lambda>g. snd (snd g)) ?young)"
    using purge_returns [OF rep _ assms(3), where k = 1 and cutoff = ?c] assms(4) diskUsage_rep [OF rep] segs_rep [OF rep] by auto
  have "set ?young \<subseteq> set gs" by (auto dest: set_dropWhileD)
  then have "list_all (seg_ok q) ?young" using queue_repD(1) [OF rep] by (auto simp: list_all_iff)
  moreover have drop: "dropWhile (\<lambda>a. mtime q a < ?c) (segs q) = map fst ?young"
    by (simp add: segs_rep [OF rep] dropWhile_map comp_def)
  ultimately have "pending q' = concat (map (\<lambda>a. seg_pending (q_disk q) (seg q a)) (dropWhile (\<lambda>a. mtime q a < ?c) (segs q)))"
    by (simp only: q'(2) map_seg_pending)
  moreover have "queue_ok q' \<and> segs q' = dropWhile (\<lambda>a. mtime q a < ?c) (segs q)" if "?c \<le> mtime q (last (segs q))"
  proof -
    have "queue_rep q' ?young"
      using purge_prefix [OF rep, of ?c "length (segs q) + 2"] that q'(1) segs_rep [OF rep] ne by (auto simp: last_map)
    then show ?thesis using drop segs_rep by (auto simp: queue_ok_def)
  qed
  ultimately show ?thesis using q'(1) ne by (auto simp: PurgeOlderThan_def)
qed

theorem PurgeOlderThan_drops_old_prefix_witness:
  "(\<exists>q'. PurgeOlderThan (2 + 2) 2500000000 demo_queue2 = Some (Inr (), q') \<and> queue_ok q' \<and> segs q' = [1] \<and> pending q' = [[2], [3]]) \<and>
   (\<exists>q'. PurgeOlderThan (2 + 2) 3500000000 demo_queue2 = Some (Inr (), q') \<and> pending q' = [])"
proof -
  have two: "length (segs demo_queue2) = 2" by (simp add: demo_queue2_facts)
  have "\<exists>q'. PurgeOlderThan (2 + 2) 2500000000 demo_queue2 = Some (Inr (), q') \<and> queue_ok q' \<and> segs q' = [1] \<and> pending q' = [[2], [3]]"
    using PurgeOlderThan_drops_old_prefix [of demo_queue2 2500000000] unfolding two by (auto simp: demo_queue2_facts)
  moreover have "\<exists>q'. PurgeOlderThan (2 + 2) 3500000000 demo_queue2 = Some (Inr (), q') \<and> pending q' = []"
    using PurgeOlderThan_drops_old_prefix [of demo_queue2 3500000000] unfolding two by (auto simp: demo_queue2_facts)
  ultimately show ?thesis by blast
qed



text \<open>C29: a purge of a queue whose only segment is too old leaves the closed old segment as the tail; from then
  on \<^verbatim>\<open>Append\<close> reports success for every record that is not over the size limit and stores none.\<close>

theorem purge_then_append_loses:
  assumes "queue_ok q" "length (segs q) = 1" "mtime q (hd (segs q)) < t - t mod 1000000000" "t \<le> clock (q_disk q)"
    and "ids_left (q_disk q)" "diskUsage q + 8 < 2 ^ 63"
  shows "\<exists>q'. PurgeOlderThan 2 t q = Some (Inr (), q') \<and> pending q' = [] \<and>
    (\<forall>b. i64 (diskUsage q' + int (length b)) \<le> q_maxSize q' \<longrightarrow> Append b q' = (Inr (), q'))"
proof -
  obtain a dn td where rep: "queue_rep q [(a, dn, td)]"
    using assms(1,2) unfolding queue_ok_def
    by (metis length_0_conv length_Suc_conv length_map One_nat_def prod_cases3 segs_rep)
  have c: "t - t mod 1000000000 \<le> clock (q_disk q)" using assms(4) by (smt (verit) pos_mod_sign)
  obtain q' n where q': "purge_loop 2 (t - t mod 1000000000) q = Some (Inr (), q')" "q_tail q' = Some a"
    "s_file (seg q' a) = None" "queue_rep (q'\<lparr>q_tail := Some n\<rparr>) [(n, [], [])]"
    using purge_single [OF rep _ c assms(5,6), of 0] assms(3) segs_rep [OF rep] by (auto simp: numeral_2_eq_2)
  have "pending q' = []" using pending_rep [OF q'(4)] by (simp add: pending_def segs_def seg_def)
  moreover have "on_seg a (append_segment b) q' = (Inl ErrNotOpen, q')" for b
    using q'(3) by (simp add: on_seg_def append_segment_def seg_def)
  then have "Append b q' = (Inr (), q')" if "i64 (diskUsage q' + int (length b)) \<le> q_maxSize q'" for b
    using q'(2) that by (simp add: Append_def)
  ultimately show ?thesis using q'(1) segs_rep [OF rep] by (auto simp: PurgeOlderThan_def)
qed

theorem purge_then_append_loses_witness:
  "\<exists>q'. PurgeOlderThan 2 3000000000 (demo_queue 4000000000 100 [] [[1]]) = Some (Inr (), q') \<and> pending q' = []"
  using purge_then_append_loses [of "demo_queue 4000000000 100 [] [[1]]" 3000000000] demo_queue_facts [of "[]" "[[1]]" 100 4000000000]
    demo_queue_ids [of 4000000000 100 "[]" "[[1]]"]
  by (auto simp: length_seg_data)

end
