(* ===== verification/Hh_Processor.thy ===== *)
theory Hh_Processor
  imports Hh_Queue_Props
begin

text \<open>
  The sender of hinted-handoff data, \<^verbatim>\<open>services/hh/node_processor.go\<close>, and the service that owns one
  sender per node, \<^verbatim>\<open>services/hh/service.go\<close>.

  The node registry (\<^verbatim>\<open>metaClient.DataNode\<close>), the connection to the node (\<^verbatim>\<open>shardWriter.WriteShard\<close>) and the
  point parser (\<^verbatim>\<open>models.ParsePoints\<close>, \<^verbatim>\<open>Point.String\<close>) are interfaces or library code: they are arguments
  of the operations and act on an arbitrary world \<open>'w\<close>. The clock of a queue's directory is the time
  of the operations on it. Times and intervals are in nanoseconds.
\<close>

subsection \<open>Configuration defaults (services/hh/config.go)\<close>

definition DefaultMaxSize :: int where "DefaultMaxSize = 1024 * 1024 * 1024"
definition DefaultMaxAge :: int where "DefaultMaxAge = 7 * 24 * 3600 * 1000000000"
definition DefaultRetryInterval :: int where "DefaultRetryInterval = 1000000000"
definition DefaultRetryMaxInterval :: int where "DefaultRetryMaxInterval = 60 * 1000000000"

record config =
  c_Enabled :: bool
  c_Dir :: string
  c_MaxAge :: int

definition Validate :: "config \<Rightarrow> bool" where
  "Validate c \<longleftrightarrow> \<not> (c_Enabled c \<and> c_Dir c = [])"

subsection \<open>The node processor\<close>

datatype np_error =
    HhErr hh_error | NodeProcessorClosed | NodeProcessorOpen | MetaErr string
  | TooShort nat | ParseErr string | WriteErr string | HintedHandoffDisabled | NilQueue

record processor =
  np_nodeID :: u64
  np_open :: bool
  np_queue :: "queue option"
  np_dir :: hh_disk
  np_MaxSize :: int
  np_MaxAge :: int
  np_RetryInterval :: int
  np_RetryMaxInterval :: int

text \<open>The directory of a processor: once there is a queue, the queue's disk.\<close>

definition np_disk :: "processor \<Rightarrow> hh_disk" where
  "np_disk n = (case np_queue n of None \<Rightarrow> np_dir n | Some q \<Rightarrow> q_disk q)"

definition NewNodeProcessor :: "u64 \<Rightarrow> hh_disk \<Rightarrow> processor" where
  "NewNodeProcessor i d = \<lparr>np_nodeID = i, np_open = False, np_queue = None, np_dir = d,
     np_MaxSize = DefaultMaxSize, np_MaxAge = DefaultMaxAge,
     np_RetryInterval = DefaultRetryInterval, np_RetryMaxInterval = DefaultRetryMaxInterval\<rparr>"

text \<open>\<^verbatim>\<open>n.done\<close> is set before the queue is opened, and stays set when that fails.\<close>

definition np_Open :: "processor \<Rightarrow> (np_error + unit) \<times> processor" where
  "np_Open n =
     (if np_open n then (Inr (), n)
      else let n1 = n\<lparr>np_open := True\<rparr> in
           case Open (newQueue (np_disk n) (np_MaxSize n)) of
             (Inl e, q) \<Rightarrow> (Inl (HhErr e), n1\<lparr>np_dir := q_disk q, np_queue := map_option (\<lambda>p. p\<lparr>q_disk := q_disk q\<rparr>) (np_queue n)\<rparr>)
           | (Inr _, q) \<Rightarrow> (Inr (), n1\<lparr>np_queue := Some q\<rparr>))"

definition np_Close :: "processor \<Rightarrow> (np_error + unit) \<times> processor" where
  "np_Close n =
     (if \<not> np_open n then (Inr (), n)
      else let n1 = n\<lparr>np_open := False\<rparr> in
           case np_queue n of
             None \<Rightarrow> (Inl NilQueue, n1)
           | Some q \<Rightarrow> (case Close q of
               (Inl e, q') \<Rightarrow> (Inl (HhErr e), n1\<lparr>np_queue := Some q'\<rparr>)
             | (Inr _, q') \<Rightarrow> (Inr (), n1\<lparr>np_queue := Some q'\<rparr>)))"

definition np_Purge :: "processor \<Rightarrow> (np_error + unit) \<times> processor" where
  "np_Purge n =
     (if np_open n then (Inl NodeProcessorOpen, n)
      else (Inr (), n\<lparr>np_dir := (np_dir n)\<lparr>files := []\<rparr>,
                      np_queue := map_option (\<lambda>q. q\<lparr>q_disk := (q_disk q)\<lparr>files := []\<rparr>\<rparr>) (np_queue n)\<rparr>))"

definition marshalWrite :: "('p \<Rightarrow> bytes) \<Rightarrow> u64 \<Rightarrow> 'p list \<Rightarrow> bytes" where
  "marshalWrite str shardID points = foldl (\<lambda>b p. (b @ str p) @ [10]) (PutUint64 shardID) points"

definition unmarshalWrite :: "(bytes \<Rightarrow> string + 'p list) \<Rightarrow> bytes \<Rightarrow> np_error + (u64 \<times> 'p list)" where
  "unmarshalWrite parse b =
     (if length b < 8 then Inl (TooShort (length b))
      else case parse (drop 8 b) of
             Inl e \<Rightarrow> Inl (ParseErr e)
           | Inr points \<Rightarrow> Inr (Uint64 (take 8 b), points))"

definition np_WriteShard :: "('p \<Rightarrow> bytes) \<Rightarrow> u64 \<Rightarrow> 'p list \<Rightarrow> processor \<Rightarrow> (np_error + unit) \<times> processor" where
  "np_WriteShard str shardID points n =
     (if \<not> np_open n then (Inl NodeProcessorClosed, n)
      else case np_queue n of
             None \<Rightarrow> (Inl NilQueue, n)
           | Some q \<Rightarrow> (case Append (marshalWrite str shardID points) q of
               (Inl e, q') \<Rightarrow> (Inl (HhErr e), n\<lparr>np_queue := Some q'\<rparr>)
             | (Inr _, q') \<Rightarrow> (Inr (), n\<lparr>np_queue := Some q'\<rparr>)))"

definition np_LastModified :: "processor \<Rightarrow> (np_error + int) \<times> processor" where
  "np_LastModified n = (case np_queue n of
       None \<Rightarrow> (Inl NilQueue, n)
     | Some q \<Rightarrow> (case LastModified q of
         (Inl e, q') \<Rightarrow> (Inl (HhErr e), n\<lparr>np_queue := Some q'\<rparr>)
       | (Inr t, q') \<Rightarrow> (Inr t, n\<lparr>np_queue := Some q'\<rparr>)))"

definition Active :: "(u64 \<Rightarrow> 'w \<Rightarrow> string + 'ni option) \<Rightarrow> processor \<Rightarrow> 'w \<Rightarrow> np_error + bool" where
  "Active DataNode n w = (case DataNode (np_nodeID n) w of
       Inl e \<Rightarrow> Inl (MetaErr e)
     | Inr nio \<Rightarrow> Inr (nio \<noteq> None))"

definition SendWrite ::
  "(u64 \<Rightarrow> 'w \<Rightarrow> string + 'ni option) \<Rightarrow> (bytes \<Rightarrow> string + 'p list) \<Rightarrow>
   (u64 \<Rightarrow> u64 \<Rightarrow> 'p list \<Rightarrow> 'w \<Rightarrow> string option \<times> 'w) \<Rightarrow>
   processor \<times> 'w \<Rightarrow> (np_error + nat) \<times> (processor \<times> 'w)" where
  "SendWrite DataNode parse wr = (\<lambda>(n, w).
     case Active DataNode n w of
       Inl e \<Rightarrow> (Inl e, (n, w))
     | Inr active \<Rightarrow>
        if \<not> active then (Inl (HhErr EOF), (n, w))
        else case np_queue n of
          None \<Rightarrow> (Inl NilQueue, (n, w))
        | Some q \<Rightarrow> (case Current q of
            (Inl e, q1) \<Rightarrow> (Inl (HhErr e), (n\<lparr>np_queue := Some q1\<rparr>, w))
          | (Inr buf, q1) \<Rightarrow> (case unmarshalWrite parse buf of
              Inl e \<Rightarrow> (case Advance q1 of (_, q2) \<Rightarrow> (Inl e, (n\<lparr>np_queue := Some q2\<rparr>, w)))
            | Inr (shardID, points) \<Rightarrow> (case wr shardID (np_nodeID n) points w of
                (Some e, w1) \<Rightarrow> (Inl (WriteErr e), (n\<lparr>np_queue := Some q1\<rparr>, w1))
              | (None, w1) \<Rightarrow> (case Advance q1 of (_, q2) \<Rightarrow>
                  (Inr (length buf), (n\<lparr>np_queue := Some q2\<rparr>, w1)))))))"

subsection \<open>The loop of the node processor\<close>

text \<open>
  \<^verbatim>\<open>run\<close> holds the retry interval. Its inner loop sends until an error, \<open>None\<close> when the fuel is used
  up; the pauses between two sends do not change the state. \<^verbatim>\<open>currInterval * 2\<close> is an int64 product.
\<close>

definition run_start :: "processor \<Rightarrow> int" where
  "run_start n = (if np_RetryInterval n > np_RetryMaxInterval n then np_RetryMaxInterval n else np_RetryInterval n)"

definition backoff :: "processor \<Rightarrow> np_error \<Rightarrow> int \<Rightarrow> int" where
  "backoff n e cur =
     (if e = HhErr EOF then np_RetryInterval n
      else let c = i64 (cur * 2) in if c > np_RetryMaxInterval n then np_RetryMaxInterval n else c)"

fun send_loop ::
  "(processor \<times> 'w \<Rightarrow> (np_error + nat) \<times> (processor \<times> 'w)) \<Rightarrow> nat \<Rightarrow> int \<Rightarrow> processor \<times> 'w \<Rightarrow>
   (int \<times> np_error \<times> processor \<times> 'w) option" where
  "send_loop send 0 cur st = None"
| "send_loop send (Suc k) cur st = (case send st of
     (Inl e, st') \<Rightarrow> Some (backoff (fst st') e cur, e, st')
   | (Inr c, st') \<Rightarrow> send_loop send k (np_RetryInterval (fst st')) st')"

datatype run_event = PurgeTick | RetryTick nat

definition run_step ::
  "(processor \<times> 'w \<Rightarrow> (np_error + nat) \<times> (processor \<times> 'w)) \<Rightarrow> run_event \<Rightarrow> int \<times> processor \<times> 'w \<Rightarrow>
   (int \<times> processor \<times> 'w) option" where
  "run_step send ev = (\<lambda>(cur, n, w). case ev of
     PurgeTick \<Rightarrow> (case np_queue n of
         None \<Rightarrow> None
       | Some q \<Rightarrow> (case PurgeOlderThan (length (segs q) + 2) (clock (q_disk q) - np_MaxAge n) q of
           None \<Rightarrow> None
         | Some (_, q') \<Rightarrow> Some (cur, n\<lparr>np_queue := Some q'\<rparr>, w)))
   | RetryTick fuel \<Rightarrow> (case send_loop send fuel cur (n, w) of
         None \<Rightarrow> None
       | Some (cur', _, st) \<Rightarrow> Some (cur', st)))"

subsection \<open>The service (services/hh/service.go)\<close>

text \<open>
  \<open>sv_dirs\<close> are the directories under the service's root that no processor has open. A Go map is
  iterated in an arbitrary order: the order is an argument.
\<close>

record service =
  sv_cfg :: config
  sv_closing :: bool
  sv_processors :: "u64 \<rightharpoonup> processor"
  sv_dirs :: "(string \<times> hh_disk) list"
  sv_clock :: int

definition pathforNode :: "u64 \<Rightarrow> string" where
  "pathforNode nodeID = FormatUint (unat nodeID)"

definition dir_of :: "service \<Rightarrow> u64 \<Rightarrow> hh_disk" where
  "dir_of s nodeID = (case map_of (sv_dirs s) (pathforNode nodeID) of
     None \<Rightarrow> \<lparr>files = [], clock = sv_clock s\<rparr> | Some d \<Rightarrow> d)"

definition set_dir :: "u64 \<Rightarrow> hh_disk \<Rightarrow> service \<Rightarrow> service" where
  "set_dir nodeID d s = s\<lparr>sv_dirs := AList.update (pathforNode nodeID) d (sv_dirs s)\<rparr>"

definition set_processor :: "u64 \<Rightarrow> processor \<Rightarrow> service \<Rightarrow> service" where
  "set_processor i n s = s\<lparr>sv_processors := (sv_processors s)(i \<mapsto> n)\<rparr>"

definition start_processor :: "u64 \<Rightarrow> (service, np_error, processor) meth" where
  "start_processor i s = (case np_Open (NewNodeProcessor i (dir_of s i)) of
     (Inl e, n) \<Rightarrow> (Inl e, set_dir i (np_disk n) s)
   | (Inr _, n) \<Rightarrow> (Inr n, set_processor i n s))"

fun open_processors :: "string list \<Rightarrow> (service, np_error, unit) meth" where
  "open_processors [] s = (Inr (), s)"
| "open_processors (f # fs) s = (case ParseUint f of
     None \<Rightarrow> open_processors fs s
   | Some i \<Rightarrow> bindE (start_processor (of_nat i)) (\<lambda>_. open_processors fs) s)"

definition service_Open :: "(service, np_error, unit) meth" where
  "service_Open s =
     (if \<not> c_Enabled (sv_cfg s) then (Inr (), s)
      else open_processors (sort (map fst (sv_dirs s))) (s\<lparr>sv_closing := False\<rparr>))"

fun close_processors :: "u64 list \<Rightarrow> (service, np_error, unit) meth" where
  "close_processors [] s = (Inr (), s)"
| "close_processors (i # is) s = (case sv_processors s i of
     None \<Rightarrow> close_processors is s
   | Some n \<Rightarrow> (case np_Close n of
       (Inl e, n') \<Rightarrow> (Inl e, set_processor i n' s)
     | (Inr _, n') \<Rightarrow> close_processors is (set_processor i n' s)))"

definition service_Close :: "u64 list \<Rightarrow> (service, np_error, unit) meth" where
  "service_Close order = bindE (close_processors order) (\<lambda>_ s. (Inr (), s\<lparr>sv_closing := True\<rparr>))"

definition service_WriteShard :: "('p \<Rightarrow> bytes) \<Rightarrow> u64 \<Rightarrow> u64 \<Rightarrow> 'p list \<Rightarrow> (service, np_error, unit) meth" where
  "service_WriteShard str shardID ownerID points s =
     (if \<not> c_Enabled (sv_cfg s) then (Inl HintedHandoffDisabled, s)
      else bindE (\<lambda>s. case sv_processors s ownerID of
                     Some n \<Rightarrow> (Inr n, s)
                   | None \<Rightarrow> start_processor ownerID s)
             (\<lambda>n s. case np_WriteShard str shardID points n of
                (r, n') \<Rightarrow> (r, set_processor ownerID n' s)) s)"

text \<open>
  One round of \<^verbatim>\<open>purgeInactiveProcessors\<close> for one processor. \<open>Kept\<close> is the \<^verbatim>\<open>continue\<close> of the loop; a
  nil dereference in \<^verbatim>\<open>LastModified\<close> is a crash.
\<close>

datatype purge_result = Crash | Kept processor | Deleted hh_disk

definition purge_processor :: "(u64 \<Rightarrow> 'w \<Rightarrow> string + 'ni option) \<Rightarrow> 'w \<Rightarrow> int \<Rightarrow> int \<Rightarrow> processor \<Rightarrow> purge_result" where
  "purge_processor DataNode w now maxAge v =
     (case np_LastModified v of
        (Inl e, v1) \<Rightarrow> if e \<in> {NilQueue, HhErr ErrPanic} then Crash else Kept v1
      | (Inr lm, v1) \<Rightarrow> (case Active DataNode v1 w of
          Inl _ \<Rightarrow> Kept v1
        | Inr active \<Rightarrow>
            if active then Kept v1
            else if \<not> lm < now - maxAge then Kept v1
            else (case np_Close v1 of
                (Inl _, v2) \<Rightarrow> Kept v2
              | (Inr _, v2) \<Rightarrow> (case np_Purge v2 of
                  (Inl _, v3) \<Rightarrow> Kept v3
                | (Inr _, v3) \<Rightarrow> Deleted (np_disk v3)))))"

fun purgeInactiveProcessors ::
  "(u64 \<Rightarrow> 'w \<Rightarrow> string + 'ni option) \<Rightarrow> 'w \<Rightarrow> int \<Rightarrow> u64 list \<Rightarrow> service \<Rightarrow> service option" where
  "purgeInactiveProcessors DataNode w now [] s = Some s"
| "purgeInactiveProcessors DataNode w now (k # ks) s = (case sv_processors s k of
     None \<Rightarrow> purgeInactiveProcessors DataNode w now ks s
   | Some v \<Rightarrow> (case purge_processor DataNode w now (c_MaxAge (sv_cfg s)) v of
       Crash \<Rightarrow> None
     | Kept v' \<Rightarrow> purgeInactiveProcessors DataNode w now ks (set_processor k v' s)
     | Deleted d \<Rightarrow> purgeInactiveProcessors DataNode w now ks
         (set_dir k d (s\<lparr>sv_processors := (sv_processors s)(k := None)\<rparr>))))"

subsection \<open>Lemmas: sending\<close>

definition deliver ::
  "(bytes \<Rightarrow> string + 'p list) \<Rightarrow> (u64 \<Rightarrow> u64 \<Rightarrow> 'p list \<Rightarrow> 'w \<Rightarrow> string option \<times> 'w) \<Rightarrow> u64 \<Rightarrow>
   bytes \<Rightarrow> 'w \<Rightarrow> np_error outcome \<times> 'w" where
  "deliver parse wr nodeID buf w = (case unmarshalWrite parse buf of
     Inl e \<Rightarrow> (Skip e, w)
   | Inr (shardID, points) \<Rightarrow> (case wr shardID nodeID points w of
       (Some e, w1) \<Rightarrow> (Retry (WriteErr e), w1)
     | (None, w1) \<Rightarrow> (Sent (length buf), w1)))"

abbreviation queue_send where
  "queue_send DataNode parse wr n \<equiv>
     send_with Current Advance HhErr (HhErr EOF) (Active DataNode n) (deliver parse wr (np_nodeID n))"

lemma SendWrite_send_with:
  assumes "np_queue n = Some q"
  shows "SendWrite D parse wr (n, w) = (case queue_send D parse wr n (q, w) of
    (r, (q', w')) \<Rightarrow> (r, (n\<lparr>np_queue := Some q'\<rparr>, w')))"
proof -
  have n: "n\<lparr>np_queue := Some q\<rparr> = n" using assms by simp
  show ?thesis
    using assms n by (simp add: SendWrite_def send_with_def deliver_def split: sum.split bool.split prod.split option.split)
qed

lemma Active_queue [simp]: "Active D (n\<lparr>np_queue := x\<rparr>) = Active D n"
  by (rule ext) (simp add: Active_def)

lemma send_loop_drain:
  assumes "np_queue n = Some q" "drain_with (queue_send D parse wr n) k (q, w) = Some (e, q', w')"
  shows "\<exists>c. send_loop (SendWrite D parse wr) k cur (n, w) = Some (c, e, n\<lparr>np_queue := Some q'\<rparr>, w')"
  using assms
proof (induction k arbitrary: n q w cur)
  case 0
  then show ?case by simp
next
  case (Suc k)
  obtain r q1 w1 where s: "queue_send D parse wr n (q, w) = (r, (q1, w1))" by (metis prod_cases3)
  then have sw: "SendWrite D parse wr (n, w) = (r, (n\<lparr>np_queue := Some q1\<rparr>, w1))"
    by (simp add: SendWrite_send_with [OF Suc.prems(1)])
  show ?case
  proof (cases r)
    case (Inl x)
    then show ?thesis using Suc.prems(2) s sw by simp
  next
    case (Inr c)
    then show ?thesis
      using Suc.IH [of "n\<lparr>np_queue := Some q1\<rparr>" q1 w1 "np_RetryInterval n"] Suc.prems(2) s sw by simp
  qed
qed

subsection \<open>The history of a processor\<close>

text \<open>
  \<^verbatim>\<open>WriteShard\<close> and \<^verbatim>\<open>SendWrite\<close> both hold only a read lock of the processor, so writes to the queue come between the steps
  of a send; each operation of the queue is one step, since \<^verbatim>\<open>Append\<close> and \<^verbatim>\<open>Advance\<close> lock the queue and
  \<^verbatim>\<open>Current\<close> locks the segment it reads. Only the goroutine of \<^verbatim>\<open>run\<close> sends and purges, so there is one send at a time,
  which is idle, holds a record it has read, or holds one that the node has answered for.

  The history has the records accepted, the records that have left the queue with their fate, and the records
  that the node has confirmed.
\<close>

datatype send_phase = Idle | Holding bytes | Answered bytes

datatype fate = Delivered | Undecodable | Purged

record 'w handoff =
  h_np :: processor
  h_world :: 'w
  h_phase :: send_phase
  h_acc :: "bytes list"
  h_out :: "(fate \<times> bytes) list"
  h_sent :: "bytes list"

definition set_queue :: "queue \<Rightarrow> 'w handoff \<Rightarrow> 'w handoff" where
  "set_queue q h = h\<lparr>h_np := (h_np h)\<lparr>np_queue := Some q\<rparr>\<rparr>"

inductive hh_step ::
  "('p \<Rightarrow> bytes) \<Rightarrow> (u64 \<Rightarrow> 'w \<Rightarrow> string + 'ni option) \<Rightarrow> (bytes \<Rightarrow> string + 'p list) \<Rightarrow>
   (u64 \<Rightarrow> u64 \<Rightarrow> 'p list \<Rightarrow> 'w \<Rightarrow> string option \<times> 'w) \<Rightarrow> 'w handoff \<Rightarrow> 'w handoff \<Rightarrow> bool"
  for str D parse wr where
  accept: "np_queue (h_np h) = Some q \<Longrightarrow> sizes_left q (marshalWrite str shardID points) \<Longrightarrow>
    np_WriteShard str shardID points (h_np h) = (Inr (), n) \<Longrightarrow>
    hh_step str D parse wr h (h\<lparr>h_np := n, h_acc := h_acc h @ [marshalWrite str shardID points]\<rparr>)"
| reject: "np_queue (h_np h) = Some q \<Longrightarrow> sizes_left q (marshalWrite str shardID points) \<Longrightarrow>
    np_WriteShard str shardID points (h_np h) = (Inl e, n) \<Longrightarrow>
    hh_step str D parse wr h (h\<lparr>h_np := n\<rparr>)"
| read: "h_phase h = Idle \<Longrightarrow> Active D (h_np h) (h_world h) = Inr True \<Longrightarrow> np_queue (h_np h) = Some q \<Longrightarrow>
    Current q = (Inr b, q') \<Longrightarrow>
    hh_step str D parse wr h (set_queue q' h\<lparr>h_phase := Holding b\<rparr>)"
| nothing: "h_phase h = Idle \<Longrightarrow> np_queue (h_np h) = Some q \<Longrightarrow> Current q = (Inl e, q') \<Longrightarrow>
    hh_step str D parse wr h (set_queue q' h)"
| skip: "h_phase h = Holding b \<Longrightarrow> unmarshalWrite parse b = Inl e \<Longrightarrow> np_queue (h_np h) = Some q \<Longrightarrow> Advance q = (r, q') \<Longrightarrow>
    hh_step str D parse wr h (set_queue q' h\<lparr>h_phase := Idle, h_out := h_out h @ [(Undecodable, b)]\<rparr>)"
| fail: "h_phase h = Holding b \<Longrightarrow> unmarshalWrite parse b = Inr (shardID, points) \<Longrightarrow>
    wr shardID (np_nodeID (h_np h)) points (h_world h) = (Some e, w) \<Longrightarrow>
    hh_step str D parse wr h (h\<lparr>h_world := w, h_phase := Idle\<rparr>)"
| confirm: "h_phase h = Holding b \<Longrightarrow> unmarshalWrite parse b = Inr (shardID, points) \<Longrightarrow>
    wr shardID (np_nodeID (h_np h)) points (h_world h) = (None, w) \<Longrightarrow>
    hh_step str D parse wr h (h\<lparr>h_world := w, h_phase := Answered b, h_sent := h_sent h @ [b]\<rparr>)"
| advance: "h_phase h = Answered b \<Longrightarrow> np_queue (h_np h) = Some q \<Longrightarrow> Advance q = (r, q') \<Longrightarrow>
    hh_step str D parse wr h (set_queue q' h\<lparr>h_phase := Idle, h_out := h_out h @ [(Delivered, b)]\<rparr>)"
| purge: "h_phase h = Idle \<Longrightarrow> np_queue (h_np h) = Some q \<Longrightarrow> t = clock (q_disk q) - np_MaxAge (h_np h) \<Longrightarrow>
    t - t mod 1000000000 \<le> mtime q (last (segs q)) \<Longrightarrow> PurgeOlderThan (length (segs q) + 2) t q = Some (r, q') \<Longrightarrow>
    hh_step str D parse wr h (set_queue q' h\<lparr>h_out := h_out h @
      map (Pair Purged) (take (length (pending q) - length (pending q')) (pending q))\<rparr>)"
| elapse: "np_queue (h_np h) = Some q \<Longrightarrow>
    hh_step str D parse wr h (set_queue (q\<lparr>q_disk := (q_disk q)\<lparr>clock := c\<rparr>\<rparr>) h\<lparr>h_world := w\<rparr>)"

text \<open>The invariant: what was accepted is what has left the queue followed by what is pending; a record in the
  sender's hands is still first in its segment; what the node confirmed is what left as delivered, and the record in hand.\<close>

definition in_hand :: "send_phase \<Rightarrow> queue \<Rightarrow> bool" where
  "in_hand ph q = (case ph of Idle \<Rightarrow> True | Holding b \<Rightarrow> head_starts q b | Answered b \<Rightarrow> head_starts q b)"

definition delivered :: "(fate \<times> bytes) list \<Rightarrow> bytes list" where
  "delivered out = map snd (filter (\<lambda>x. fst x = Delivered) out)"

definition confirmed :: "send_phase \<Rightarrow> bytes list" where
  "confirmed ph = (case ph of Answered b \<Rightarrow> [b] | _ \<Rightarrow> [])"

definition handoff_ok :: "(bytes \<Rightarrow> string + 'p list) \<Rightarrow> 'w handoff \<Rightarrow> bool" where
  "handoff_ok parse h \<longleftrightarrow> (\<exists>q. np_queue (h_np h) = Some q \<and> queue_ok q \<and> in_hand (h_phase h) q \<and>
     h_acc h = map snd (h_out h) @ pending q) \<and>
     h_sent h = delivered (h_out h) @ confirmed (h_phase h) \<and>
     (\<forall>b. (Undecodable, b) \<in> set (h_out h) \<longrightarrow> (\<exists>e. unmarshalWrite parse b = Inl e))"

lemma delivered_append [simp]:
  "delivered (out @ [(Delivered, b)]) = delivered out @ [b]" "delivered (out @ [(Undecodable, b)]) = delivered out"
  "delivered (out @ map (Pair Purged) bs) = delivered out"
  by (simp_all add: delivered_def filter_map comp_def)

lemma set_queue_simps [simp]:
  "np_queue (h_np (set_queue q h)) = Some q" "h_phase (set_queue q h) = h_phase h" "h_acc (set_queue q h) = h_acc h"
  "h_out (set_queue q h) = h_out h" "h_sent (set_queue q h) = h_sent h"
  by (simp_all add: set_queue_def)

lemma marshalWrite_eq: "marshalWrite str i ps = PutUint64 i @ concat (map (\<lambda>p. str p @ [10]) ps)"
proof -
  have "foldl (\<lambda>b p. (b @ str p) @ [10]) b ps = b @ concat (map (\<lambda>p. str p @ [10]) ps)" for b
    by (induction ps arbitrary: b) simp_all
  then show ?thesis by (simp add: marshalWrite_def)
qed

lemma marshalWrite_nonempty: "marshalWrite str i ps \<noteq> []"
  by (auto simp: marshalWrite_eq dest: arg_cong [of _ _ length])

lemma np_WriteShard_keeps:
  assumes "np_WriteShard str i ps n = (r, n')" "np_queue n = Some q" "queue_ok q" "sizes_left q (marshalWrite str i ps)"
  obtains q' where "np_queue n' = Some q'" "queue_ok q'" "\<And>ph. in_hand ph q \<Longrightarrow> in_hand ph q'"
    "pending q' = pending q @ (case r of Inl _ \<Rightarrow> [] | Inr _ \<Rightarrow> [marshalWrite str i ps])"
proof (cases "np_open n")
  case False
  then show ?thesis using assms that by (auto simp: np_WriteShard_def)
next
  case True
  obtain x q' where app: "Append (marshalWrite str i ps) q = (x, q')" by (cases "Append (marshalWrite str i ps) q")
  note k = append_keeps [OF assms(3) marshalWrite_nonempty assms(4) app]
  have "np_queue n' = Some q'" "case x of Inl e \<Rightarrow> r = Inl (HhErr e) | Inr _ \<Rightarrow> r = Inr ()"
    using assms(1,2) True app by (auto simp: np_WriteShard_def split: sum.splits)
  then show ?thesis using that [of q'] k by (cases x) (auto simp: in_hand_def split: send_phase.splits)
qed

lemma hh_step_invar:
  assumes "hh_step str D parse wr h h'" "handoff_ok parse h"
  shows "handoff_ok parse h'"
proof -
  obtain p where p: "np_queue (h_np h) = Some p" "queue_ok p" "in_hand (h_phase h) p" "h_acc h = map snd (h_out h) @ pending p"
    and sent: "h_sent h = delivered (h_out h) @ confirmed (h_phase h)"
    and und: "\<forall>b. (Undecodable, b) \<in> set (h_out h) \<longrightarrow> (\<exists>e. unmarshalWrite parse b = Inl e)"
    using assms(2) by (auto simp: handoff_ok_def)
  show ?thesis
    using assms(1)
  proof (cases rule: hh_step.cases)
    case (accept q i ps n)
    then obtain q' where "np_queue n = Some q'" "queue_ok q'" "in_hand (h_phase h) q'" "pending q' = pending p @ [marshalWrite str i ps]"
      using np_WriteShard_keeps [OF accept(4), of p] p by auto
    then show ?thesis using accept(1) p sent und by (auto simp: handoff_ok_def)
  next
    case (reject q i ps e n)
    then obtain q' where "np_queue n = Some q'" "queue_ok q'" "in_hand (h_phase h) q'" "pending q' = pending p"
      using np_WriteShard_keeps [OF reject(4), of p] p by auto
    then show ?thesis using reject(1) p sent und by (auto simp: handoff_ok_def)
  next
    case (read q b q')
    then show ?thesis using current_keeps [of p "Inr b" q'] p sent und by (auto simp: handoff_ok_def in_hand_def confirmed_def)
  next
    case (nothing q e q')
    then show ?thesis using current_keeps [of p "Inl e" q'] p sent und by (auto simp: handoff_ok_def in_hand_def)
  next
    case (skip b e q r q')
    then show ?thesis using advance_takes [of p b r q'] p sent und by (auto simp: handoff_ok_def in_hand_def confirmed_def)
  next
    case (fail b i ps e w)
    then show ?thesis using p sent und by (auto simp: handoff_ok_def in_hand_def confirmed_def)
  next
    case (confirm b i ps w)
    then show ?thesis using p sent und by (auto simp: handoff_ok_def in_hand_def confirmed_def)
  next
    case (advance b q r q')
    then show ?thesis using advance_takes [of p b r q'] p sent und by (auto simp: handoff_ok_def in_hand_def confirmed_def)
  next
    case (purge q t r q')
    then obtain dr where "pending p = dr @ pending q'" "queue_ok q'" using purge_keeps [of p t r q'] p by auto
    then show ?thesis using purge p sent und by (auto simp: handoff_ok_def in_hand_def comp_def)
  next
    case (elapse q w c)
    let ?q = "p\<lparr>q_disk := (q_disk p)\<lparr>clock := c\<rparr>\<rparr>"
    have rep: "queue_rep ?q gs" if "queue_rep p gs" for gs using clock_keeps [OF that] .
    obtain gs where "queue_rep p gs" using p(2) by (auto simp: queue_ok_def)
    then have "pending ?q = pending p" using pending_rep rep by metis
    moreover have "queue_ok ?q" using p(2) rep unfolding queue_ok_def by blast
    moreover have "head_starts p b \<Longrightarrow> head_starts ?q b" for b using rep unfolding head_starts_def by blast
    then have "in_hand (h_phase h) ?q" using p(3) by (simp add: in_hand_def split: send_phase.splits)
    ultimately show ?thesis using elapse p sent und by (auto simp: handoff_ok_def)
  qed
qed

lemma hh_steps_invar:
  assumes "(hh_step str D parse wr)\<^sup>*\<^sup>* h h'" "handoff_ok parse h"
  shows "handoff_ok parse h'"
  using assms by (induction rule: rtranclp_induct) (auto intro: hh_step_invar)

text \<open>A send that nothing interrupts is a sequence of these steps.\<close>

lemma holding_steps:
  assumes "h_phase h = Holding b" "np_queue (h_np h) = Some q" "deliver parse wr (np_nodeID (h_np h)) b (h_world h) = (x, w')"
  shows "\<exists>h'. (hh_step str D parse wr)\<^sup>*\<^sup>* h h' \<and> h_world h' = w' \<and> h_phase h' = Idle \<and>
    h_np h' = (case x of Retry _ \<Rightarrow> h_np h | _ \<Rightarrow> (h_np h)\<lparr>np_queue := Some (snd (Advance q))\<rparr>)"
proof -
  obtain y q2 where adv: "Advance q = (y, q2)" by (cases "Advance q")
  consider (skip) e where "unmarshalWrite parse b = Inl e" "x = Skip e" "w' = h_world h"
    | (fail) i ps e where "unmarshalWrite parse b = Inr (i, ps)" "wr i (np_nodeID (h_np h)) ps (h_world h) = (Some e, w')" "x = Retry (WriteErr e)"
    | (sent) i ps where "unmarshalWrite parse b = Inr (i, ps)" "wr i (np_nodeID (h_np h)) ps (h_world h) = (None, w')" "x = Sent (length b)"
    using assms(3) by (auto simp: deliver_def split: sum.splits prod.splits option.splits)
  then show ?thesis
  proof cases
    case skip
    let ?h' = "set_queue q2 h\<lparr>h_phase := Idle, h_out := h_out h @ [(Undecodable, b)]\<rparr>"
    have "hh_step str D parse wr h ?h'" using assms skip adv by (intro hh_step.skip) auto
    then show ?thesis using skip adv by (intro exI [of _ ?h']) (auto simp: set_queue_def)
  next
    case fail
    have "hh_step str D parse wr h (h\<lparr>h_world := w', h_phase := Idle\<rparr>)" using assms fail by (intro hh_step.fail) auto
    then show ?thesis using fail by (intro exI [of _ "h\<lparr>h_world := w', h_phase := Idle\<rparr>"]) auto
  next
    case sent
    let ?a = "h\<lparr>h_world := w', h_phase := Answered b, h_sent := h_sent h @ [b]\<rparr>"
    let ?h' = "set_queue q2 ?a\<lparr>h_phase := Idle, h_out := h_out ?a @ [(Delivered, b)]\<rparr>"
    have "hh_step str D parse wr h ?a" using assms sent by (intro hh_step.confirm) auto
    moreover have "hh_step str D parse wr ?a ?h'" using assms adv by (intro hh_step.advance) auto
    ultimately have "(hh_step str D parse wr)\<^sup>*\<^sup>* h ?h'" by (meson rtranclp.rtrancl_into_rtrancl r_into_rtranclp)
    then show ?thesis using sent adv by (intro exI [of _ ?h']) (auto simp: set_queue_def)
  qed
qed

lemma SendWrite_steps:
  assumes "SendWrite D parse wr (h_np h, h_world h) = (r, (n', w'))" "h_phase h = Idle" "np_queue (h_np h) = Some q"
  shows "\<exists>h'. (hh_step str D parse wr)\<^sup>*\<^sup>* h h' \<and> h_world h' = w' \<and> h_phase h' = Idle \<and> h_np h' = n'"
proof (cases "Active D (h_np h) (h_world h) = Inr True")
  case False
  then have "n' = h_np h" "w' = h_world h" using assms(1) by (auto simp: SendWrite_def split: sum.splits if_splits)
  then show ?thesis using assms(2) by (intro exI [of _ h]) simp
next
  case act: True
  obtain c q1 where c: "Current q = (c, q1)" by (cases "Current q")
  show ?thesis
  proof (cases c)
    case (Inl e)
    then have "hh_step str D parse wr h (set_queue q1 h)" using assms(2,3) c by (intro hh_step.nothing) auto
    moreover have "n' = (h_np h)\<lparr>np_queue := Some q1\<rparr>" "w' = h_world h"
      using assms(1,3) act c Inl by (auto simp: SendWrite_def)
    ultimately show ?thesis using assms(2) by (intro exI [of _ "set_queue q1 h"]) (auto simp: set_queue_def)
  next
    case (Inr b)
    let ?h = "set_queue q1 h\<lparr>h_phase := Holding b\<rparr>"
    have rd: "hh_step str D parse wr h ?h" using assms(2,3) c act Inr by (intro hh_step.read) auto
    have eq: "h_world ?h = h_world h" "np_nodeID (h_np ?h) = np_nodeID (h_np h)" "h_np ?h = (h_np h)\<lparr>np_queue := Some q1\<rparr>"
      by (simp_all add: set_queue_def)
    obtain x w1 where x: "deliver parse wr (np_nodeID (h_np h)) b (h_world h) = (x, w1)" by (metis surj_pair)
    have "n' = (case x of Retry _ \<Rightarrow> h_np ?h | _ \<Rightarrow> (h_np ?h)\<lparr>np_queue := Some (snd (Advance q1))\<rparr>)" "w' = w1"
      using assms(1) act c Inr x eq(3) by (auto simp: SendWrite_send_with [OF assms(3)] send_with_def split: outcome.splits)
    then show ?thesis using holding_steps [of ?h b q1 parse wr x w1 str D] x eq rd by (auto intro: converse_rtranclp_into_rtranclp)
  qed
qed

lemma drain_list_all:
  assumes "\<And>w. active w = Inr True" "\<And>r w. r \<in> set rs \<Longrightarrow> \<exists>k w'. dl r w = (Sent k, w')"
  shows "drain_list eof active dl rs w = (eof, [], foldl (\<lambda>w r. snd (dl r w)) w rs)"
  using assms
proof (induction rs arbitrary: w)
  case Nil
  then show ?case by simp
next
  case (Cons r rs)
  obtain k w' where "dl r w = (Sent k, w')" using Cons.prems(2) [of r w] by auto
  then show ?case using Cons by simp
qed

subsection \<open>Lemmas: the retry interval\<close>

definition interval_ok :: "processor \<Rightarrow> int \<Rightarrow> bool" where
  "interval_ok n cur \<longleftrightarrow> 0 < np_RetryInterval n \<and> np_RetryInterval n \<le> cur \<and> cur \<le> np_RetryMaxInterval n \<and>
     np_RetryMaxInterval n < 2 ^ 62"

lemma interval_ok_queue [simp]: "interval_ok (n\<lparr>np_queue := x\<rparr>) cur = interval_ok n cur"
  by (simp add: interval_ok_def)

lemma interval_ok_backoff: "interval_ok n cur \<Longrightarrow> interval_ok n (backoff n e cur)"
proof -
  assume ok: "interval_ok n cur"
  then have "in_i64 (cur * 2)" by (auto simp: interval_ok_def in_i64_def)
  then show ?thesis using ok by (auto simp: interval_ok_def backoff_def Let_def i64_id)
qed

lemma SendWrite_queue_only:
  assumes "SendWrite D parse wr (n, w) = (r, (n', w'))"
  shows "\<exists>x. n' = n\<lparr>np_queue := x\<rparr>"
proof (cases "np_queue n")
  case None
  then have "n' = n\<lparr>np_queue := None\<rparr>"
    using assms by (auto simp: SendWrite_def split: sum.splits if_splits)
  then show ?thesis by blast
next
  case (Some q)
  then show ?thesis using assms by (auto simp: SendWrite_send_with [OF Some] split: prod.splits)
qed

lemma send_loop_interval:
  assumes "send_loop (SendWrite D parse wr) k cur (n, w) = Some (c, e, n', w')" "interval_ok n cur"
  shows "interval_ok n' c \<and> (\<exists>x. n' = n\<lparr>np_queue := x\<rparr>)"
  using assms
proof (induction k arbitrary: cur n w)
  case 0
  then show ?case by simp
next
  case (Suc k)
  obtain r n1 w1 where s: "SendWrite D parse wr (n, w) = (r, (n1, w1))" by (metis prod_cases3)
  obtain x where n1: "n1 = n\<lparr>np_queue := x\<rparr>" using SendWrite_queue_only [OF s] by blast
  show ?case
  proof (cases r)
    case (Inl y)
    then have "n' = n1" "c = backoff n1 y cur" using Suc.prems(1) s by auto
    then show ?thesis using interval_ok_backoff [of n1 cur y] Suc.prems(2) n1 by auto
  next
    case (Inr y)
    have "interval_ok n1 (np_RetryInterval n1)" using Suc.prems(2) n1 by (simp add: interval_ok_def)
    then have "interval_ok n' c \<and> (\<exists>x. n' = n1\<lparr>np_queue := x\<rparr>)"
      using Suc.IH [of "np_RetryInterval n1" n1 w1] Suc.prems(1) s Inr by simp
    then show ?thesis using n1 by auto
  qed
qed

subsection \<open>Lemmas: the service\<close>

lemma Open_empty:
  assumes "files d = []"
  shows "\<exists>q. Open (newQueue d m) = (Inr (), q) \<and> queue_rep q [(0, [], [])] \<and> ids_left (q_disk q) \<and>
    q_maxSegmentSize q = defaultSegmentSize \<and> q_maxSize q = m"
proof -
  let ?p = "FormatUint 1" and ?f = "mk_file d (seg_data [] [])"
  let ?d = "put_file ?p ?f d"
  have p: "nextSegmentID d = 1" by (simp add: nextSegmentID_def segment_ids_def ReadDir_def assms List.map_filter_simps)
  have "file_at d ?p = None" by (simp add: file_at_def assms)
  then obtain s where s: "newSegment ?p defaultSegmentSize d = (Inr s, ?d)" "seg_rep ?d s [] []" "s_path s = ?p"
    "s_maxSize s = defaultSegmentSize" using newSegment_fresh by blast
  define q where "q = (newQueue d m)\<lparr>q_disk := ?d, q_heap := [s], q_segments := Some [0], q_head := Some 0, q_tail := Some 0\<rparr>"
  have "disk_ok ?d" by (rule disk_ok_put_file) (simp_all add: disk_ok_def assms)
  then have rep: "queue_rep q [(0, [], [])]"
    using s by (simp add: queue_rep_def q_def newQueue_def seg_ok_def seg_def length_seg_data)
  have ld: "loadSegments (newQueue d m) = (Inr [], newQueue d m)"
    by (simp add: loadSegments_def ReadDir_def newQueue_def assms)
  have "newQueue d m\<lparr>q_segments := Some []\<rparr> = newQueue d m" by (simp add: newQueue_def)
  moreover have add: "addSegment (newQueue d m) = (Inr 0, (newQueue d m)\<lparr>q_disk := ?d, q_heap := [s], q_segments := Some [0]\<rparr>)"
    using s(1) p by (simp add: addSegment_def newQueue_def alloc_segment_def bindE_def segs_def)
  moreover have "on_seg 0 current_segment q = (Inl EOF, q)"
    using on_seg_eq [of current_segment q 0] current_segment_EOF [of ?d s "[]"] s(2) by (simp add: q_def seg_def newQueue_def)
  ultimately have "Open (newQueue d m) = trimHead q"
    using ld by (simp add: Open_def bindE_def ret_def segs_def Let_def q_def)
  moreover have "ids_left (q_disk q)"
    using assms by (simp add: q_def put_file_def ids_left_def segment_ids_def ReadDir_def List.map_filter_simps ParseUint_FormatUint)
  ultimately show ?thesis using rep trimHead_single [OF rep] by (simp add: q_def newQueue_def)
qed

lemma purge_processor_Deleted:
  assumes "purge_processor D w now maxAge v = Deleted d"
  shows "Active D v w = Inr False \<and> (\<exists>t. fst (np_LastModified v) = Inr t \<and> t < now - maxAge) \<and> files d = []"
proof -
  obtain x v1 where l: "np_LastModified v = (x, v1)" by (cases "np_LastModified v")
  then have "Active D v1 w = Active D v w"
    by (auto simp: np_LastModified_def split: option.splits sum.splits prod.splits)
  then show ?thesis using assms l
    by (auto simp: purge_processor_def np_Purge_def np_disk_def split: sum.splits if_splits prod.splits option.splits)
qed

lemma purgeInactive_frame:
  assumes "purgeInactiveProcessors D w now ks s = Some s'"
  shows "sv_cfg s' = sv_cfg s \<and> (\<forall>k. k \<notin> set ks \<longrightarrow> sv_processors s' k = sv_processors s k)"
  using assms
proof (induction ks arbitrary: s)
  case Nil
  then show ?case by simp
next
  case (Cons k ks)
  then show ?case
    by (auto simp: set_processor_def set_dir_def split: option.splits purge_result.splits dest!: Cons.IH)
qed

subsection \<open>Instances for the witnesses\<close>

text \<open>A node that is always known and a connection that logs what it is given.\<close>

definition demo_node :: "u64 \<Rightarrow> 'w \<Rightarrow> string + unit option" where
  "demo_node i w = Inr (Some ())"

definition demo_parse :: "bytes \<Rightarrow> string + bytes list" where
  "demo_parse b = Inr [butlast b]"

definition demo_write :: "u64 \<Rightarrow> u64 \<Rightarrow> bytes list \<Rightarrow> (u64 \<times> bytes list) list \<Rightarrow> string option \<times> (u64 \<times> bytes list) list" where
  "demo_write shardID nodeID ps w = (None, w @ [(shardID, ps)])"

definition demo_processor :: "bytes list \<Rightarrow> processor" where
  "demo_processor td = (NewNodeProcessor 3 \<lparr>files = [], clock = 9\<rparr>)\<lparr>np_open := True, np_queue := Some (demo_queue 9 100 [] td)\<rparr>"

lemma demo_processor_simps [simp]:
  "np_queue (demo_processor td) = Some (demo_queue 9 100 [] td)" "np_nodeID (demo_processor td) = 3" "np_open (demo_processor td)"
  "np_RetryInterval (demo_processor td) = DefaultRetryInterval" "np_RetryMaxInterval (demo_processor td) = DefaultRetryMaxInterval"
  by (simp_all add: demo_processor_def NewNodeProcessor_def)

lemma demo_node_active [simp]: "Active demo_node n w = Inr True"
  by (simp add: Active_def demo_node_def)

lemma demo_run:
  obtains q0 q1 q2 q3 q4 where "np_queue (demo_processor []) = Some q0" "queue_ok q0" "pending q0 = []"
    "Append (marshalWrite id 7 [[1]]) q0 = (Inr (), q1)" "Current q1 = (Inr (marshalWrite id 7 [[1]]), q2)"
    "Append (marshalWrite id 8 [[2]]) q2 = (Inr (), q3)" "Advance q3 = (Inr (), q4)"
    "sizes_left q0 (marshalWrite id 7 [[1]])" "sizes_left q2 (marshalWrite id 8 [[2]])"
proof -
  let ?b = "marshalWrite id 7 [[1]]" and ?c = "marshalWrite id 8 [[2]]" and ?q = "demo_queue 9 100 [] []"
  note f = demo_queue_facts [of "[]" "[]" 100 9] demo_queue_ids [of 9 100 "[]" "[]"]
  have rep: "queue_rep ?q [(0, [], [])]" by (rule demo_queue_rep) (simp_all add: length_seg_data)
  have len: "length ?b = 10" "length ?c = 10" by (simp_all add: marshalWrite_eq)
  have nb: "?b \<noteq> []" "?c \<noteq> []" by (simp_all add: marshalWrite_nonempty)
  have seg: "seg_rep (q_disk ?q) (seg ?q 0) [] []" using queue_rep_segD(1) [of ?q "[]" 0 "[]" "[]" "[]"] rep by simp
  obtain d s where s: "append_segment ?b (q_disk ?q, seg ?q 0) = (Inr (), (d, s))"
    "d = put_file (s_path (seg ?q 0)) (mk_file (q_disk ?q) (seg_data [] [?b])) (q_disk ?q)"
    using append_segment_ok [OF seg nb(1)] len by (auto simp: demo_queue_def seg_def length_seg_data)
  define q1 where "q1 = ?q\<lparr>q_disk := d, q_heap := (q_heap ?q)[0 := s]\<rparr>"
  have ids: "ids_left (q_disk q1)"
    by (simp add: q1_def s(2) put_file_def ids_left_def demo_queue_def seg_def mk_file_def segment_ids_def ReadDir_def List.map_filter_simps ParseUint_def is_digit_def)
  have "i64 (diskUsage ?q + int (length ?b)) = 18" by (simp add: diskUsage_rep [OF rep] len length_seg_data i64_id in_i64_def)
  moreover have "q_tail ?q = Some 0" by (simp add: demo_queue_def)
  ultimately have app: "Append ?b ?q = (Inr (), q1)"
    using on_seg_eq [of "append_segment ?b" ?q 0, OF s(1)] by (simp add: Append_def q1_def)
  then have rep1: "queue_rep q1 [(0, [], [?b])]" and max: "q_maxSegmentSize q1 = 100" "q_maxSize q1 = 1000"
    using append_rep [of ?q "[]" 0 "[]" "[]" ?b] rep nb f(6) diskUsage_rep [OF rep] len by (auto simp: length_seg_data)
  then obtain n where "current_segment (q_disk q1, seg q1 0) = (Inr ?b, (q_disk q1, (seg q1 0)\<lparr>s_file := Some n\<rparr>))"
    using current_segment_ok [of "q_disk q1" "seg q1 0" "[]" ?b "[]"] queue_rep_segD(1) [of q1 "[]" 0 "[]" "[?b]" "[]"] by auto
  from on_seg_eq [of current_segment q1 0, OF this] obtain q2 where cur: "Current q1 = (Inr ?b, q2)"
    and q2: "q_disk q2 = q_disk q1" "q_maxSegmentSize q2 = 100" "q_maxSize q2 = 1000"
    using queue_repD(5) [OF rep1] max by (auto simp: Current_def)
  have rep2: "queue_rep q2 [(0, [], [?b])]" using current_rep [OF rep1] cur by auto
  obtain q3 where app3: "Append ?c q2 = (Inr (), q3)" "queue_rep q3 [(0, [], [?b, ?c])]"
    using append_rep [of q2 "[]" 0 "[]" "[?b]" ?c] rep2 nb ids q2 diskUsage_rep [OF rep2] len by (auto simp: length_seg_data)
  obtain q4 where "Advance q3 = (Inr (), q4)" using advance_rep [OF app3(2)] by blast
  moreover have "sizes_left ?q ?b" "sizes_left q2 ?c"
    using f(6) ids q2(1) diskUsage_rep [OF rep] diskUsage_rep [OF rep2] len by (simp_all add: sizes_left_def length_seg_data)
  ultimately show ?thesis using that [of ?q q1 q2 q3 q4] app cur app3(1) f(1,3) by (simp add: length_seg_data)
qed

subsection \<open>Properties\<close>





text \<open>C6: however writes, the operations of the sender, purges and the passing of time interleave, no accepted record is lost,
  duplicated or reordered: what was accepted is what has left the queue followed by what is pending, the records the
  node confirmed are in order exactly those that left as delivered, and one more whose removal from the queue is still
  to come, and only records that cannot be decoded are skipped. Records that a rollover hides from the reader stay
  pending. Purges that find the last segment too old are left out, as are overflows of segment numbers and sizes.\<close>

theorem handoff_history:
  assumes "(hh_step str D parse wr)\<^sup>*\<^sup>* \<lparr>h_np = n0, h_world = w0, h_phase = Idle, h_acc = pending q0, h_out = [], h_sent = []\<rparr> h"
    and "np_queue n0 = Some q0" "queue_ok q0"
  shows "(\<exists>q. np_queue (h_np h) = Some q \<and> queue_ok q \<and> h_acc h = map snd (h_out h) @ pending q) \<and>
    h_sent h = map snd (filter (\<lambda>x. fst x = Delivered) (h_out h)) @ (case h_phase h of Answered b \<Rightarrow> [b] | _ \<Rightarrow> []) \<and>
    (\<forall>b. (Undecodable, b) \<in> set (h_out h) \<longrightarrow> (\<exists>e. unmarshalWrite parse b = Inl e))"
proof -
  have "handoff_ok parse \<lparr>h_np = n0, h_world = w0, h_phase = Idle, h_acc = pending q0, h_out = [], h_sent = []\<rparr>"
    using assms(2,3) by (simp add: handoff_ok_def in_hand_def confirmed_def delivered_def)
  from hh_steps_invar [OF assms(1) this] show ?thesis by (auto simp: handoff_ok_def delivered_def confirmed_def)
qed

theorem handoff_history_witness:
  "\<exists>h q. (hh_step id demo_node demo_parse demo_write)\<^sup>*\<^sup>*
      \<lparr>h_np = demo_processor [], h_world = [], h_phase = Idle, h_acc = [], h_out = [], h_sent = []\<rparr> h \<and>
    h_acc h = [marshalWrite id 7 [[1]], marshalWrite id 8 [[2]]] \<and> h_out h = [(Delivered, marshalWrite id 7 [[1]])] \<and>
    h_sent h = [marshalWrite id 7 [[1]]] \<and> np_queue (h_np h) = Some q \<and> queue_ok q \<and> pending q = [marshalWrite id 8 [[2]]]"
proof -
  let ?S = "hh_step id demo_node demo_parse demo_write" and ?n = "demo_processor []"
    and ?b = "marshalWrite id 7 [[1]]" and ?c = "marshalWrite id 8 [[2]]"
  let ?h0 = "\<lparr>h_np = ?n, h_world = [] :: (u64 \<times> bytes list) list, h_phase = Idle, h_acc = [], h_out = [], h_sent = []\<rparr>"
  obtain q0 q1 q2 q3 q4 where q: "np_queue ?n = Some q0" "queue_ok q0" "pending q0 = []"
    "Append ?b q0 = (Inr (), q1)" "Current q1 = (Inr ?b, q2)" "Append ?c q2 = (Inr (), q3)" "Advance q3 = (Inr (), q4)"
    "sizes_left q0 ?b" "sizes_left q2 ?c"
    by (rule demo_run)
  define h1 where "h1 = ?h0\<lparr>h_np := ?n\<lparr>np_queue := Some q1\<rparr>, h_acc := h_acc ?h0 @ [?b]\<rparr>"
  define h2 where "h2 = set_queue q2 h1\<lparr>h_phase := Holding ?b\<rparr>"
  define h3 where "h3 = h2\<lparr>h_np := ?n\<lparr>np_queue := Some q3\<rparr>, h_acc := h_acc h2 @ [?c]\<rparr>"
  define h4 where "h4 = h3\<lparr>h_world := h_world h3 @ [(7, [[1]])], h_phase := Answered ?b, h_sent := h_sent h3 @ [?b]\<rparr>"
  define h5 where "h5 = set_queue q4 h4\<lparr>h_phase := Idle, h_out := h_out h4 @ [(Delivered, ?b)]\<rparr>"
  have dec: "unmarshalWrite demo_parse ?b = Inr (7, [[1]])" by (simp add: marshalWrite_eq unmarshalWrite_def demo_parse_def)
  have "?S ?h0 h1" unfolding h1_def using q by (intro hh_step.accept) (auto simp: np_WriteShard_def)
  moreover have "?S h1 h2" unfolding h2_def using q by (intro hh_step.read) (auto simp: h1_def)
  moreover have "?S h2 h3" unfolding h3_def using q by (intro hh_step.accept) (auto simp: np_WriteShard_def h2_def h1_def set_queue_def)
  moreover have "?S h3 h4" unfolding h4_def using dec by (intro hh_step.confirm) (auto simp: h3_def h2_def demo_write_def)
  moreover have "?S h4 h5" unfolding h5_def using q by (intro hh_step.advance) (auto simp: h4_def h3_def)
  ultimately have run: "?S\<^sup>*\<^sup>* ?h0 h5" by (meson rtranclp.rtrancl_into_rtrancl rtranclp.rtrancl_refl)
  have h5: "h_acc h5 = [?b, ?c]" "h_out h5 = [(Delivered, ?b)]" "h_sent h5 = [?b]" "h_phase h5 = Idle"
    by (simp_all add: h5_def h4_def h3_def h2_def h1_def)
  then show ?thesis
    using run handoff_history [of id demo_node demo_parse demo_write ?n "[]" q0 h5] q(1-3) by auto
qed

text \<open>What the sender decodes is what the writer of the queue encoded, provided the point parser reads back
  newline-terminated points.\<close>

theorem unmarshalWrite_marshalWrite:
  assumes "parse (concat (map (\<lambda>p. str p @ [10]) points)) = Inr points"
  shows "unmarshalWrite parse (marshalWrite str shardID points) = Inr (shardID, points)"
  using assms by (simp add: marshalWrite_eq unmarshalWrite_def)

theorem unmarshalWrite_marshalWrite_witness:
  "unmarshalWrite demo_parse (marshalWrite id 7 [[1, 2]]) = Inr (7, [[1, 2]])"
  by (rule unmarshalWrite_marshalWrite) (simp add: demo_parse_def)

text \<open>The retry interval stays between the configured interval and the configured maximum, whatever the
  outcomes of the sends and purges; the doubling never overflows.\<close>

theorem run_interval_bounds:
  assumes "run_step (SendWrite D parse wr) ev (cur, n, w) = Some (cur', n', w')"
    and "0 < np_RetryInterval n" "np_RetryInterval n \<le> cur" "cur \<le> np_RetryMaxInterval n" "np_RetryMaxInterval n < 2 ^ 62"
  shows "np_RetryInterval n' \<le> cur' \<and> cur' \<le> np_RetryMaxInterval n' \<and>
    np_RetryInterval n' = np_RetryInterval n \<and> np_RetryMaxInterval n' = np_RetryMaxInterval n"
proof (cases ev)
  case PurgeTick
  then show ?thesis using assms by (auto simp: run_step_def split: option.splits prod.splits)
next
  case (RetryTick k)
  then obtain e where "send_loop (SendWrite D parse wr) k cur (n, w) = Some (cur', e, n', w')"
    using assms(1) by (auto simp: run_step_def split: option.splits prod.splits)
  then show ?thesis using send_loop_interval [of D parse wr k cur n w cur' e n' w'] assms(2-)
    by (auto simp: interval_ok_def)
qed

theorem run_interval_bounds_witness:
  "\<exists>cur' n' w'. run_step (SendWrite demo_node demo_parse demo_write) (RetryTick 1) (DefaultRetryInterval, demo_processor [[1]], []) =
      Some (cur', n', w') \<and> DefaultRetryInterval \<le> cur' \<and> cur' \<le> DefaultRetryMaxInterval"
proof -
  note f = demo_queue_facts [of "[]" "[[1]]" 100 9]
  obtain r n w where s: "SendWrite demo_node demo_parse demo_write (demo_processor [[1]], []) = (r, (n, w))" by (metis prod_cases3)
  obtain q1 where "Current (demo_queue 9 100 [] [[1]]) = (Inr [1], q1)"
    using Current_pending [OF f(1,2)] f(3) by (auto simp: length_seg_data)
  then have "r = Inl (TooShort 1)"
    using s by (auto simp: SendWrite_def unmarshalWrite_def split: prod.splits)
  then have "run_step (SendWrite demo_node demo_parse demo_write) (RetryTick 1) (DefaultRetryInterval, demo_processor [[1]], []) =
      Some (backoff n (TooShort 1) DefaultRetryInterval, n, w)" (is "?l = Some (?c, _)")
    using s by (simp add: run_step_def)
  then show ?thesis
    using run_interval_bounds [of demo_node demo_parse demo_write "RetryTick 1" DefaultRetryInterval "demo_processor [[1]]" "[]" ?c n w]
    by (auto simp: DefaultRetryInterval_def DefaultRetryMaxInterval_def)
qed

text \<open>A write for a node that has neither a processor nor a directory starts a processor for it whose queue
  holds exactly this write.\<close>

theorem service_WriteShard_new_node:
  assumes "c_Enabled (sv_cfg s)" "sv_processors s i = None" "files (dir_of s i) = []"
    and "8 + int (length (marshalWrite str shardID ps)) \<le> defaultSegmentSize"
  shows "\<exists>s' n q. service_WriteShard str shardID i ps s = (Inr (), s') \<and>
    sv_processors s' = (sv_processors s)(i \<mapsto> n) \<and> np_open n \<and> np_nodeID n = i \<and> np_queue n = Some q \<and>
    queue_ok q \<and> queue_live q \<and> pending q = [marshalWrite str shardID ps]"
proof -
  let ?b = "marshalWrite str shardID ps" and ?n = "NewNodeProcessor i (dir_of s i)"
  obtain q where q: "Open (newQueue (dir_of s i) DefaultMaxSize) = (Inr (), q)" "queue_rep q ([] @ [(0, [], [])])"
    "ids_left (q_disk q)" "q_maxSegmentSize q = defaultSegmentSize" "q_maxSize q = DefaultMaxSize"
    using Open_empty [OF assms(3), of DefaultMaxSize] by auto
  have "?b \<noteq> []" by (auto simp: marshalWrite_eq dest: arg_cong [of _ _ length])
  then have take: "can_take q ?b" "tail_ready q ?b"
    using q assms(4) diskUsage_rep [OF q(2)] tail_ready_rep [OF q(2)]
    by (simp_all add: can_take_def DefaultMaxSize_def defaultSegmentSize_def length_seg_data)
  have ok: "queue_ok q" "queue_live q" "pending q = []"
    using q(2) queue_live_rep [OF q(2)] pending_rep [OF q(2)] by (auto simp: queue_ok_def)
  obtain q' where q': "Append ?b q = (Inr (), q')" "queue_ok q'" "queue_live q'" "pending q' = [?b]"
    using Append_pending [OF ok(1) take(1)] take(2) ok by auto
  have "np_Open ?n = (Inr (), ?n\<lparr>np_open := True, np_queue := Some q\<rparr>)"
    using q(1) by (simp add: np_Open_def NewNodeProcessor_def np_disk_def Let_def)
  then have "service_WriteShard str shardID i ps s =
      (Inr (), set_processor i (?n\<lparr>np_open := True, np_queue := Some q'\<rparr>) (set_processor i (?n\<lparr>np_open := True, np_queue := Some q\<rparr>) s))"
    using assms(1,2) q'(1) by (simp add: service_WriteShard_def start_processor_def bindE_def np_WriteShard_def)
  then show ?thesis
    using q'(2-) by (intro exI [of _ "set_processor i (?n\<lparr>np_open := True, np_queue := Some q'\<rparr>) (set_processor i (?n\<lparr>np_open := True, np_queue := Some q\<rparr>) s)"]
      exI [of _ "?n\<lparr>np_open := True, np_queue := Some q'\<rparr>"] exI [of _ q']) (simp add: set_processor_def NewNodeProcessor_def)
qed

theorem service_WriteShard_new_node_witness:
  "\<exists>s' n q. service_WriteShard id 7 3 [[1]] \<lparr>sv_cfg = \<lparr>c_Enabled = True, c_Dir = ''d'', c_MaxAge = 0\<rparr>, sv_closing = False,
      sv_processors = Map.empty, sv_dirs = [], sv_clock = 4\<rparr> = (Inr (), s') \<and>
    sv_processors s' = Map.empty(3 \<mapsto> n) \<and> np_open n \<and> np_nodeID n = 3 \<and> np_queue n = Some q \<and>
    queue_ok q \<and> queue_live q \<and> pending q = [marshalWrite id 7 [[1]]]"
  using service_WriteShard_new_node [of "\<lparr>sv_cfg = \<lparr>c_Enabled = True, c_Dir = ''d'', c_MaxAge = 0\<rparr>, sv_closing = False,
      sv_processors = Map.empty, sv_dirs = [], sv_clock = 4\<rparr>" 3 id 7 "[[1]]"]
  by (simp add: dir_of_def marshalWrite_eq defaultSegmentSize_def)

text \<open>A round of \<^verbatim>\<open>purgeInactiveProcessors\<close> removes a processor, and with it its data, only when the node is
  known to be inactive and the queue was last modified before the maximum age.\<close>

theorem purgeInactive_removes_only_stale:
  assumes "purgeInactiveProcessors D w now ks s = Some s'" "distinct ks"
    and "sv_processors s k = Some v" "sv_processors s' k = None"
  shows "Active D v w = Inr False \<and> (\<exists>t. fst (np_LastModified v) = Inr t \<and> t < now - c_MaxAge (sv_cfg s))"
  using assms
proof (induction ks arbitrary: s)
  case Nil
  then show ?case by simp
next
  case (Cons j ks)
  show ?case
  proof (cases "j = k")
    case True
    then have "k \<notin> set ks" using Cons.prems(2) by simp
    then obtain d where "purge_processor D w now (c_MaxAge (sv_cfg s)) v = Deleted d"
      using Cons.prems True
      by (auto simp: set_processor_def set_dir_def split: purge_result.splits dest!: purgeInactive_frame)
    from purge_processor_Deleted [OF this] show ?thesis by blast
  next
    case False
    then show ?thesis using Cons.prems
      by (auto simp: set_processor_def set_dir_def split: option.splits purge_result.splits dest!: Cons.IH)
  qed
qed

theorem purgeInactive_removes_only_stale_witness:
  "\<exists>s'. purgeInactiveProcessors (\<lambda>_ _. Inr None :: string + unit option) () 100 [3]
      \<lparr>sv_cfg = \<lparr>c_Enabled = True, c_Dir = ''d'', c_MaxAge = 10\<rparr>, sv_closing = False,
       sv_processors = [3 \<mapsto> demo_processor [[1]]], sv_dirs = [], sv_clock = 100\<rparr> = Some s' \<and>
    (\<exists>t. fst (np_LastModified (demo_processor [[1]])) = Inr t \<and> t < 90)"
proof -
  let ?D = "\<lambda>_ _. Inr None :: string + unit option"
  let ?s = "\<lparr>sv_cfg = \<lparr>c_Enabled = True, c_Dir = ''d'', c_MaxAge = 10\<rparr>, sv_closing = False,
       sv_processors = [3 \<mapsto> demo_processor [[1]]], sv_dirs = [], sv_clock = 100\<rparr>"
  have "np_LastModified (demo_processor [[1]]) = (Inr 5, demo_processor [[1]])"
    by (simp add: np_LastModified_def LastModified_def demo_processor_def demo_queue_def on_seg_def lastModified_def seg_def file_at_def)
  moreover obtain q where "Close (demo_queue 9 100 [] [[1]]) = (Inr (), q)"
    by (simp add: Close_def bindE_def demo_queue_def on_seg_def close_segment_def seg_def segs_def)
  ultimately obtain d where "purge_processor ?D () 100 10 (demo_processor [[1]]) = Deleted d"
    by (auto simp: purge_processor_def Active_def np_Close_def np_Purge_def Let_def)
  then obtain s' where s': "purgeInactiveProcessors ?D () 100 [3] ?s = Some s'" "sv_processors s' 3 = None"
    by (auto simp: set_dir_def)
  then show ?thesis
    using purgeInactive_removes_only_stale [of ?D "()" 100 "[3]" ?s s' 3 "demo_processor [[1]]"] by simp
qed

end
