(* ===== verification/Values.thy ===== *)
theory Values
  imports Prelude
begin

text \<open>
  Slices of timestamped values, \<^verbatim>\<open>tsdb/engine/tsm1/encoding.gen.go\<close>: ordering, removal of duplicates,
  range queries and overlaying.

  The generated file repeats the same template for \<^verbatim>\<open>Values\<close> and for the five typed slices; the
  definitions are polymorphic in the payload, so each stands for all six copies. A value is a
  record with the two fields that \<^verbatim>\<open>FloatValue\<close>, \<^verbatim>\<open>IntegerValue\<close>, \<^verbatim>\<open>UnsignedValue\<close>, \<^verbatim>\<open>BooleanValue\<close>
  and \<^verbatim>\<open>StringValue\<close> have. Operations that work in place return the resulting slice.

  \<open>val_at\<close> is the abstraction: the value that a slice holds for a timestamp, the last one written.
\<close>

record 'v tv =
  unixnano :: int
  payload :: 'v

subsection \<open>The operations\<close>

definition MinTime :: "'v tv list \<Rightarrow> int" where
  "MinTime a = unixnano (a ! 0)"

definition MaxTime :: "'v tv list \<Rightarrow> int" where
  "MaxTime a = unixnano (a ! (length a - 1))"

text \<open>\<open>ordered_from x xs\<close> is the loop of \<^verbatim>\<open>ordered\<close> with \<open>x\<close> as \<^verbatim>\<open>a[i-1]\<close>.\<close>

fun ordered_from :: "'v tv \<Rightarrow> 'v tv list \<Rightarrow> bool" where
  "ordered_from x [] = True"
| "ordered_from x (y # ys) = (if unixnano x \<ge> unixnano y then False else ordered_from y ys)"

fun ordered :: "'v tv list \<Rightarrow> bool" where
  "ordered [] = True"
| "ordered (x # xs) = ordered_from x xs"

text \<open>
  The second loop of \<^verbatim>\<open>Deduplicate\<close>: \<open>cur\<close> is \<^verbatim>\<open>a[i]\<close>, the list is what is left of \<^verbatim>\<open>a[j:]\<close>.
  \<^verbatim>\<open>sort.Stable\<close> with \<^verbatim>\<open>Less\<close> on the timestamps is \<open>sort_key\<close>.
\<close>

fun compact :: "'v tv \<Rightarrow> 'v tv list \<Rightarrow> 'v tv list" where
  "compact cur [] = [cur]"
| "compact cur (v # vs) = (if unixnano v \<noteq> unixnano cur then cur # compact v vs else compact v vs)"

definition Deduplicate :: "'v tv list \<Rightarrow> 'v tv list" where
  "Deduplicate a =
     (if length a \<le> 1 then a
      else if ordered a then a
      else case sort_key unixnano a of [] \<Rightarrow> [] | v # vs \<Rightarrow> compact v vs)"

function search_from :: "'v tv list \<Rightarrow> int \<Rightarrow> nat \<Rightarrow> nat \<Rightarrow> nat" where
  "search_from a v lo hi =
     (if lo < hi then
        let mid = (lo + hi) div 2 in
        if unixnano (a ! mid) < v then search_from a v (mid + 1) hi else search_from a v lo mid
      else lo)"
  by pat_completeness auto
termination by (relation "measure (\<lambda>(a, v, lo, hi). hi - lo)") auto

definition search :: "'v tv list \<Rightarrow> int \<Rightarrow> nat" where
  "search a v = search_from a v 0 (length a)"

definition FindRange :: "'v tv list \<Rightarrow> int \<Rightarrow> int \<Rightarrow> int \<times> int" where
  "FindRange a mn mx =
     (if length a = 0 \<or> mn > mx then (-1, -1)
      else let minVal = unixnano (a ! 0); maxVal = unixnano (a ! (length a - 1)) in
           if maxVal < mn \<or> minVal > mx then (-1, -1)
           else (int (search a mn), int (search a mx)))"

definition Exclude :: "'v tv list \<Rightarrow> int \<Rightarrow> int \<Rightarrow> 'v tv list" where
  "Exclude a mn mx =
     (case FindRange a mn mx of (rmin, rmax) \<Rightarrow>
        if rmin = -1 \<and> rmax = -1 then a
        else if nat rmax < length a then
               let rmax' = (if unixnano (a ! nat rmax) = mx then nat rmax + 1 else nat rmax);
                   rest = length a - rmax'
               in if rest > 0 then take (nat rmin) a @ drop rmax' a else take (nat rmin) a
             else take (nat rmin) a)"

definition Include :: "'v tv list \<Rightarrow> int \<Rightarrow> int \<Rightarrow> 'v tv list" where
  "Include a mn mx =
     (case FindRange a mn mx of (rmin, rmax) \<Rightarrow>
        if rmin = -1 \<and> rmax = -1 then []
        else let rmax' = (if nat rmax < length a \<and> unixnano (a ! nat rmax) = mx then nat rmax + 1 else nat rmax)
             in if rmin > -1 then drop (nat rmin) (take rmax' a) else take rmax' a)"

fun merge_loop :: "'v tv list \<Rightarrow> 'v tv list \<Rightarrow> 'v tv list \<Rightarrow> 'v tv list" where
  "merge_loop out (x # a) (y # b) =
     (if unixnano x < unixnano y then merge_loop (out @ [x]) a (y # b)
      else if unixnano x = unixnano y then merge_loop out a (y # b)
      else merge_loop (out @ [y]) (x # a) b)"
| "merge_loop out a [] = out @ a"
| "merge_loop out [] b = out @ b"

definition Merge :: "'v tv list \<Rightarrow> 'v tv list \<Rightarrow> 'v tv list" where
  "Merge a b =
     (if length a = 0 then b
      else if length b = 0 then a
      else let a = Deduplicate a; b = Deduplicate b in
           if unixnano (a ! (length a - 1)) < unixnano (b ! 0) then a @ b
           else if unixnano (b ! (length b - 1)) < unixnano (a ! 0) then b @ a
           else merge_loop [] a b)"

subsection \<open>The value of a timestamp\<close>

definition val_at :: "'v tv list \<Rightarrow> int \<Rightarrow> 'v tv option" where
  "val_at a t = List.find (\<lambda>x. unixnano x = t) (rev a)"

subsection \<open>Lemmas: order\<close>

declare search_from.simps [simp del]

abbreviation strict :: "'v tv list \<Rightarrow> bool" where
  "strict a \<equiv> sorted_wrt (\<lambda>x y. unixnano x < unixnano y) a"

lemma ordered_from_strict: "ordered_from x xs \<longleftrightarrow> strict (x # xs)"
  by (induction x xs rule: ordered_from.induct) (auto dest: less_trans)

lemma ordered_strict: "ordered a \<longleftrightarrow> strict a"
  by (cases a) (auto simp: ordered_from_strict)

lemma strict_sorted: "strict a \<Longrightarrow> sorted (map unixnano a) \<and> distinct (map unixnano a)"
  by (induction a) (auto simp: less_imp_le)

lemma compact_strict: "sorted (map unixnano (x # xs)) \<Longrightarrow> strict (compact x xs) \<and> set (compact x xs) \<subseteq> set (x # xs)"
proof (induction x xs rule: compact.induct)
  case (1 cur)
  then show ?case by simp
next
  case (2 cur v vs)
  then show ?case by (auto simp: less_le) force+
qed

lemma compact_neq_Nil [simp]: "compact x xs \<noteq> []"
  by (induction x xs rule: compact.induct) auto

lemma strict_Deduplicate: "strict (Deduplicate a)"
proof (cases "length a \<le> 1 \<or> ordered a")
  case True
  then show ?thesis by (cases a) (auto simp: Deduplicate_def ordered_strict)
next
  case False
  then obtain v vs where "sort_key unixnano a = v # vs" by (cases "sort_key unixnano a") (auto dest: arg_cong [of _ _ length])
  moreover have "sorted (map unixnano (sort_key unixnano a))" by simp
  ultimately show ?thesis using False compact_strict [of v vs] by (simp add: Deduplicate_def)
qed

subsection \<open>Lemmas: the value of a timestamp\<close>

lemma val_at_Nil [simp]: "val_at [] t = None"
  by (simp add: val_at_def)

lemma find_append: "List.find P (xs @ ys) = (case List.find P xs of None \<Rightarrow> List.find P ys | Some x \<Rightarrow> Some x)"
  by (induction xs) auto

lemma val_at_append: "val_at (a @ b) t = (case val_at b t of None \<Rightarrow> val_at a t | Some v \<Rightarrow> Some v)"
  by (simp add: val_at_def find_append split: option.split)

lemma val_at_Cons: "val_at (x # a) t = (case val_at a t of None \<Rightarrow> if unixnano x = t then Some x else None | Some v \<Rightarrow> Some v)"
  by (simp add: val_at_def find_append split: option.split)

lemma val_at_Some: "val_at a t = Some v \<Longrightarrow> v \<in> set a \<and> unixnano v = t"
  by (induction a) (auto simp: val_at_Cons split: option.splits if_splits)

lemma val_at_None: "val_at a t = None \<longleftrightarrow> (\<forall>x\<in>set a. unixnano x \<noteq> t)"
  by (induction a) (auto simp: val_at_Cons split: option.splits)

lemma val_at_strict:
  assumes "strict a"
  shows "val_at a t = Some v \<longleftrightarrow> v \<in> set a \<and> unixnano v = t"
proof
  assume "v \<in> set a \<and> unixnano v = t"
  moreover from this obtain w where "val_at a t = Some w" by (metis not_None_eq val_at_None)
  moreover have "inj_on unixnano (set a)" using strict_sorted [OF assms] by (simp add: distinct_map)
  ultimately show "val_at a t = Some v" using val_at_Some by (metis inj_onD)
qed (rule val_at_Some)

lemma strict_unique:
  assumes "strict a" "strict b" "val_at a = val_at b"
  shows "a = b"
proof -
  have s: "set a = set b" using val_at_strict [OF assms(1)] val_at_strict [OF assms(2)] assms(3) by (metis subsetI subset_antisym)
  have "inj_on unixnano (set a)" using strict_sorted [OF assms(1)] by (simp add: distinct_map)
  with s show ?thesis
    using strict_sorted [OF assms(1)] strict_sorted [OF assms(2)] by (intro map_sorted_distinct_set_unique [where f = unixnano]) auto
qed

lemma val_at_compact: "sorted (map unixnano (x # xs)) \<Longrightarrow> val_at (compact x xs) t = val_at (x # xs) t"
proof (induction x xs rule: compact.induct)
  case (1 cur)
  then show ?case by simp
next
  case (2 cur v vs)
  then have "val_at (v # vs) t \<noteq> None" if "unixnano v = t"
    using that by (auto simp: val_at_None)
  then show ?case using 2 by (auto simp: val_at_Cons [of cur] split: option.splits)
qed

lemma val_at_sort: "val_at (sort_key unixnano a) t = val_at a t"
proof -
  have "val_at xs t = val_at (filter (\<lambda>x. unixnano x = t) xs) t" for xs :: "'a tv list"
    by (induction xs) (auto simp: val_at_Cons val_at_None split: option.splits)
  then show ?thesis using sort_key_stable [of unixnano t a] by metis
qed

lemma val_at_Deduplicate: "val_at (Deduplicate a) t = val_at a t"
proof (cases "length a \<le> 1 \<or> ordered a")
  case True
  then show ?thesis by (auto simp: Deduplicate_def)
next
  case False
  then obtain v vs where s: "sort_key unixnano a = v # vs" by (cases "sort_key unixnano a") (auto dest: arg_cong [of _ _ length])
  moreover have "sorted (map unixnano (sort_key unixnano a))" by simp
  ultimately have "val_at (compact v vs) t = val_at a t" using val_at_compact [of v vs t] val_at_sort [of a t] by simp
  then show ?thesis using s False by (simp add: Deduplicate_def)
qed

subsection \<open>Lemmas: overlaying\<close>

text \<open>The accumulator-free form of the loop of \<^verbatim>\<open>Merge\<close>.\<close>

fun overlay :: "'v tv list \<Rightarrow> 'v tv list \<Rightarrow> 'v tv list" where
  "overlay (x # a) (y # b) =
     (if unixnano x < unixnano y then x # overlay a (y # b)
      else if unixnano x = unixnano y then overlay a (y # b)
      else y # overlay (x # a) b)"
| "overlay a [] = a"
| "overlay [] b = b"

lemma merge_loop_overlay: "merge_loop out a b = out @ overlay a b"
  by (induction out a b rule: merge_loop.induct) auto

lemma set_overlay: "set (overlay a b) \<subseteq> set a \<union> set b"
  by (induction a b rule: overlay.induct) auto

lemma overlay_Nil [simp]: "overlay [] b = b"
  by (cases b) auto

lemma strict_overlay: "strict a \<Longrightarrow> strict b \<Longrightarrow> strict (overlay a b)"
proof (induction a b rule: overlay.induct)
  case (1 x a y b)
  have "\<forall>z\<in>set (overlay a (y # b)). unixnano x < unixnano z" if "unixnano x < unixnano y"
    using that 1(4,5) set_overlay [of a "y # b"] by fastforce
  moreover have "\<forall>z\<in>set (overlay (x # a) b). unixnano y < unixnano z" if "unixnano y < unixnano x"
    using that 1(4,5) set_overlay [of "x # a" b] by fastforce
  ultimately show ?case using 1 by auto
qed auto

lemma val_at_overlay:
  "strict a \<Longrightarrow> strict b \<Longrightarrow> val_at (overlay a b) t = (case val_at b t of None \<Rightarrow> val_at a t | Some v \<Rightarrow> Some v)"
proof (induction a b rule: overlay.induct)
  case (1 x a y b)
  have x: "val_at (y # b) (unixnano x) = None" if "unixnano x < unixnano y"
    using that 1(5) by (auto simp: val_at_None)
  have y: "val_at (x # a) (unixnano y) = None" "val_at b (unixnano y) = None" if "unixnano y < unixnano x"
    using that 1(4,5) by (auto simp: val_at_None)
  have e: "val_at (y # b) (unixnano y) = Some y" using 1(5) by (subst val_at_strict) auto
  consider "unixnano x < unixnano y" | "unixnano x = unixnano y" | "unixnano y < unixnano x" by linarith
  then show ?case
  proof cases
    case 1
    then show ?thesis using "1.IH"(1) "1.prems" x by (auto simp: val_at_Cons [of x] split: option.splits)
  next
    case 2
    then show ?thesis using "1.IH"(2) "1.prems" e by (auto simp: val_at_Cons [of x] split: option.splits)
  next
    case 3
    then show ?thesis using "1.IH"(3) "1.prems" y by (auto simp: val_at_Cons [of y] split: option.splits)
  qed
qed (auto split: option.splits)

subsection \<open>Lemmas: searching\<close>

lemma search_from_spec:
  assumes "sorted (map unixnano a)" "lo \<le> hi" "hi \<le> length a"
    and "\<forall>i<lo. unixnano (a ! i) < v" "\<forall>i. hi \<le> i \<longrightarrow> i < length a \<longrightarrow> v \<le> unixnano (a ! i)"
  shows "search_from a v lo hi \<le> length a \<and> (\<forall>i<length a. unixnano (a ! i) < v \<longleftrightarrow> i < search_from a v lo hi)"
  using assms
proof (induction a v lo hi rule: search_from.induct)
  case (1 a v lo hi)
  have mono: "unixnano (a ! i) \<le> unixnano (a ! j)" if "i \<le> j" "j < length a" for i j
    using 1(3) that sorted_nth_mono [of "map unixnano a" i j] by simp
  show ?case
  proof (cases "lo < hi")
    case True
    let ?m = "(lo + hi) div 2"
    have m: "lo \<le> ?m" "?m < hi" using True by auto
    show ?thesis
    proof (cases "unixnano (a ! ?m) < v")
      case True
      then have "\<forall>i<?m + 1. unixnano (a ! i) < v" using mono [of _ ?m] m 1(5) by (auto simp: less_Suc_eq_le intro: le_less_trans)
      then show ?thesis using 1(1) [OF \<open>lo < hi\<close> refl True] 1(3-) m True \<open>lo < hi\<close> by (simp add: search_from.simps [of a v lo hi] Let_def)
    next
      case False
      then have "\<forall>i. ?m \<le> i \<longrightarrow> i < length a \<longrightarrow> v \<le> unixnano (a ! i)" using mono [of ?m] by (force simp: not_less)
      then show ?thesis using 1(2) [OF \<open>lo < hi\<close> refl False] 1(3-) m False \<open>lo < hi\<close> by (simp add: search_from.simps [of a v lo hi] Let_def)
    qed
  next
    case False
    then have "search_from a v lo hi = hi" "lo = hi" using 1(4) by (simp_all add: search_from.simps)
    then show ?thesis using 1(3-) by (metis not_less)
  qed
qed

lemma search_spec:
  assumes "sorted (map unixnano a)"
  shows "search a v \<le> length a" "i < length a \<Longrightarrow> unixnano (a ! i) < v \<longleftrightarrow> i < search a v"
  using search_from_spec [OF assms, of 0 "length a" v] by (auto simp: search_def)

lemma filter_range:
  assumes "\<And>i. i < length a \<Longrightarrow> P (a ! i) \<longleftrightarrow> lo \<le> i \<and> i < hi" "lo \<le> hi"
  shows "filter P a = drop lo (take hi a)" "filter (\<lambda>x. \<not> P x) a = take lo a @ drop hi a"
proof -
  have a: "a = take lo a @ drop lo (take hi a) @ drop hi a"
    using assms(2) by (metis append.assoc append_take_drop_id min.absorb1 take_take)
  have 1: "\<not> P x" if "x \<in> set (take lo a)" for x using that assms by (auto simp: in_set_conv_nth)
  have 2: "P x" if "x \<in> set (drop lo (take hi a))" for x using that assms by (auto simp: in_set_conv_nth)
  have 3: "\<not> P x" if "x \<in> set (drop hi a)" for x using that assms by (auto simp: in_set_conv_nth)
  have "filter P a = filter P (take lo a) @ filter P (drop lo (take hi a)) @ filter P (drop hi a)"
    by (subst a) (simp only: filter_append)
  also have "\<dots> = drop lo (take hi a)" using 1 2 3 by (simp add: filter_empty_conv filter_id_conv)
  finally show "filter P a = drop lo (take hi a)" .
  have "filter (\<lambda>x. \<not> P x) a = filter (\<lambda>x. \<not> P x) (take lo a) @ filter (\<lambda>x. \<not> P x) (drop lo (take hi a)) @ filter (\<lambda>x. \<not> P x) (drop hi a)"
    by (subst a) (simp only: filter_append)
  also have "\<dots> = take lo a @ drop hi a" using 1 2 3 by (simp add: filter_empty_conv filter_id_conv)
  finally show "filter (\<lambda>x. \<not> P x) a = take lo a @ drop hi a" .
qed

text \<open>The end of the range: \<^verbatim>\<open>rmax\<close> after the adjustment for a value exactly at the maximum.\<close>

definition range_end :: "'v tv list \<Rightarrow> int \<Rightarrow> nat" where
  "range_end a mx = (if search a mx < length a \<and> unixnano (a ! search a mx) = mx then search a mx + 1 else search a mx)"

lemma range_end_spec:
  assumes "strict a" "i < length a"
  shows "unixnano (a ! i) \<le> mx \<longleftrightarrow> i < range_end a mx"
proof -
  have s: "sorted (map unixnano a)" using strict_sorted [OF assms(1)] by simp
  have inj: "unixnano (a ! i) = unixnano (a ! j) \<Longrightarrow> j < length a \<Longrightarrow> i = j" for j
    using strict_sorted [OF assms(1)] assms(2) by (auto simp: distinct_conv_nth)
  have i: "unixnano (a ! i) < mx \<longleftrightarrow> i < search a mx" using search_spec(2) [OF s assms(2)] .
  show ?thesis
  proof (cases "search a mx < length a \<and> unixnano (a ! search a mx) = mx")
    case True
    then show ?thesis using i inj [of "search a mx"] by (auto simp: range_end_def less_Suc_eq le_less)
  next
    case False
    have "unixnano (a ! i) \<noteq> mx"
    proof
      assume e: "unixnano (a ! i) = mx"
      with i have "search a mx \<le> i" by simp
      then have "unixnano (a ! search a mx) \<le> mx" "search a mx < length a"
        using sorted_nth_mono [OF s, of "search a mx" i] assms(2) e by auto
      moreover have "\<not> unixnano (a ! search a mx) < mx" using search_spec(2) [OF s, of "search a mx" mx] assms(2) \<open>search a mx \<le> i\<close> by simp
      ultimately show False using False by simp
    qed
    then show ?thesis using i False by (auto simp: range_end_def le_less)
  qed
qed

lemma search_mono: "sorted (map unixnano a) \<Longrightarrow> u \<le> v \<Longrightarrow> search a u \<le> search a v"
proof (rule ccontr)
  assume s: "sorted (map unixnano a)" and uv: "u \<le> v" and n: "\<not> search a u \<le> search a v"
  then have i: "search a v < length a" using search_spec(1) [OF s, of u] by simp
  then have "unixnano (a ! search a v) < u" using search_spec(2) [OF s i, of u] n by simp
  then show False using search_spec(2) [OF s i, of v] uv by simp
qed

lemma search_le_range_end:
  assumes "strict a" "mn \<le> mx"
  shows "search a mn \<le> range_end a mx"
proof -
  have "sorted (map unixnano a)" using strict_sorted [OF assms(1)] by simp
  from search_mono [OF this assms(2)] show ?thesis by (simp add: range_end_def)
qed

lemma strict_ends:
  assumes "strict a" "x \<in> set a"
  shows "unixnano (a ! 0) \<le> unixnano x" "unixnano x \<le> unixnano (a ! (length a - 1))"
proof -
  obtain i where i: "i < length a" "x = a ! i" using assms(2) by (auto simp: in_set_conv_nth)
  have mono: "unixnano (a ! j) \<le> unixnano (a ! k)" if "j \<le> k" "k < length a" for j k
    using strict_sorted [OF assms(1)] that sorted_nth_mono [of "map unixnano a" j k] by simp
  show "unixnano (a ! 0) \<le> unixnano x" "unixnano x \<le> unixnano (a ! (length a - 1))"
    using mono [of 0 i] mono [of i "length a - 1"] i by auto
qed

lemma FindRange_outside:
  assumes "strict a" "FindRange a mn mx = (-1, -1)" "x \<in> set a"
  shows "\<not> (mn \<le> unixnano x \<and> unixnano x \<le> mx)"
proof -
  have "a \<noteq> []" using assms(3) by auto
  then show ?thesis using assms(2) strict_ends [OF assms(1,3)] by (auto simp: FindRange_def Let_def split: if_splits)
qed

lemma FindRange_cases:
  assumes "FindRange a mn mx \<noteq> (-1, -1)"
  shows "FindRange a mn mx = (int (search a mn), int (search a mx))" "mn \<le> mx"
  using assms by (auto simp: FindRange_def Let_def split: if_splits)

lemma Include_filter:
  assumes "strict a"
  shows "Include a mn mx = filter (\<lambda>x. mn \<le> unixnano x \<and> unixnano x \<le> mx) a"
proof (cases "FindRange a mn mx = (-1, -1)")
  case True
  then show ?thesis using FindRange_outside [OF assms True] by (simp add: Include_def filter_empty_conv)
next
  case False
  note f = FindRange_cases [OF False]
  have s: "sorted (map unixnano a)" using strict_sorted [OF assms] by simp
  have "filter (\<lambda>x. mn \<le> unixnano x \<and> unixnano x \<le> mx) a = drop (search a mn) (take (range_end a mx) a)"
    using range_end_spec [OF assms] search_spec(2) [OF s, of _ mn] search_le_range_end [OF assms f(2)]
    by (intro filter_range(1)) (auto simp: not_less [symmetric])
  then show ?thesis using f(1) by (simp add: Include_def range_end_def Let_def)
qed

lemma Exclude_filter:
  assumes "strict a"
  shows "Exclude a mn mx = filter (\<lambda>x. \<not> (mn \<le> unixnano x \<and> unixnano x \<le> mx)) a"
proof (cases "FindRange a mn mx = (-1, -1)")
  case True
  then show ?thesis using FindRange_outside [OF assms True] by (simp add: Exclude_def filter_id_conv)
next
  case False
  note f = FindRange_cases [OF False]
  have s: "sorted (map unixnano a)" using strict_sorted [OF assms] by simp
  have "filter (\<lambda>x. \<not> (mn \<le> unixnano x \<and> unixnano x \<le> mx)) a = take (search a mn) a @ drop (range_end a mx) a"
    using range_end_spec [OF assms] search_spec(2) [OF s, of _ mn] search_le_range_end [OF assms f(2)]
    by (intro filter_range(2)) (auto simp: not_less [symmetric])
  moreover have "Exclude a mn mx = take (search a mn) a @ drop (range_end a mx) a"
    using f(1) by (auto simp: Exclude_def range_end_def Let_def)
  ultimately show ?thesis by simp
qed

lemma Deduplicate_neq_Nil: "a \<noteq> [] \<Longrightarrow> Deduplicate a \<noteq> []"
  using val_at_Deduplicate [of a] by (metis val_at_Nil val_at_None last_in_set)

lemma Merge_strict_val_at:
  assumes "a \<noteq> []" "b \<noteq> []"
  shows "strict (Merge a b)" "val_at (Merge a b) t = val_at (a @ b) t"
proof -
  let ?a = "Deduplicate a" and ?b = "Deduplicate b"
  note ab = strict_Deduplicate [of a] strict_Deduplicate [of b]
  have v: "val_at (a @ b) t = (case val_at ?b t of None \<Rightarrow> val_at ?a t | Some v \<Rightarrow> Some v)"
    by (simp add: val_at_append val_at_Deduplicate split: option.split)
  have m: "Merge a b = (if unixnano (?a ! (length ?a - 1)) < unixnano (?b ! 0) then ?a @ ?b
    else if unixnano (?b ! (length ?b - 1)) < unixnano (?a ! 0) then ?b @ ?a else overlay ?a ?b)"
    using assms by (simp add: Merge_def Let_def merge_loop_overlay)
  consider (lt) "unixnano (?a ! (length ?a - 1)) < unixnano (?b ! 0)" "Merge a b = ?a @ ?b"
    | (gt) "unixnano (?b ! (length ?b - 1)) < unixnano (?a ! 0)" "Merge a b = ?b @ ?a"
    | (mix) "Merge a b = overlay ?a ?b"
    using m by metis
  then have "strict (Merge a b) \<and> val_at (Merge a b) t = val_at (a @ b) t"
  proof cases
    case lt
    have "\<forall>x\<in>set ?a. \<forall>y\<in>set ?b. unixnano x < unixnano y"
      using strict_ends(2) [OF ab(1)] strict_ends(1) [OF ab(2)] lt(1) by (meson le_less_trans less_le_trans)
    then show ?thesis using lt(2) ab v by (simp add: sorted_wrt_append val_at_append)
  next
    case gt
    have d: "\<forall>x\<in>set ?b. \<forall>y\<in>set ?a. unixnano x < unixnano y"
      using strict_ends(2) [OF ab(2)] strict_ends(1) [OF ab(1)] gt(1) by (meson le_less_trans less_le_trans)
    then have "val_at ?a t = None \<or> val_at ?b t = None" unfolding val_at_None by (metis less_irrefl)
    then show ?thesis using gt(2) ab v d by (auto simp: sorted_wrt_append val_at_append split: option.split)
  next
    case mix
    then show ?thesis using strict_overlay [OF ab] val_at_overlay [OF ab, of t] v by simp
  qed
  then show "strict (Merge a b)" "val_at (Merge a b) t = val_at (a @ b) t" by auto
qed

subsection \<open>Properties\<close>

text \<open>C30: \<^verbatim>\<open>Deduplicate\<close> returns the values in strictly increasing order of time and keeps, for every
  timestamp, the value that was last in the slice; it invents no timestamp and drops none. It is
  idempotent.\<close>

theorem Deduplicate_canonical:
  "ordered (Deduplicate a) \<and> (\<forall>t. val_at (Deduplicate a) t = val_at a t) \<and> Deduplicate (Deduplicate a) = Deduplicate a"
proof -
  have "ordered (Deduplicate a)" by (simp add: ordered_strict strict_Deduplicate)
  moreover then have "Deduplicate (Deduplicate a) = Deduplicate a" by (subst (1) Deduplicate_def) simp
  ultimately show ?thesis by (simp add: val_at_Deduplicate)
qed

text \<open>C12: what \<^verbatim>\<open>Merge\<close> returns on every pair of slices, sorted or not: when both are non-empty the result is the
  two appended with the duplicates removed, so values of the second argument win; when one of them is empty the
  result is the other one as it is, neither sorted nor deduplicated.\<close>

theorem Merge_is_Deduplicate:
  "Merge a b = (if a = [] then b else if b = [] then a else Deduplicate (a @ b))"
proof (cases "a = [] \<or> b = []")
  case True
  then show ?thesis by (auto simp: Merge_def)
next
  case False
  then have ne: "a \<noteq> []" "b \<noteq> []" by auto
  have "Merge a b = Deduplicate (a @ b)"
    by (rule strict_unique) (auto simp: Merge_strict_val_at [OF ne] strict_Deduplicate val_at_Deduplicate fun_eq_iff)
  then show ?thesis using ne by simp
qed

theorem Merge_is_Deduplicate_witness:
  "Merge [\<lparr>unixnano = 1, payload = ''a''\<rparr>, \<lparr>unixnano = 3, payload = ''b''\<rparr>] [\<lparr>unixnano = 3, payload = ''c''\<rparr>] =
     [\<lparr>unixnano = 1, payload = ''a''\<rparr>, \<lparr>unixnano = 3, payload = ''c''\<rparr>] \<and>
   Merge [] [\<lparr>unixnano = 3, payload = ''c''\<rparr>, \<lparr>unixnano = 1, payload = ''d''\<rparr>] = [\<lparr>unixnano = 3, payload = ''c''\<rparr>, \<lparr>unixnano = 1, payload = ''d''\<rparr>]"
  by (simp add: Merge_is_Deduplicate Deduplicate_def)

text \<open>On an ordered slice \<^verbatim>\<open>Include\<close> keeps exactly the values with a timestamp in the closed interval and
  \<^verbatim>\<open>Exclude\<close> exactly the others, in order, with every boundary case.\<close>

theorem Include_Exclude_filter:
  assumes "ordered a"
  shows "Include a mn mx = filter (\<lambda>x. mn \<le> unixnano x \<and> unixnano x \<le> mx) a \<and>
    Exclude a mn mx = filter (\<lambda>x. \<not> (mn \<le> unixnano x \<and> unixnano x \<le> mx)) a"
  using assms Include_filter Exclude_filter by (auto simp: ordered_strict)

theorem Include_Exclude_filter_witness:
  "Include [\<lparr>unixnano = 1, payload = ()\<rparr>, \<lparr>unixnano = 3, payload = ()\<rparr>] 2 3 = [\<lparr>unixnano = 3, payload = ()\<rparr>] \<and>
   Exclude [\<lparr>unixnano = 1, payload = ()\<rparr>, \<lparr>unixnano = 3, payload = ()\<rparr>] 2 3 = [\<lparr>unixnano = 1, payload = ()\<rparr>]"
  using Include_Exclude_filter [of "[\<lparr>unixnano = 1, payload = ()\<rparr>, \<lparr>unixnano = 3, payload = ()\<rparr>]" 2 3] by simp

text \<open>The binary search returns the position at which a timestamp would be inserted: everything before it
  is smaller, nothing from it on is.\<close>

theorem search_insertion_point:
  assumes "sorted (map unixnano a)"
  shows "search a v \<le> length a \<and> (\<forall>i<length a. (unixnano (a ! i) < v) = (i < search a v))"
  using search_spec [OF assms] by blast

theorem search_insertion_point_witness:
  "search [\<lparr>unixnano = 1, payload = ()\<rparr>, \<lparr>unixnano = 3, payload = ()\<rparr>] 3 \<le> 2 \<and>
   \<not> 1 < search [\<lparr>unixnano = 1, payload = ()\<rparr>, \<lparr>unixnano = 3, payload = ()\<rparr>] 3"
  using search_insertion_point [of "[\<lparr>unixnano = 1, payload = ()\<rparr>, \<lparr>unixnano = 3, payload = ()\<rparr>]" 3] by (auto simp: All_less_Suc)

end
