(* ===== verification/Decoder.thy ===== *)
theory Decoder
  imports Prelude
begin

text \<open>
  The interface of the value decoders of the storage engine (\<^verbatim>\<open>Next\<close>, \<^verbatim>\<open>Read\<close>, \<^verbatim>\<open>Error\<close>) and the loop
  that the block decoders of \<^verbatim>\<open>tsdb/engine/tsm1/encoding.go\<close> run over a timestamp decoder and a
  value decoder side by side.
\<close>

fun decode_pairs ::
  "('t \<Rightarrow> bool \<times> 't) \<Rightarrow> ('t \<Rightarrow> 'x \<times> 't) \<Rightarrow> ('d \<Rightarrow> bool \<times> 'd) \<Rightarrow> ('d \<Rightarrow> 'v \<times> 'd) \<Rightarrow> nat \<Rightarrow> 't \<Rightarrow> 'd \<Rightarrow>
   ('x \<times> 'v) list \<times> 't \<times> 'd" where
  "decode_pairs tnext tread vnext vread 0 t d = ([], t, d)"
| "decode_pairs tnext tread vnext vread (Suc k) t d =
     (case tnext t of
        (False, t1) \<Rightarrow> ([], t1, d)
      | (True, t1) \<Rightarrow> (case vnext d of
          (False, d1) \<Rightarrow> ([], t1, d1)
        | (True, d1) \<Rightarrow> (case tread t1 of (x, t2) \<Rightarrow> (case vread d1 of (v, d2) \<Rightarrow>
            (case decode_pairs tnext tread vnext vread k t2 d2 of (ps, t', d') \<Rightarrow> ((x, v) # ps, t', d'))))))"

text \<open>\<open>read_all k d\<close> reads until \<^verbatim>\<open>Next\<close> is false, \<open>None\<close> when that has not happened after \<open>k\<close> calls.\<close>

fun read_all :: "('d \<Rightarrow> bool \<times> 'd) \<Rightarrow> ('d \<Rightarrow> 'v \<times> 'd) \<Rightarrow> nat \<Rightarrow> 'd \<Rightarrow> ('v list \<times> 'd) option" where
  "read_all nxt rd 0 d = None"
| "read_all nxt rd (Suc k) d = (case nxt d of
     (False, d1) \<Rightarrow> Some ([], d1)
   | (True, d1) \<Rightarrow> (case rd d1 of (v, d2) \<Rightarrow> map_option (\<lambda>(vs, d'). (v # vs, d')) (read_all nxt rd k d2)))"

text \<open>\<open>yields d vs\<close>: from state \<open>d\<close> the decoder delivers exactly the values \<open>vs\<close>, without an error.\<close>

locale decoder =
  fixes nxt :: "'d \<Rightarrow> bool \<times> 'd"
    and rd :: "'d \<Rightarrow> 'v \<times> 'd"
    and failed :: "'d \<Rightarrow> bool"
    and yields :: "'d \<Rightarrow> 'v list \<Rightarrow> bool"
  assumes yields_Cons: "yields d (v # vs) \<Longrightarrow> \<exists>d1 d2. nxt d = (True, d1) \<and> rd d1 = (v, d2) \<and> yields d2 vs"
    and yields_Nil: "yields d [] \<Longrightarrow> \<exists>d1. nxt d = (False, d1) \<and> \<not> failed d1"
    and yields_ok: "yields d vs \<Longrightarrow> \<not> failed d"
begin

lemma read_all_yields: "yields d vs \<Longrightarrow> length vs < k \<Longrightarrow> \<exists>d'. read_all nxt rd k d = Some (vs, d') \<and> \<not> failed d'"
proof (induction k arbitrary: d vs)
  case 0
  then show ?case by simp
next
  case (Suc k)
  show ?case
  proof (cases vs)
    case Nil
    then show ?thesis using yields_Nil Suc.prems by fastforce
  next
    case (Cons v ws)
    then obtain d1 d2 where "nxt d = (True, d1)" "rd d1 = (v, d2)" "yields d2 ws" using yields_Cons Suc.prems by blast
    moreover from this obtain d' where "read_all nxt rd k d2 = Some (ws, d')" "\<not> failed d'"
      using Suc.IH [of d2 ws] Suc.prems(2) Cons by auto
    ultimately show ?thesis using Cons by simp
  qed
qed

end

locale decoder_pair = t: decoder tnext tread tfailed tyields + v: decoder vnext vread vfailed vyields
  for tnext :: "'t \<Rightarrow> bool \<times> 't" and tread :: "'t \<Rightarrow> 'x \<times> 't" and tfailed :: "'t \<Rightarrow> bool"
    and tyields :: "'t \<Rightarrow> 'x list \<Rightarrow> bool"
    and vnext :: "'d \<Rightarrow> bool \<times> 'd" and vread :: "'d \<Rightarrow> 'v \<times> 'd" and vfailed :: "'d \<Rightarrow> bool"
    and vyields :: "'d \<Rightarrow> 'v list \<Rightarrow> bool"
begin

lemma decode_pairs_zip:
  assumes "tyields t xs" "vyields d vs" "length xs = length vs"
  shows "\<exists>t' d'. decode_pairs tnext tread vnext vread (length xs) t d = (zip xs vs, t', d') \<and> \<not> tfailed t' \<and> \<not> vfailed d'"
  using assms
proof (induction xs arbitrary: vs t d)
  case Nil
  then show ?case using t.yields_ok v.yields_ok by auto
next
  case (Cons x xs)
  then obtain v vs' where vs: "vs = v # vs'" by (cases vs) auto
  obtain t1 t2 where t: "tnext t = (True, t1)" "tread t1 = (x, t2)" "tyields t2 xs"
    using t.yields_Cons [OF Cons.prems(1)] by blast
  obtain d1 d2 where d: "vnext d = (True, d1)" "vread d1 = (v, d2)" "vyields d2 vs'"
    using v.yields_Cons Cons.prems(2) vs by blast
  from Cons.IH [OF t(3) d(3)] Cons.prems(3) vs obtain t' d' where
    "decode_pairs tnext tread vnext vread (length xs) t2 d2 = (zip xs vs', t', d')" "\<not> tfailed t'" "\<not> vfailed d'" by auto
  then show ?case using t d vs by simp
qed

end

end
