(* ===== verification/Bool_Codec.thy ===== *)
theory Bool_Codec
  imports Decoder
begin

text \<open>
  The boolean codec, \<^verbatim>\<open>tsdb/engine/tsm1/bool.go\<close>: one bit per value, most significant bit first,
  behind a header byte and a variable-length count.

  The length of the encoder's buffers is a \<^verbatim>\<open>nat\<close>; an \<^verbatim>\<open>int\<close> field of the decoder is an \<open>int\<close>.
\<close>

unbundle bit_operations_syntax

subsection \<open>The encoder\<close>

record booleanEncoder =
  be_bytes :: bytes
  be_b :: byte
  be_i :: nat
  be_n :: nat

definition booleanCompressedBitPacked :: byte where "booleanCompressedBitPacked = 1"

definition NewBooleanEncoder :: booleanEncoder where
  "NewBooleanEncoder = \<lparr>be_bytes = [], be_b = 0, be_i = 0, be_n = 0\<rparr>"

definition be_Reset :: "booleanEncoder \<Rightarrow> booleanEncoder" where
  "be_Reset e = e\<lparr>be_bytes := [], be_b := 0, be_i := 0, be_n := 0\<rparr>"

text \<open>The padding loop of \<^verbatim>\<open>flush\<close>.\<close>

function be_pad :: "booleanEncoder \<Rightarrow> booleanEncoder" where
  "be_pad e = (if be_i e < 8 then be_pad (e\<lparr>be_b := push_bit 1 (be_b e), be_i := be_i e + 1\<rparr>) else e)"
  by pat_completeness auto
termination by (relation "measure (\<lambda>e. 8 - be_i e)") auto

definition be_flush :: "booleanEncoder \<Rightarrow> booleanEncoder" where
  "be_flush e =
     (let e1 = be_pad e in
      if be_i e1 > 0 then e1\<lparr>be_bytes := be_bytes e1 @ [be_b e1], be_b := 0, be_i := 0\<rparr> else e1)"

definition be_Write :: "bool \<Rightarrow> booleanEncoder \<Rightarrow> booleanEncoder" where
  "be_Write b e =
     (let e1 = (if be_i e \<ge> 8 then be_flush e else e);
          e2 = e1\<lparr>be_b := push_bit 1 (be_b e1)\<rparr>;
          e3 = (if b then e2\<lparr>be_b := be_b e2 OR 1\<rparr> else e2)
      in e3\<lparr>be_i := be_i e3 + 1, be_n := be_n e3 + 1\<rparr>)"

definition be_Bytes :: "booleanEncoder \<Rightarrow> bytes \<times> booleanEncoder" where
  "be_Bytes e =
     (let e1 = be_flush e in
      ((push_bit 4 booleanCompressedBitPacked # PutUvarint (of_nat (be_n e1))) @ be_bytes e1, e1))"

subsection \<open>The decoder\<close>

record booleanDecoder =
  bd_b :: bytes
  bd_i :: int
  bd_n :: int
  bd_err :: bool

definition bd_SetBytes :: "bytes \<Rightarrow> booleanDecoder \<Rightarrow> booleanDecoder" where
  "bd_SetBytes b e =
     (if length b = 0 then e
      else let b1 = drop 1 b in
           case Uvarint b1 of (count, n) \<Rightarrow>
             if n \<le> 0 then e\<lparr>bd_err := True\<rparr>
             else let e1 = e\<lparr>bd_b := drop (nat n) b1, bd_i := -1, bd_n := i64_of count\<rparr>;
                      min = int (length (bd_b e1)) * 8
                  in if min < bd_n e1 then e1\<lparr>bd_n := min\<rparr> else e1)"

definition bd_Next :: "booleanDecoder \<Rightarrow> bool \<times> booleanDecoder" where
  "bd_Next e =
     (if bd_err e then (False, e)
      else let e1 = e\<lparr>bd_i := bd_i e + 1\<rparr> in (bd_i e1 < bd_n e1, e1))"

definition bd_Read :: "booleanDecoder \<Rightarrow> bool \<times> booleanDecoder" where
  "bd_Read e =
     (let idx = drop_bit 3 (nat (bd_i e));
          pos = 7 - (nat (bd_i e) AND 7);
          mask = push_bit pos 1;
          v = bd_b e ! idx
      in (v AND mask = mask, e))"

subsection \<open>Lemmas: bits of a byte\<close>

definition low_bits :: "nat \<Rightarrow> byte \<Rightarrow> bool list" where
  "low_bits i b = map (\<lambda>k. bit b (i - 1 - k)) [0..<i]"

lemma length_low_bits [simp]: "length (low_bits i b) = i"
  by (simp add: low_bits_def)

lemma low_bits_push: "i < 8 \<Longrightarrow> low_bits (Suc i) (push_bit 1 b OR of_bool x) = low_bits i b @ [x]"
proof -
  assume i: "i < 8"
  define w where "w = push_bit 1 b OR of_bool x"
  have "bit w (i - k) = (if k = i then x else bit b (i - Suc k))" if "k \<le> i" for k
    unfolding w_def bit_or_iff bit_push_bit_iff bit_of_bool_iff using that i by (auto simp: possible_bit_word)
  from this [of i] this have "low_bits (Suc i) w = low_bits i b @ [x]"
    by (intro nth_equalityI) (auto simp: low_bits_def nth_append less_Suc_eq simp del: upt_Suc)
  then show ?thesis by (simp add: w_def)
qed

declare be_pad.simps [simp del]

lemma be_pad_eq: "be_i e \<le> 8 \<Longrightarrow> be_pad e = e\<lparr>be_b := push_bit (8 - be_i e) (be_b e), be_i := 8\<rparr>"
proof (induction e rule: be_pad.induct)
  case (1 e)
  show ?case
  proof (cases "be_i e < 8")
    case True
    moreover then have "8 - be_i e = Suc (8 - Suc (be_i e))" by simp
    ultimately show ?thesis using 1 by (subst be_pad.simps) (simp add: push_bit_Suc push_bit_double)
  next
    case False
    then show ?thesis using 1 by (subst be_pad.simps) simp
  qed
qed

lemma be_flush_eq:
  "be_i e \<le> 8 \<Longrightarrow> be_flush e = e\<lparr>be_bytes := be_bytes e @ [push_bit (8 - be_i e) (be_b e)], be_b := 0, be_i := 0\<rparr>"
  by (simp add: be_flush_def be_pad_eq Let_def)

subsection \<open>Lemmas: the encoder\<close>

text \<open>\<open>be_rep e bs\<close>: the encoder has written the booleans \<open>bs\<close>.\<close>

definition be_rep :: "booleanEncoder \<Rightarrow> bool list \<Rightarrow> bool" where
  "be_rep e bs \<longleftrightarrow> bs = concat (map (low_bits 8) (be_bytes e)) @ low_bits (be_i e) (be_b e) \<and>
     be_i e \<le> 8 \<and> be_n e = length bs"

lemma be_rep_Reset: "be_rep (be_Reset e) []"
  by (simp add: be_rep_def be_Reset_def low_bits_def)

lemma be_rep_Write:
  assumes "be_rep e bs"
  shows "be_rep (be_Write b e) (bs @ [b])"
proof -
  define e1 where "e1 = (if be_i e \<ge> 8 then be_flush e else e)"
  have e1: "be_rep e1 bs" "be_i e1 < 8"
    using assms by (auto simp: e1_def be_rep_def be_flush_eq low_bits_def)
  have w: "be_Write b e = e1\<lparr>be_b := push_bit 1 (be_b e1) OR of_bool b, be_i := be_i e1 + 1, be_n := be_n e1 + 1\<rparr>"
    by (simp add: be_Write_def e1_def [symmetric] Let_def)
  show ?thesis using e1 low_bits_push [OF e1(2), of "be_b e1" b] unfolding w by (simp add: be_rep_def)
qed

lemma be_rep_fold: "be_rep e bs \<Longrightarrow> be_rep (fold be_Write cs e) (bs @ cs)"
proof (induction cs arbitrary: e bs)
  case Nil
  then show ?case by simp
next
  case (Cons c cs)
  from Cons.IH [OF be_rep_Write [OF Cons.prems, of c]] show ?case by simp
qed

lemma low_bits_pad: "i \<le> 8 \<Longrightarrow> take i (low_bits 8 (push_bit (8 - i) b)) = low_bits i b"
proof (rule nth_equalityI)
  fix k assume "i \<le> 8" "k < length (take i (low_bits 8 (push_bit (8 - i) b)))"
  then have k: "k < i" by simp
  have "bit (push_bit (8 - i) b) (7 - k) = bit b (i - 1 - k)"
    unfolding bit_push_bit_iff using k \<open>i \<le> 8\<close> by (auto simp: possible_bit_word)
  then show "take i (low_bits 8 (push_bit (8 - i) b)) ! k = low_bits i b ! k"
    using k \<open>i \<le> 8\<close> by (simp add: low_bits_def)
qed simp

lemma length_concat_low_bits [simp]: "length (concat (map (low_bits 8) bs)) = 8 * length bs"
  by (induction bs) auto

lemma be_flush_bits:
  assumes "be_rep e bs"
  shows "take (length bs) (concat (map (low_bits 8) (be_bytes (be_flush e)))) = bs" "length bs \<le> 8 * length (be_bytes (be_flush e))"
    "be_n (be_flush e) = length bs"
  using assms low_bits_pad [of "be_i e" "be_b e"] by (auto simp: be_rep_def be_flush_eq)

subsection \<open>Lemmas: the decoder\<close>

definition bd_yields :: "booleanDecoder \<Rightarrow> bool list \<Rightarrow> bool" where
  "bd_yields e vs \<longleftrightarrow> \<not> bd_err e \<and> -1 \<le> bd_i e \<and> bd_n e = bd_i e + 1 + int (length vs) \<and>
     bd_n e \<le> 8 * int (length (bd_b e)) \<and>
     vs = take (length vs) (drop (nat (bd_i e + 1)) (concat (map (low_bits 8) (bd_b e))))"

lemma nth_concat_low_bits:
  "i < 8 * length bs \<Longrightarrow> concat (map (low_bits 8) bs) ! i = bit (bs ! (i div 8)) (7 - i mod 8)"
proof (induction bs arbitrary: i)
  case Nil
  then show ?case by simp
next
  case (Cons b bs)
  show ?case
  proof (cases "i < 8")
    case True
    then show ?thesis by (simp add: nth_append) (simp add: low_bits_def)
  next
    case False
    then have "i div 8 = Suc ((i - 8) div 8)" "i mod 8 = (i - 8) mod 8"
      by (simp_all add: le_div_geq le_mod_geq)
    then show ?thesis using Cons.IH [of "i - 8"] Cons.prems False by (simp add: nth_append)
  qed
qed

lemma and_mask_bit: "k < 8 \<Longrightarrow> ((v :: byte) AND 2 ^ k = 2 ^ k) = bit v k"
proof
  assume k: "k < 8" and e: "v AND 2 ^ k = 2 ^ k"
  have "bit (v AND 2 ^ k) k" unfolding e using k by (simp add: bit_exp_iff possible_bit_word)
  then show "bit v k" by (simp add: bit_and_iff)
next
  assume "k < 8" "bit v k"
  then show "v AND 2 ^ k = 2 ^ k" by (intro bit_eqI) (auto simp: bit_and_iff bit_exp_iff)
qed

lemma bd_Read_bit:
  assumes "0 \<le> bd_i e" "bd_i e < 8 * int (length (bd_b e))"
  shows "bd_Read e = (concat (map (low_bits 8) (bd_b e)) ! nat (bd_i e), e)"
proof -
  have m: "nat (bd_i e) AND 7 = nat (bd_i e) mod 8"
    using take_bit_eq_mask [of 3 "nat (bd_i e)"] take_bit_eq_mod [of 3 "nat (bd_i e)"] by (simp add: mask_eq_exp_minus_1)
  have "nat (bd_i e) < 8 * length (bd_b e)" using assms by linarith
  from nth_concat_low_bits [OF this] show ?thesis
    by (simp add: bd_Read_def Let_def m and_mask_bit drop_bit_eq_div)
qed

interpretation bool_dec: decoder bd_Next bd_Read bd_err bd_yields
proof unfold_locales
  fix d v vs assume y: "bd_yields d (v # vs)"
  let ?c = "concat (map (low_bits 8) (bd_b d))" and ?d = "d\<lparr>bd_i := bd_i d + 1\<rparr>"
  have n: "bd_n d = bd_i d + 2 + int (length vs)" "bd_n d \<le> 8 * int (length (bd_b d))" "-1 \<le> bd_i d"
    using y by (auto simp: bd_yields_def)
  have "v # vs = take (Suc (length vs)) (drop (nat (bd_i d + 1)) ?c)" using y by (simp add: bd_yields_def)
  moreover have i: "nat (bd_i d + 1) < length ?c" using n by simp
  ultimately have "v = ?c ! nat (bd_i d + 1)" "vs = take (length vs) (drop (Suc (nat (bd_i d + 1))) ?c)"
    by (auto simp: Cons_nth_drop_Suc [symmetric])
  moreover have "Suc (nat (bd_i d + 1)) = nat (2 + bd_i d)" using n(3) by linarith
  ultimately have "bd_Read ?d = (v, ?d)" "bd_yields ?d vs"
    using bd_Read_bit [of ?d] n i y by (auto simp: bd_yields_def)
  moreover have "bd_Next d = (True, ?d)" using n y by (simp add: bd_Next_def bd_yields_def Let_def)
  ultimately show "\<exists>d1 d2. bd_Next d = (True, d1) \<and> bd_Read d1 = (v, d2) \<and> bd_yields d2 vs" by blast
next
  fix d assume "bd_yields d ([] :: bool list)"
  then show "\<exists>d1. bd_Next d = (False, d1) \<and> \<not> bd_err d1" by (simp add: bd_yields_def bd_Next_def Let_def)
next
  fix d vs assume "bd_yields d vs"
  then show "\<not> bd_err d" by (simp add: bd_yields_def)
qed

text \<open>What the boolean block encoder does: reset, write every value, take the bytes.\<close>

definition encode_bools :: "booleanEncoder \<Rightarrow> bool list \<Rightarrow> bytes" where
  "encode_bools e bs = fst (be_Bytes (fold be_Write bs (be_Reset e)))"

lemma bd_SetBytes_encode:
  assumes "length bs < 2 ^ 63" "\<not> bd_err d"
  shows "bd_yields (bd_SetBytes (encode_bools e bs) d) bs"
proof -
  let ?f = "be_flush (fold be_Write bs (be_Reset e))"
  have rep: "be_rep (fold be_Write bs (be_Reset e)) bs" using be_rep_fold [OF be_rep_Reset, of bs e] by simp
  note f = be_flush_bits [OF rep]
  have enc: "encode_bools e bs = (push_bit 4 booleanCompressedBitPacked # PutUvarint (of_nat (length bs))) @ be_bytes ?f"
    by (simp add: encode_bools_def be_Bytes_def Let_def f(3))
  have c: "i64_of (of_nat (length bs)) = int (length bs)"
  proof -
    have "int (length bs) < int (2 ^ 63)" using assms(1) unfolding of_nat_less_iff .
    then have "in_i64 (int (length bs))" by (simp add: in_i64_def)
    then have "i64_of (u64_of (int (length bs))) = int (length bs)" by simp
    then show ?thesis by (simp add: u64_of_def)
  qed
  have u: "Uvarint (PutUvarint (of_nat (length bs)) @ be_bytes ?f) = (of_nat (length bs), int (length (PutUvarint (of_nat (length bs)))))"
    by (rule Uvarint_PutUvarint)
  have p: "\<not> length (PutUvarint (of_nat (length bs))) \<le> 0" using length_PutUvarint_pos by simp
  have "bd_SetBytes (encode_bools e bs) d = d\<lparr>bd_b := be_bytes ?f, bd_i := -1, bd_n := int (length bs)\<rparr>"
    using f(2) p by (simp add: bd_SetBytes_def enc u c Let_def)
  then show ?thesis using assms(2) f(1,2) by (simp add: bd_yields_def)
qed

subsection \<open>Properties\<close>

text \<open>Decoding an encoded sequence of booleans gives the sequence back, without an error, for every length
  (including those that do not fill the last byte), and the decoder then reports the end.\<close>

theorem bool_roundtrip:
  assumes "length bs < 2 ^ 63" "\<not> bd_err d"
  shows "\<exists>d'. read_all bd_Next bd_Read (length bs + 1) (bd_SetBytes (fst (be_Bytes (fold be_Write bs (be_Reset e)))) d) = Some (bs, d') \<and>
    \<not> bd_err d'"
  by (rule bool_dec.read_all_yields [OF bd_SetBytes_encode [OF assms, of e, unfolded encode_bools_def]]) simp

theorem bool_roundtrip_witness:
  "\<exists>d'. read_all bd_Next bd_Read (length [True, False, True] + 1)
      (bd_SetBytes (fst (be_Bytes (fold be_Write [True, False, True] (be_Reset NewBooleanEncoder))))
        \<lparr>bd_b = [], bd_i = 0, bd_n = 0, bd_err = False\<rparr>) = Some ([True, False, True], d') \<and> \<not> bd_err d'"
  by (rule bool_roundtrip) simp_all

text \<open>An error of the boolean decoder is never cleared: a decoder that once met an invalid count delivers
  nothing for any later input, valid ones included. The decoders are pooled and reused.\<close>

theorem bool_error_sticky:
  assumes "bd_err d"
  shows "read_all bd_Next bd_Read (Suc k) (bd_SetBytes b d) = Some ([], bd_SetBytes b d) \<and> bd_err (bd_SetBytes b d)"
proof -
  have "bd_err (bd_SetBytes b d)" using assms by (simp add: bd_SetBytes_def Let_def split: prod.split)
  then show ?thesis by (simp add: bd_Next_def)
qed

theorem bool_error_sticky_witness:
  "bd_err (bd_SetBytes [16] \<lparr>bd_b = [], bd_i = 0, bd_n = 0, bd_err = False\<rparr>) \<and>
   bd_err (bd_SetBytes (encode_bools NewBooleanEncoder [True]) (bd_SetBytes [16] \<lparr>bd_b = [], bd_i = 0, bd_n = 0, bd_err = False\<rparr>))"
proof -
  have "bd_err (bd_SetBytes [16] \<lparr>bd_b = [], bd_i = 0, bd_n = 0, bd_err = False\<rparr>)"
    by (simp add: bd_SetBytes_def Uvarint_def)
  from this bool_error_sticky [OF this] show ?thesis by blast
qed

end
