(* ===== verification/Simple8b.thy ===== *)
theory Simple8b
  imports Prelude
begin

text \<open>
  The word-packing library \<^verbatim>\<open>github.com/jwilder/encoding/simple8b\<close>, which the integer and timestamp codecs
  call, is not part of the repository: it is an argument of the codecs. \<open>simple8b_ok\<close> is what they
  rely on: values up to the documented maximum are packed, and unpacking gives them back.

  \<open>s8_Encode\<close> and \<open>s8_Decode\<close> stand for the functions \<^verbatim>\<open>EncodeAll\<close> and \<^verbatim>\<open>Decode\<close> on words (the latter returns
  the values it stored and its error), \<open>s8_EncodeBytes\<close>, \<open>s8_DecodeBytes\<close> and \<open>s8_CountBytes\<close> for the
  types \<^verbatim>\<open>Encoder\<close> and \<^verbatim>\<open>Decoder\<close> and the function \<^verbatim>\<open>CountBytes\<close>.
\<close>

record simple8b =
  s8_MaxValue :: u64
  s8_Encode :: "u64 list \<Rightarrow> string + u64 list"
  s8_Decode :: "u64 \<Rightarrow> u64 list \<times> string option"
  s8_EncodeBytes :: "u64 list \<Rightarrow> string + bytes"
  s8_DecodeBytes :: "bytes \<Rightarrow> u64 list"
  s8_CountBytes :: "bytes \<Rightarrow> int"

definition simple8b_ok :: "simple8b \<Rightarrow> bool" where
  "simple8b_ok s \<longleftrightarrow>
     (\<forall>vs. (\<forall>v\<in>set vs. v \<le> s8_MaxValue s) \<longrightarrow>
        (\<exists>ws. s8_Encode s vs = Inr ws \<and> (\<forall>w\<in>set ws. snd (s8_Decode s w) = None \<and> fst (s8_Decode s w) \<noteq> []) \<and>
              concat (map (\<lambda>w. fst (s8_Decode s w)) ws) = vs) \<and>
        (\<exists>bs. s8_EncodeBytes s vs = Inr bs \<and> s8_DecodeBytes s bs = vs \<and> s8_CountBytes s bs = int (length vs)))"

text \<open>A packing with one value per word, to show that the assumptions can be met.\<close>

fun words_of :: "bytes \<Rightarrow> u64 list" where
  "words_of bs = (if length bs < 8 then [] else Uint64 bs # words_of (drop 8 bs))"

declare words_of.simps [simp del]

definition plain_simple8b :: simple8b where
  "plain_simple8b = \<lparr>s8_MaxValue = 2 ^ 60 - 1, s8_Encode = Inr, s8_Decode = (\<lambda>w. ([w], None)),
     s8_EncodeBytes = (\<lambda>vs. Inr (concat (map PutUint64 vs))), s8_DecodeBytes = words_of,
     s8_CountBytes = (\<lambda>b. int (length b) div 8)\<rparr>"

lemma words_of_PutUint64 [simp]: "words_of (concat (map PutUint64 vs)) = vs"
proof (induction vs)
  case Nil
  then show ?case by (subst words_of.simps) simp
next
  case (Cons v vs)
  then show ?case by (subst words_of.simps) simp
qed

lemma length_concat_PutUint64 [simp]: "length (concat (map PutUint64 vs)) = 8 * length vs"
  by (induction vs) auto

lemma plain_simple8b_ok: "simple8b_ok plain_simple8b"
proof -
  have "concat (map (\<lambda>w. [w]) ws) = ws" for ws :: "u64 list" by (induction ws) auto
  then show ?thesis by (simp add: simple8b_ok_def plain_simple8b_def)
qed

end
