(* ===== verification/Int_Codec.thy ===== *)
theory Int_Codec
  imports Decoder Simple8b
begin

text \<open>
  The integer codec, \<^verbatim>\<open>tsdb/engine/tsm1/int.go\<close>, with the zig-zag mapping of \<^verbatim>\<open>encoding.go\<close>: deltas,
  zig-zag encoded, stored as a run length, as packed words or uncompressed.

  The decoder's array of 240 values is the list of the values stored in it since the last refill.
\<close>

unbundle bit_operations_syntax

subsection \<open>Zig-zag encoding (encoding.go)\<close>

definition ZigZagEncode :: "int \<Rightarrow> u64" where
  "ZigZagEncode x = push_bit 1 (u64_of x) XOR u64_of (x div 2 ^ 63)"

definition ZigZagDecode :: "u64 \<Rightarrow> int" where
  "ZigZagDecode v = i64_of (drop_bit 1 v XOR u64_of (i64 (i64_of (v AND 1) * 2 ^ 63) div 2 ^ 63))"

subsection \<open>The encoder\<close>

record integerEncoder =
  ie_prev :: int
  ie_rle :: bool
  ie_values :: "u64 list"

definition intUncompressed :: byte where "intUncompressed = 0"
definition intCompressedSimple :: byte where "intCompressedSimple = 1"
definition intCompressedRLE :: byte where "intCompressedRLE = 2"

definition NewIntegerEncoder :: integerEncoder where
  "NewIntegerEncoder = \<lparr>ie_prev = 0, ie_rle = True, ie_values = []\<rparr>"

definition ie_Reset :: "integerEncoder \<Rightarrow> integerEncoder" where
  "ie_Reset e = e\<lparr>ie_prev := 0, ie_rle := True, ie_values := []\<rparr>"

definition ie_Write :: "int \<Rightarrow> integerEncoder \<Rightarrow> integerEncoder" where
  "ie_Write v e =
     (let delta = i64 (v - ie_prev e); enc = ZigZagEncode delta;
          e1 = e\<lparr>ie_prev := v\<rparr>;
          e2 = (if length (ie_values e1) > 1
                then e1\<lparr>ie_rle := ie_rle e1 \<and> ie_values e1 ! (length (ie_values e1) - 1) = enc\<rparr> else e1)
      in e2\<lparr>ie_values := ie_values e2 @ [enc]\<rparr>)"

definition ie_encodeRLE :: "integerEncoder \<Rightarrow> bytes" where
  "ie_encodeRLE e = [push_bit 4 intCompressedRLE] @ PutUint64 (ie_values e ! 0) @ PutUvarint (ie_values e ! 1) @
     PutUvarint (of_nat (length (ie_values e) - 1))"

definition ie_encodePacked :: "simple8b \<Rightarrow> integerEncoder \<Rightarrow> string + bytes" where
  "ie_encodePacked s8 e =
     (if length (ie_values e) = 0 then Inr []
      else case s8_Encode s8 (drop 1 (ie_values e)) of
             Inl err \<Rightarrow> Inl err
           | Inr encoded \<Rightarrow> Inr ([push_bit 4 intCompressedSimple] @ PutUint64 (ie_values e ! 0) @ concat (map PutUint64 encoded)))"

definition ie_encodeUncompressed :: "integerEncoder \<Rightarrow> bytes" where
  "ie_encodeUncompressed e =
     (if length (ie_values e) = 0 then []
      else [push_bit 4 intUncompressed] @ concat (map PutUint64 (ie_values e)))"

text \<open>\<open>Bytes\<close> returns the encoding only. The packing library works in place and overwrites the values that the encoder holds, which
  nothing reads again: an encoder is reset before every use.\<close>

definition ie_Bytes :: "simple8b \<Rightarrow> integerEncoder \<Rightarrow> string + bytes" where
  "ie_Bytes s8 e =
     (if ie_rle e \<and> length (ie_values e) > 2 then Inr (ie_encodeRLE e)
      else if list_ex (\<lambda>v. v > s8_MaxValue s8) (ie_values e) then Inr (ie_encodeUncompressed e)
      else ie_encodePacked s8 e)"

subsection \<open>The decoder\<close>

record integerDecoder =
  id_values :: "u64 list"
  id_bytes :: bytes
  id_i :: int
  id_n :: int
  id_prev :: int
  id_first :: bool
  id_rleFirst :: u64
  id_rleDelta :: u64
  id_encoding :: byte
  id_err :: bool

definition id_SetBytes :: "bytes \<Rightarrow> integerDecoder \<Rightarrow> integerDecoder" where
  "id_SetBytes b d =
     (let d1 = (if length b > 0 then d\<lparr>id_encoding := drop_bit 4 (b ! 0), id_bytes := drop 1 b\<rparr>
                else d\<lparr>id_encoding := 0, id_bytes := []\<rparr>)
      in d1\<lparr>id_i := 0, id_n := 0, id_prev := 0, id_first := True, id_rleFirst := 0, id_rleDelta := 0, id_err := False\<rparr>)"

definition id_decodeRLE :: "integerDecoder \<Rightarrow> integerDecoder" where
  "id_decodeRLE d =
     (if length (id_bytes d) = 0 then d
      else if length (id_bytes d) < 8 then d\<lparr>id_err := True\<rparr>
      else let first = Uint64 (take 8 (id_bytes d)); b1 = drop 8 (id_bytes d) in
           case Uvarint b1 of (val, n) \<Rightarrow>
             if n \<le> 0 then d\<lparr>id_err := True\<rparr>
             else case Uvarint (drop (nat n) b1) of (count, m) \<Rightarrow>
               if m \<le> 0 then d\<lparr>id_err := True\<rparr>
               else d\<lparr>id_rleFirst := first, id_rleDelta := val, id_n := i64 (i64_of count + 1), id_i := 0, id_bytes := []\<rparr>)"

definition id_decodePacked :: "simple8b \<Rightarrow> integerDecoder \<Rightarrow> integerDecoder" where
  "id_decodePacked s8 d =
     (if length (id_bytes d) = 0 then d
      else if length (id_bytes d) < 8 then d\<lparr>id_err := True\<rparr>
      else let v = Uint64 (take 8 (id_bytes d));
               d1 = (if id_first d then d\<lparr>id_first := False, id_n := 1, id_values := [v]\<rparr>
                     else case s8_Decode s8 v of (vs, err) \<Rightarrow>
                       (if err \<noteq> None then d\<lparr>id_err := True\<rparr> else d)\<lparr>id_values := vs, id_n := int (length vs)\<rparr>)
           in d1\<lparr>id_i := 0, id_bytes := drop 8 (id_bytes d1)\<rparr>)"

definition id_decodeUncompressed :: "integerDecoder \<Rightarrow> integerDecoder" where
  "id_decodeUncompressed d =
     (if length (id_bytes d) = 0 then d
      else if length (id_bytes d) < 8 then d\<lparr>id_err := True\<rparr>
      else d\<lparr>id_values := [Uint64 (take 8 (id_bytes d))], id_i := 0, id_n := 1, id_bytes := drop 8 (id_bytes d)\<rparr>)"

definition id_Next :: "simple8b \<Rightarrow> integerDecoder \<Rightarrow> bool \<times> integerDecoder" where
  "id_Next s8 d =
     (if id_i d \<ge> id_n d \<and> length (id_bytes d) = 0 then (False, d)
      else let d1 = d\<lparr>id_i := id_i d + 1\<rparr>;
               d2 = (if id_i d1 \<ge> id_n d1
                     then if id_encoding d1 = intUncompressed then id_decodeUncompressed d1
                          else if id_encoding d1 = intCompressedSimple then id_decodePacked s8 d1
                          else if id_encoding d1 = intCompressedRLE then id_decodeRLE d1
                          else d1\<lparr>id_err := True\<rparr>
                     else d1)
           in (\<not> id_err d2 \<and> id_i d2 < id_n d2, d2))"

definition id_Read :: "integerDecoder \<Rightarrow> int \<times> integerDecoder" where
  "id_Read d =
     (if id_encoding d = intCompressedRLE
      then (i64 (ZigZagDecode (id_rleFirst d) + i64 (id_i d * ZigZagDecode (id_rleDelta d))), d)
      else let v = i64 (ZigZagDecode (id_values d ! nat (id_i d)) + id_prev d) in (v, d\<lparr>id_prev := v\<rparr>))"

subsection \<open>Lemmas: zig-zag\<close>

lemma bit_u64_sign: "in_i64 x \<Longrightarrow> bit (u64_of x) 63 \<longleftrightarrow> x < 0"
proof -
  assume x: "in_i64 x"
  have "bit (u64_of x) 63 \<longleftrightarrow> i64_of (u64_of x) < 0"
    using bit_last_iff [of "u64_of x"] by (simp add: i64_of_def)
  then show ?thesis using x by simp
qed

lemma div_2_63:
  assumes "in_i64 x"
  shows "x div 2 ^ 63 = (if x < 0 then -1 else 0)"
proof (cases "x < 0")
  case True
  then have "x div 2 ^ 63 = -1" using assms
    by (intro int_div_pos_eq [where r = "x + 2 ^ 63"]) (auto simp: in_i64_def)
  then show ?thesis using True by simp
next
  case False
  then show ?thesis using assms by (simp add: in_i64_def)
qed

lemma ZigZagDecode_u64: "ZigZagDecode v = i64_of (drop_bit 1 v XOR (if bit v 0 then -1 else 0))"
proof -
  have a: "v AND 1 = of_bool (bit v 0)" by (simp add: and_one_eq bit_0 mod_2_eq_odd)
  have "i64 (i64_of (v AND 1) * 2 ^ 63) div 2 ^ 63 = (if bit v 0 then -1 else 0)"
    by (auto simp: a i64_of_def i64_def)
  then show ?thesis by (simp add: ZigZagDecode_def u64_of_def)
qed

lemma ZigZagDecode_Encode:
  assumes x: "in_i64 x"
  shows "ZigZagDecode (ZigZagEncode x) = x"
proof -
  define w where "w = u64_of x"
  define s :: u64 where "s = (if x < 0 then -1 else 0)"
  define z where "z = push_bit 1 w XOR s"
  have e: "ZigZagEncode x = z" unfolding ZigZagEncode_def div_2_63 [OF x] z_def w_def s_def u64_of_def by simp
  have bs: "bit s n = (n < 64 \<and> x < 0)" for n using bit_imp_le_length [of s n] by (auto simp: s_def)
  have bz: "bit z n = (n < 64 \<and> (1 \<le> n \<and> bit w (n - 1)) \<noteq> (x < 0))" for n
    unfolding z_def bit_xor_iff bit_push_bit_iff bs by (auto simp: possible_bit_word)
  have "drop_bit 1 z XOR s = w"
  proof (rule bit_eqI)
    fix n assume "possible_bit TYPE(64 word) n"
    then have n: "n < 64" by (simp add: possible_bit_word)
    then have "n = 63 \<or> 1 + n < 64" by linarith
    then show "bit (drop_bit 1 z XOR s) n = bit w n"
      using n bit_u64_sign [OF x] unfolding bit_xor_iff bit_drop_bit_eq comp_def bs bz w_def by auto
  qed
  moreover have "(if bit z 0 then -1 else 0) = s" by (simp add: bz s_def)
  ultimately show ?thesis using x unfolding e ZigZagDecode_u64 by (simp add: w_def)
qed

subsection \<open>Lemmas: deltas and prefix sums\<close>

fun deltas :: "int \<Rightarrow> int list \<Rightarrow> int list" where
  "deltas p [] = []"
| "deltas p (v # vs) = i64 (v - p) # deltas v vs"

fun prefix_sums :: "int \<Rightarrow> int list \<Rightarrow> int list" where
  "prefix_sums p [] = []"
| "prefix_sums p (x # xs) = i64 (x + p) # prefix_sums (i64 (x + p)) xs"

lemma prefix_sums_deltas: "\<forall>v\<in>set vs. in_i64 v \<Longrightarrow> prefix_sums p (deltas p vs) = vs"
  by (induction p vs rule: deltas.induct) auto

lemma deltas_in_i64: "\<forall>x\<in>set (deltas p vs). in_i64 x"
  by (induction p vs rule: deltas.induct) auto

lemma deltas_snoc: "deltas p (vs @ [v]) = deltas p vs @ [i64 (v - last (p # vs))]"
  by (induction p vs rule: deltas.induct) auto

lemma prefix_sums_replicate:
  "prefix_sums p (replicate m x) = map (\<lambda>k. i64 (p + int (Suc k) * x)) [0..<m]"
proof (induction m arbitrary: p)
  case 0
  then show ?case by simp
next
  case (Suc m)
  have "i64 (i64 (x + p) + int (Suc k) * x) = i64 (p + int (Suc (Suc k)) * x)" for k
    unfolding i64_add_i64 by (simp add: algebra_simps)
  then have "prefix_sums (i64 (x + p)) (replicate m x) = map (\<lambda>k. i64 (p + int (Suc (Suc k)) * x)) [0..<m]"
    using Suc [of "i64 (x + p)"] by simp
  moreover have "map (\<lambda>k. i64 (p + int (Suc k) * x)) [0..<Suc m] =
      i64 (p + x) # map (\<lambda>k. i64 (p + int (Suc (Suc k)) * x)) [0..<m]"
    by (simp add: map_upt_Suc del: upt_Suc)
  ultimately show ?case by (simp add: add.commute)
qed

lemma zz_deltas: "map ZigZagDecode (map ZigZagEncode (deltas p vs)) = deltas p vs"
  using deltas_in_i64 [of p vs] by (auto simp: ZigZagDecode_Encode map_idI)

subsection \<open>Lemmas: the encoder\<close>

definition ie_rep :: "integerEncoder \<Rightarrow> int list \<Rightarrow> bool" where
  "ie_rep e vs \<longleftrightarrow> ie_values e = map ZigZagEncode (deltas 0 vs) \<and> ie_prev e = last (0 # vs) \<and>
     (ie_rle e \<longrightarrow> (\<exists>x. tl (ie_values e) = replicate (length vs - 1) x))"

lemma ie_rep_Reset: "ie_rep (ie_Reset e) []"
  by (simp add: ie_rep_def ie_Reset_def)

lemma length_deltas [simp]: "length (deltas p vs) = length vs"
  by (induction p vs rule: deltas.induct) auto

lemma ie_rep_Write:
  assumes "ie_rep e vs"
  shows "ie_rep (ie_Write v e) (vs @ [v])"
proof -
  let ?enc = "ZigZagEncode (i64 (v - ie_prev e))"
  have vals: "ie_values (ie_Write v e) = ie_values e @ [?enc]" "ie_prev (ie_Write v e) = v"
    by (simp_all add: ie_Write_def Let_def)
  have len: "length (ie_values e) = length vs" using assms by (simp add: ie_rep_def)
  have "\<exists>x. tl (ie_values e @ [?enc]) = replicate (length vs) x" if r: "ie_rle (ie_Write v e)"
  proof (cases "length vs > 1")
    case True
    then have "ie_values e \<noteq> []" using len by auto
    with True r len have l: "ie_rle e" "last (ie_values e) = ?enc"
      by (auto simp: ie_Write_def Let_def last_conv_nth split: if_splits)
    with assms obtain x where x: "tl (ie_values e) = replicate (length vs - 1) x" unfolding ie_rep_def by blast
    have ne: "ie_values e \<noteq> []" "tl (ie_values e) \<noteq> []" using True len x by auto
    then have "last (ie_values e) = x" using x True by (metis last_replicate last_tl replicate_empty)
    then have "tl (ie_values e @ [?enc]) = replicate (length vs - 1) x @ [x]" using x l(2) ne by (simp add: tl_append2)
    also have "\<dots> = replicate (length vs) x" using True by (cases "length vs") (auto simp: replicate_append_same)
    finally show ?thesis by blast
  next
    case False
    then show ?thesis using len by (cases "ie_values e"; cases vs) auto
  qed
  then show ?thesis using assms vals by (simp add: ie_rep_def deltas_snoc)
qed

lemma ie_rep_fold: "ie_rep e vs \<Longrightarrow> ie_rep (fold ie_Write ws e) (vs @ ws)"
proof (induction ws arbitrary: e vs)
  case Nil
  then show ?case by simp
next
  case (Cons w ws)
  from Cons.IH [OF ie_rep_Write [OF Cons.prems, of w]] show ?case by simp
qed

subsection \<open>Lemmas: the decoder\<close>

text \<open>\<open>id_raw\<close>, \<open>id_packed\<close> and \<open>id_run\<close>: the decoder is between two values of the respective format.\<close>

definition id_raw :: "integerDecoder \<Rightarrow> int list \<Rightarrow> bool" where
  "id_raw d vs \<longleftrightarrow> id_encoding d = intUncompressed \<and> id_n d \<le> id_i d + 1 \<and>
     (\<exists>es. id_bytes d = concat (map PutUint64 es) \<and> vs = prefix_sums (id_prev d) (map ZigZagDecode es))"

definition id_packed :: "simple8b \<Rightarrow> integerDecoder \<Rightarrow> int list \<Rightarrow> bool" where
  "id_packed s8 d vs \<longleftrightarrow> id_encoding d = intCompressedSimple \<and> 0 \<le> id_i d \<and> \<not> id_first d \<and>
     id_n d = int (length (id_values d)) \<and> id_i d < id_n d \<and>
     (\<exists>ws. id_bytes d = concat (map PutUint64 ws) \<and>
       (\<forall>w\<in>set ws. snd (s8_Decode s8 w) = None \<and> fst (s8_Decode s8 w) \<noteq> []) \<and>
       vs = prefix_sums (id_prev d) (map ZigZagDecode (drop (Suc (nat (id_i d))) (id_values d) @
              concat (map (\<lambda>w. fst (s8_Decode s8 w)) ws))))"

definition id_start_packed :: "simple8b \<Rightarrow> integerDecoder \<Rightarrow> int list \<Rightarrow> bool" where
  "id_start_packed s8 d vs \<longleftrightarrow> id_encoding d = intCompressedSimple \<and> id_i d = 0 \<and> id_n d = 0 \<and> id_first d \<and>
     (\<exists>e ws. id_bytes d = PutUint64 e @ concat (map PutUint64 ws) \<and>
       (\<forall>w\<in>set ws. snd (s8_Decode s8 w) = None \<and> fst (s8_Decode s8 w) \<noteq> []) \<and>
       vs = prefix_sums (id_prev d) (map ZigZagDecode (e # concat (map (\<lambda>w. fst (s8_Decode s8 w)) ws))))"

definition rle_value :: "u64 \<Rightarrow> u64 \<Rightarrow> int \<Rightarrow> int" where
  "rle_value f x k = i64 (ZigZagDecode f + i64 (k * ZigZagDecode x))"

definition id_run :: "integerDecoder \<Rightarrow> int list \<Rightarrow> bool" where
  "id_run d vs \<longleftrightarrow> id_encoding d = intCompressedRLE \<and> id_bytes d = [] \<and> 0 \<le> id_i d \<and>
     id_n d = id_i d + 1 + int (length vs) \<and>
     vs = map (\<lambda>k. rle_value (id_rleFirst d) (id_rleDelta d) (id_i d + 1 + int k)) [0..<length vs]"

definition id_start_run :: "integerDecoder \<Rightarrow> int list \<Rightarrow> bool" where
  "id_start_run d vs \<longleftrightarrow> id_encoding d = intCompressedRLE \<and> id_i d = 0 \<and> id_n d = 0 \<and> vs \<noteq> [] \<and> length vs < 2 ^ 63 \<and>
     (\<exists>f x. id_bytes d = PutUint64 f @ PutUvarint x @ PutUvarint (of_nat (length vs - 1)) \<and>
       vs = map (\<lambda>k. rle_value f x (int k)) [0..<length vs])"

definition id_yields :: "simple8b \<Rightarrow> integerDecoder \<Rightarrow> int list \<Rightarrow> bool" where
  "id_yields s8 d vs \<longleftrightarrow> \<not> id_err d \<and>
     (id_raw d vs \<or> id_packed s8 d vs \<or> id_start_packed s8 d vs \<or> id_run d vs \<or> id_start_run d vs)"

lemmas int_encodings = intUncompressed_def intCompressedSimple_def intCompressedRLE_def

lemma id_raw_Cons:
  assumes "id_raw d (v # vs)" "\<not> id_err d"
  shows "\<exists>d1 d2. id_Next s8 d = (True, d1) \<and> id_Read d1 = (v, d2) \<and> id_raw d2 vs \<and> \<not> id_err d2"
proof -
  from assms(1) obtain es where es: "id_bytes d = concat (map PutUint64 es)"
    "v # vs = prefix_sums (id_prev d) (map ZigZagDecode es)" and d: "id_encoding d = intUncompressed" "id_n d \<le> id_i d + 1"
    by (auto simp: id_raw_def)
  then obtain e es' where e: "es = e # es'" by (cases es) auto
  let ?d1 = "d\<lparr>id_values := [e], id_i := 0, id_n := 1, id_bytes := concat (map PutUint64 es')\<rparr>"
  have "id_Next s8 d = (True, ?d1)"
    using d es e assms(2) by (simp add: id_Next_def id_decodeUncompressed_def Let_def)
  moreover have "id_Read ?d1 = (v, ?d1\<lparr>id_prev := v\<rparr>)" using d es e by (simp add: id_Read_def int_encodings Let_def)
  moreover have "id_raw (?d1\<lparr>id_prev := v\<rparr>) vs" using d es e by (auto simp: id_raw_def)
  moreover have "\<not> id_err (?d1\<lparr>id_prev := v\<rparr>)" using assms(2) by simp
  ultimately show ?thesis by blast
qed

lemma id_packed_Cons:
  assumes "id_packed s8 d (v # vs)" "\<not> id_err d"
  shows "\<exists>d1 d2. id_Next s8 d = (True, d1) \<and> id_Read d1 = (v, d2) \<and> id_packed s8 d2 vs \<and> \<not> id_err d2"
proof -
  let ?dec = "\<lambda>w. fst (s8_Decode s8 w)"
  from assms(1) obtain ws where ws: "id_bytes d = concat (map PutUint64 ws)"
    "\<forall>w\<in>set ws. snd (s8_Decode s8 w) = None \<and> ?dec w \<noteq> []"
    "v # vs = prefix_sums (id_prev d) (map ZigZagDecode (drop (Suc (nat (id_i d))) (id_values d) @ concat (map ?dec ws)))"
    and d: "id_encoding d = intCompressedSimple" "0 \<le> id_i d" "\<not> id_first d" "id_n d = int (length (id_values d))" "id_i d < id_n d"
    by (auto simp: id_packed_def)
  show ?thesis
  proof (cases "id_i d + 1 < id_n d")
    case True
    let ?d1 = "d\<lparr>id_i := id_i d + 1\<rparr>"
    let ?j = "Suc (nat (id_i d))"
    have j: "nat (id_i d + 1) = ?j" "?j < length (id_values d)" using d True by linarith+
    have dr: "drop ?j (id_values d) = id_values d ! ?j # drop (Suc ?j) (id_values d)" using j(2) by (simp add: Cons_nth_drop_Suc)
    have "id_Next s8 d = (True, ?d1)" using d True assms(2) by (simp add: id_Next_def Let_def)
    moreover have "id_Read ?d1 = (v, ?d1\<lparr>id_prev := v\<rparr>)"
      using d ws(3) dr j(1) by (simp add: id_Read_def int_encodings Let_def)
    moreover have "id_packed s8 (?d1\<lparr>id_prev := v\<rparr>) vs"
      using d True ws dr j(1) unfolding id_packed_def by auto
    moreover have "\<not> id_err (?d1\<lparr>id_prev := v\<rparr>)" using assms(2) by simp
    ultimately show ?thesis by blast
  next
    case False
    then have n: "drop (Suc (nat (id_i d))) (id_values d) = []" using d by auto
    then obtain w ws' where w: "ws = w # ws'" using ws(3) by (cases ws) auto
    obtain u us where u: "?dec w = u # us" using ws(2) w by (cases "?dec w") auto
    have ok: "s8_Decode s8 w = (u # us, None)" using ws(2) w u by (metis list.set_intros(1) prod.collapse)
    let ?d1 = "d\<lparr>id_values := u # us, id_n := int (length (u # us)), id_i := 0, id_bytes := concat (map PutUint64 ws')\<rparr>"
    have "id_Next s8 d = (True, ?d1)"
      using d False assms(2) ws(1) w ok by (simp add: id_Next_def id_decodePacked_def Let_def int_encodings)
    moreover have "id_Read ?d1 = (v, ?d1\<lparr>id_prev := v\<rparr>)"
      using d ws(3) n w u by (simp add: id_Read_def int_encodings Let_def)
    moreover have "id_packed s8 (?d1\<lparr>id_prev := v\<rparr>) vs"
      using d ws n w u unfolding id_packed_def by auto
    moreover have "\<not> id_err (?d1\<lparr>id_prev := v\<rparr>)" using assms(2) by simp
    ultimately show ?thesis by blast
  qed
qed

lemma id_start_packed_Cons:
  assumes "id_start_packed s8 d (v # vs)" "\<not> id_err d"
  shows "\<exists>d1 d2. id_Next s8 d = (True, d1) \<and> id_Read d1 = (v, d2) \<and> id_packed s8 d2 vs \<and> \<not> id_err d2"
proof -
  let ?dec = "\<lambda>w. fst (s8_Decode s8 w)"
  from assms(1) obtain e ws where ws: "id_bytes d = PutUint64 e @ concat (map PutUint64 ws)"
    "\<forall>w\<in>set ws. snd (s8_Decode s8 w) = None \<and> ?dec w \<noteq> []"
    "v # vs = prefix_sums (id_prev d) (map ZigZagDecode (e # concat (map ?dec ws)))"
    and d: "id_encoding d = intCompressedSimple" "id_i d = 0" "id_first d" "id_n d = 0"
    by (auto simp: id_start_packed_def)
  let ?d1 = "d\<lparr>id_first := False, id_n := 1, id_values := [e], id_i := 0, id_bytes := concat (map PutUint64 ws)\<rparr>"
  have "id_Next s8 d = (True, ?d1)"
    using d assms(2) ws(1) by (simp add: id_Next_def id_decodePacked_def Let_def int_encodings)
  moreover have "id_Read ?d1 = (v, ?d1\<lparr>id_prev := v\<rparr>)"
    using d ws(3) by (simp add: id_Read_def int_encodings Let_def)
  moreover have "id_packed s8 (?d1\<lparr>id_prev := v\<rparr>) vs"
    using d ws unfolding id_packed_def by auto
  moreover have "\<not> id_err (?d1\<lparr>id_prev := v\<rparr>)" using assms(2) by simp
  ultimately show ?thesis by blast
qed

lemma rle_values_Cons:
  assumes "v # vs = map (\<lambda>k. f (i + int k)) [0..<length (v # vs)]"
  shows "v = f i" "vs = map (\<lambda>k. f (i + 1 + int k)) [0..<length vs]"
proof -
  have "map (\<lambda>k. f (i + int k)) [0..<Suc (length vs)] = f i # map (\<lambda>k. f (i + 1 + int k)) [0..<length vs]"
    by (simp add: map_upt_Suc algebra_simps del: upt_Suc)
  then show "v = f i" "vs = map (\<lambda>k. f (i + 1 + int k)) [0..<length vs]" using assms by simp_all
qed

lemma id_run_Cons:
  assumes "id_run d (v # vs)" "\<not> id_err d"
  shows "\<exists>d1 d2. id_Next s8 d = (True, d1) \<and> id_Read d1 = (v, d2) \<and> id_run d2 vs \<and> \<not> id_err d2"
proof -
  let ?f = "rle_value (id_rleFirst d) (id_rleDelta d)" and ?d = "d\<lparr>id_i := id_i d + 1\<rparr>"
  from assms(1) have d: "id_encoding d = intCompressedRLE" "id_bytes d = []" "0 \<le> id_i d" "id_n d = id_i d + 2 + int (length vs)"
    and v: "v # vs = map (\<lambda>k. ?f (id_i d + 1 + int k)) [0..<length (v # vs)]" by (auto simp: id_run_def)
  note c = rle_values_Cons [OF v]
  have "id_Next s8 d = (True, ?d)" using d assms(2) by (simp add: id_Next_def Let_def)
  moreover have "id_Read ?d = (v, ?d)" using d c(1) by (simp add: id_Read_def rle_value_def)
  moreover have "id_run ?d vs" using d c(2) by (simp add: id_run_def)
  ultimately show ?thesis using assms(2) by auto
qed

lemma id_start_run_Cons:
  assumes "id_start_run d (v # vs)" "\<not> id_err d"
  shows "\<exists>d1 d2. id_Next s8 d = (True, d1) \<and> id_Read d1 = (v, d2) \<and> id_run d2 vs \<and> \<not> id_err d2"
proof -
  from assms(1) obtain f x where b: "id_bytes d = PutUint64 f @ PutUvarint x @ PutUvarint (of_nat (length vs))"
    and v: "v # vs = map (\<lambda>k. rle_value f x (0 + int k)) [0..<length (v # vs)]"
    and d: "id_encoding d = intCompressedRLE" "id_i d = 0" "id_n d = 0" and len: "Suc (length vs) < 2 ^ 63"
    by (auto simp: id_start_run_def)
  note c = rle_values_Cons [OF v]
  have n: "i64_of (of_nat (length vs)) = int (length vs)" using len by (intro i64_of_of_nat) simp
  have "int (Suc (length vs)) < int (2 ^ 63)" using len unfolding of_nat_less_iff .
  then have n1: "i64 (int (length vs) + 1) = int (length vs) + 1" by (intro i64_id) (simp add: in_i64_def)
  have u2: "Uvarint (PutUvarint (of_nat (length vs))) = (of_nat (length vs), int (length (PutUvarint (of_nat (length vs)))))"
    using Uvarint_PutUvarint [of "of_nat (length vs)" "[]"] by simp
  let ?d1 = "d\<lparr>id_i := 0, id_rleFirst := f, id_rleDelta := x, id_n := int (length vs) + 1, id_bytes := []\<rparr>"
  have r: "id_decodeRLE (d\<lparr>id_i := 1\<rparr>) = ?d1"
    using b n n1 length_PutUvarint_pos [of x] length_PutUvarint_pos [of "of_nat (length vs)"]
    by (simp add: id_decodeRLE_def Let_def Uvarint_PutUvarint u2)
  have "id_Next s8 d = (True, ?d1)" using d b assms(2) r by (simp add: id_Next_def Let_def int_encodings)
  moreover have "id_Read ?d1 = (v, ?d1)" using d c(1) by (simp add: id_Read_def rle_value_def)
  moreover have "id_run ?d1 vs" using d c(2) by (simp add: id_run_def)
  ultimately show ?thesis using assms(2) by auto
qed

lemma id_yields_Nil:
  assumes "id_yields s8 d []"
  shows "\<exists>d1. id_Next s8 d = (False, d1) \<and> \<not> id_err d1"
proof -
  have p: "[] = prefix_sums p xs \<longleftrightarrow> xs = []" for p xs by (cases xs) auto
  from assms consider "id_raw d []" | "id_packed s8 d []" | "id_run d []" and "\<not> id_err d"
    by (auto simp: id_yields_def id_start_packed_def id_start_run_def)
  then show ?thesis
  proof cases
    case 1
    then have "id_bytes d = []" "id_n d \<le> id_i d + 1" "id_encoding d = intUncompressed" by (auto simp: id_raw_def p)
    then show ?thesis using assms by (auto simp: id_Next_def id_decodeUncompressed_def id_yields_def Let_def)
  next
    case 2
    then obtain ws where ws: "id_bytes d = concat (map PutUint64 ws)" "drop (Suc (nat (id_i d))) (id_values d) = []"
      "concat (map (\<lambda>w. fst (s8_Decode s8 w)) ws) = []" "\<forall>w\<in>set ws. fst (s8_Decode s8 w) \<noteq> []"
      and d: "0 \<le> id_i d" "id_n d = int (length (id_values d))" "id_encoding d = intCompressedSimple" by (auto simp: id_packed_def p)
    then have "ws = []" by (cases ws) auto
    moreover have "id_n d \<le> id_i d + 1" using ws(2) d by simp
    ultimately show ?thesis using ws d assms by (auto simp: id_Next_def id_decodePacked_def id_yields_def Let_def int_encodings)
  next
    case 3
    then show ?thesis by (auto simp: id_run_def id_Next_def id_decodeRLE_def Let_def int_encodings)
  qed
qed

interpretation int_dec: decoder "id_Next s8" id_Read id_err "id_yields s8" for s8
proof unfold_locales
  fix d v vs assume y: "id_yields s8 d (v # vs)"
  then have "\<not> id_err d" by (simp add: id_yields_def)
  with y show "\<exists>d1 d2. id_Next s8 d = (True, d1) \<and> id_Read d1 = (v, d2) \<and> id_yields s8 d2 vs"
    using id_raw_Cons [of d v vs s8] id_packed_Cons [of s8 d v vs] id_start_packed_Cons [of s8 d v vs]
      id_run_Cons [of d v vs s8] id_start_run_Cons [of d v vs s8]
    unfolding id_yields_def by blast
next
  fix d assume "id_yields s8 d []"
  then show "\<exists>d1. id_Next s8 d = (False, d1) \<and> \<not> id_err d1" by (rule id_yields_Nil)
next
  fix d vs assume "id_yields s8 d vs"
  then show "\<not> id_err d" by (simp add: id_yields_def)
qed

definition encode_ints :: "simple8b \<Rightarrow> integerEncoder \<Rightarrow> int list \<Rightarrow> string + bytes" where
  "encode_ints s8 e vs = ie_Bytes s8 (fold ie_Write vs (ie_Reset e))"

lemma drop_bit_header:
  "drop_bit 4 (push_bit 4 intUncompressed) = intUncompressed" "drop_bit 4 (push_bit 4 intCompressedSimple) = intCompressedSimple"
  "drop_bit 4 (push_bit 4 intCompressedRLE) = intCompressedRLE"
  by (simp_all add: int_encodings)

lemma id_SetBytes_Cons:
  "id_SetBytes (b # bs) d = d\<lparr>id_encoding := drop_bit 4 b, id_bytes := bs, id_i := 0, id_n := 0, id_prev := 0, id_first := True,
     id_rleFirst := 0, id_rleDelta := 0, id_err := False\<rparr>"
  by (simp add: id_SetBytes_def)

lemma id_SetBytes_RLE:
  assumes rep: "ie_rep e vs" "ie_rle e" "length vs > 2" and vs: "\<forall>v\<in>set vs. in_i64 v" "length vs < 2 ^ 63"
  shows "id_yields s8 (id_SetBytes (ie_encodeRLE e) d) vs"
proof -
  let ?zs = "map ZigZagEncode (deltas 0 vs)"
  from rep obtain x where x: "ie_values e = ?zs" "tl ?zs = replicate (length vs - 1) x" by (auto simp: ie_rep_def)
  define f where "f = hd ?zs"
  have len: "length ?zs = length vs" by simp
  then have zs: "?zs = f # replicate (length vs - 1) x" using x(2) rep(3) f_def by (cases ?zs) auto
  have "vs = prefix_sums 0 (map ZigZagDecode ?zs)" unfolding zz_deltas using prefix_sums_deltas vs(1) by metis
  also have "\<dots> = i64 (ZigZagDecode f) # prefix_sums (i64 (ZigZagDecode f)) (replicate (length vs - 1) (ZigZagDecode x))"
    unfolding zs by simp
  also have "\<dots> = map (\<lambda>k. rle_value f x (int k)) [0..<Suc (length vs - 1)]"
    by (simp add: prefix_sums_replicate map_upt_Suc rle_value_def del: upt_Suc)
  also have "Suc (length vs - 1) = length vs" using rep(3) by simp
  finally have v: "vs = map (\<lambda>k. rle_value f x (int k)) [0..<length vs]" .
  have ne: "vs \<noteq> []" using rep(3) by auto
  have i1: "ie_values e ! 0 = f" "ie_values e ! 1 = x" using x(1) zs rep(3) by (simp_all add: nth_Cons')
  have "id_start_run (id_SetBytes (ie_encodeRLE e) d) vs"
    unfolding id_start_run_def ie_encodeRLE_def i1 using v vs(2) ne x(1) drop_bit_header(3)
    by (simp add: id_SetBytes_Cons) blast
  then show ?thesis by (simp add: id_yields_def ie_encodeRLE_def id_SetBytes_Cons)
qed

lemma id_SetBytes_Nil: "id_raw (id_SetBytes [] d) []"
  by (auto simp: id_SetBytes_def id_raw_def int_encodings intro!: exI [of _ "[]"])

lemma id_SetBytes_raw:
  assumes "ie_rep e vs" "\<forall>v\<in>set vs. in_i64 v"
  shows "id_yields s8 (id_SetBytes (ie_encodeUncompressed e) d) vs"
proof -
  have p: "vs = prefix_sums 0 (map ZigZagDecode (ie_values e))"
    using assms zz_deltas prefix_sums_deltas by (metis ie_rep_def)
  have "id_raw (id_SetBytes (ie_encodeUncompressed e) d) vs"
  proof (cases "ie_values e")
    case Nil
    then show ?thesis using p id_SetBytes_Nil by (simp add: ie_encodeUncompressed_def)
  next
    case (Cons a list)
    then show ?thesis using p drop_bit_header(1) by (auto simp: ie_encodeUncompressed_def id_SetBytes_Cons id_raw_def intro!: exI [of _ "ie_values e"])
  qed
  then show ?thesis by (simp add: id_yields_def id_SetBytes_def Let_def)
qed

lemma id_SetBytes_packed:
  assumes rep: "ie_rep e vs" "\<forall>v\<in>set vs. in_i64 v" and s8: "simple8b_ok s8" and max: "\<forall>v\<in>set (ie_values e). v \<le> s8_MaxValue s8"
  shows "\<exists>b. ie_encodePacked s8 e = Inr b \<and> id_yields s8 (id_SetBytes b d) vs"
proof -
  have p: "vs = prefix_sums 0 (map ZigZagDecode (ie_values e))"
    using rep zz_deltas prefix_sums_deltas by (metis ie_rep_def)
  show ?thesis
  proof (cases "ie_values e")
    case Nil
    then show ?thesis using p id_SetBytes_Nil by (simp add: ie_encodePacked_def id_yields_def) (simp add: id_SetBytes_def)
  next
    case (Cons z zs)
    then have "\<forall>v\<in>set zs. v \<le> s8_MaxValue s8" using max by simp
    then obtain ws where ws: "s8_Encode s8 zs = Inr ws" "\<forall>w\<in>set ws. snd (s8_Decode s8 w) = None \<and> fst (s8_Decode s8 w) \<noteq> []"
      "concat (map (\<lambda>w. fst (s8_Decode s8 w)) ws) = zs" using s8 unfolding simple8b_ok_def by blast
    let ?b = "[push_bit 4 intCompressedSimple] @ PutUint64 z @ concat (map PutUint64 ws)"
    have "ie_encodePacked s8 e = Inr ?b" using Cons ws(1) by (simp add: ie_encodePacked_def)
    moreover have "id_start_packed s8 (id_SetBytes ?b d) vs"
      using p Cons ws drop_bit_header(2) unfolding id_start_packed_def
      by (auto simp: id_SetBytes_Cons intro!: exI [of _ z] exI [of _ ws])
    ultimately show ?thesis by (auto simp: id_yields_def id_SetBytes_Cons)
  qed
qed

lemma id_SetBytes_encode:
  assumes "simple8b_ok s8" "\<forall>v\<in>set vs. in_i64 v" "length vs < 2 ^ 63"
  shows "\<exists>b. encode_ints s8 e vs = Inr b \<and> id_yields s8 (id_SetBytes b d) vs"
proof -
  let ?e = "fold ie_Write vs (ie_Reset e)"
  have rep: "ie_rep ?e vs" using ie_rep_fold [OF ie_rep_Reset, of vs e] by simp
  have len: "length (ie_values ?e) = length vs" using rep by (simp add: ie_rep_def)
  consider (rle) "ie_rle ?e" "length vs > 2" | (raw) "\<not> (ie_rle ?e \<and> length vs > 2)" "list_ex (\<lambda>v. v > s8_MaxValue s8) (ie_values ?e)"
    | (packed) "\<not> (ie_rle ?e \<and> length vs > 2)" "\<not> list_ex (\<lambda>v. v > s8_MaxValue s8) (ie_values ?e)" by blast
  then show ?thesis
  proof cases
    case rle
    then show ?thesis using id_SetBytes_RLE [OF rep rle assms(2,3)] len by (simp add: encode_ints_def ie_Bytes_def)
  next
    case raw
    then show ?thesis using id_SetBytes_raw [OF rep assms(2)] len by (auto simp: encode_ints_def ie_Bytes_def)
  next
    case packed
    then have "\<forall>v\<in>set (ie_values ?e). v \<le> s8_MaxValue s8" by (auto simp: list_ex_iff not_less)
    from id_SetBytes_packed [OF rep assms(2,1) this] show ?thesis using packed len by (auto simp: encode_ints_def ie_Bytes_def)
  qed
qed

lemma ZigZagEncode_uint:
  assumes x: "in_i64 x"
  shows "uint (ZigZagEncode x) = (if 0 \<le> x then 2 * x else - 2 * x - 1)"
proof -
  have "ZigZagEncode x = word_of_int (if 0 \<le> x then 2 * x else - 2 * x - 1)"
  proof (cases "0 \<le> x")
    case True
    then show ?thesis unfolding ZigZagEncode_def div_2_63 [OF x] by (simp add: u64_of_def)
  next
    case False
    then have "ZigZagEncode x = NOT (word_of_int (2 * x))" unfolding ZigZagEncode_def div_2_63 [OF x] by (simp add: u64_of_def mult.commute)
    also have "\<dots> = word_of_int (- 2 * x - 1)" by (simp add: not_eq_complement)
    finally show ?thesis using False by simp
  qed
  moreover have "0 \<le> (if 0 \<le> x then 2 * x else - 2 * x - 1)" "(if 0 \<le> x then 2 * x else - 2 * x - 1) < 2 ^ 64"
    using x by (auto simp: in_i64_def)
  ultimately show ?thesis by (simp add: uint_word_of_int_eq take_bit_int_eq_self)
qed

subsection \<open>Properties\<close>

text \<open>The zig-zag mapping sends the signed 64-bit integers 0, -1, 1, -2, ... to 0, 1, 2, 3, ... and decoding undoes it,
  for the whole range.\<close>

theorem ZigZag_roundtrip:
  assumes "in_i64 x"
  shows "uint (ZigZagEncode x) = (if 0 \<le> x then 2 * x else - 2 * x - 1) \<and> ZigZagDecode (ZigZagEncode x) = x"
  using ZigZagEncode_uint [OF assms] ZigZagDecode_Encode [OF assms] by blast

theorem ZigZag_roundtrip_witness: "uint (ZigZagEncode (-2)) = 3 \<and> ZigZagDecode (ZigZagEncode (-2)) = -2"
  using ZigZag_roundtrip [of "-2"] by (simp add: in_i64_def)

text \<open>Encoding any sequence of 64-bit integers succeeds and decoding gives the sequence back, whichever of the
  three formats the encoder chooses; differences that overflow wrap around and are undone by wrapping.\<close>

theorem int_roundtrip:
  assumes "simple8b_ok s8" "\<forall>v\<in>set vs. in_i64 v" "length vs < 2 ^ 63"
  shows "\<exists>b d'. ie_Bytes s8 (fold ie_Write vs (ie_Reset e)) = Inr b \<and>
    read_all (id_Next s8) id_Read (length vs + 1) (id_SetBytes b d) = Some (vs, d') \<and> \<not> id_err d'"
proof -
  obtain b where b: "ie_Bytes s8 (fold ie_Write vs (ie_Reset e)) = Inr b" "id_yields s8 (id_SetBytes b d) vs"
    using id_SetBytes_encode [OF assms, of e d] by (auto simp: encode_ints_def)
  from int_dec.read_all_yields [OF b(2), of "length vs + 1"] b(1) show ?thesis by auto
qed

theorem int_roundtrip_witness:
  "\<exists>b d'. ie_Bytes plain_simple8b (fold ie_Write [5, -3, MaxInt64, MinInt64] (ie_Reset NewIntegerEncoder)) = Inr b \<and>
    read_all (id_Next plain_simple8b) id_Read (length [5, -3, MaxInt64, MinInt64] + 1) (id_SetBytes b
      \<lparr>id_values = [], id_bytes = [], id_i = 0, id_n = 0, id_prev = 0, id_first = False, id_rleFirst = 0, id_rleDelta = 0,
       id_encoding = 0, id_err = False\<rparr>) = Some ([5, -3, MaxInt64, MinInt64], d') \<and> \<not> id_err d'"
  by (rule int_roundtrip) (simp_all add: plain_simple8b_ok in_i64_def MaxInt64_def MinInt64_def)

end
