(* ===== verification/Time_Codec.thy ===== *)
theory Time_Codec
  imports Decoder Simple8b
begin

text \<open>
  The timestamp codec, \<^verbatim>\<open>tsdb/engine/tsm1/timestamp.go\<close>: deltas, scaled by the largest power of ten that
  divides all of them, stored as a run length, as packed words or uncompressed.

  The divisor is one of the thirteen powers of ten up to \<^verbatim>\<open>1e12\<close>, on which \<^verbatim>\<open>byte(math.Log10(...))\<close> and
  \<^verbatim>\<open>math.Pow10\<close> are exact; \<open>log10\<close> is the integer logarithm. The byte buffer of the encoder is only reused
  storage and is left out.
\<close>

unbundle bit_operations_syntax

subsection \<open>The encoder\<close>

record timeEncoder =
  te_ts :: "u64 list"

definition timeUncompressed :: byte where "timeUncompressed = 0"
definition timeCompressedPackedSimple :: byte where "timeCompressedPackedSimple = 1"
definition timeCompressedRLE :: byte where "timeCompressedRLE = 2"

definition te_Reset :: "timeEncoder \<Rightarrow> timeEncoder" where
  "te_Reset e = e\<lparr>te_ts := []\<rparr>"

definition te_Write :: "int \<Rightarrow> timeEncoder \<Rightarrow> timeEncoder" where
  "te_Write t e = e\<lparr>te_ts := te_ts e @ [u64_of t]\<rparr>"

text \<open>The inner loop of \<^verbatim>\<open>reduce\<close>: divide by ten until the value is a multiple.\<close>

fun scale :: "u64 \<Rightarrow> nat \<Rightarrow> nat" where
  "scale v divisor = (if divisor > 1 \<and> unat v mod divisor \<noteq> 0 then scale v (divisor div 10) else divisor)"

text \<open>
  One round of the outer loop of \<^verbatim>\<open>reduce\<close>, which runs from the last delta to the first; the last
  component is \<^verbatim>\<open>deltas[i+1]\<close>, \<open>None\<close> in the first round.
\<close>

definition reduce_step :: "u64 \<Rightarrow> u64 \<times> nat \<times> bool \<times> u64 option \<Rightarrow> u64 \<times> nat \<times> bool \<times> u64 option" where
  "reduce_step v = (\<lambda>(mx, divisor, rle, nxt).
     (if v > mx then v else mx, scale v divisor, nxt = None \<or> rle \<and> nxt = Some v, Some v))"

definition diffs :: "u64 list \<Rightarrow> u64 list" where
  "diffs ts = map2 (-) (tl ts) ts"

definition te_reduce :: "timeEncoder \<Rightarrow> (u64 \<times> nat \<times> bool \<times> u64 list) \<times> timeEncoder" where
  "te_reduce e =
     (let ds = (case te_ts e of [] \<Rightarrow> [] | t # _ \<Rightarrow> t # diffs (te_ts e)) in
      case foldr reduce_step (diffs (te_ts e)) (0, 10 ^ 12, True, None) of
        (mx, divisor, rle, _) \<Rightarrow> ((mx, divisor, rle, ds), e\<lparr>te_ts := ds\<rparr>))"

fun log10 :: "nat \<Rightarrow> nat" where
  "log10 n = (if n < 10 then 0 else Suc (log10 (n div 10)))"

definition te_encodePacked :: "simple8b \<Rightarrow> nat \<Rightarrow> u64 list \<Rightarrow> string + bytes" where
  "te_encodePacked s8 divisor dts =
     (case s8_EncodeBytes s8 (if divisor > 1 then map (\<lambda>v. v div of_nat divisor) (drop 1 dts) else drop 1 dts) of
        Inl e \<Rightarrow> Inl e
      | Inr deltas \<Rightarrow> Inr ([push_bit 4 timeCompressedPackedSimple OR of_nat (log10 divisor)] @ PutUint64 (dts ! 0) @ deltas))"

definition te_encodeRaw :: "timeEncoder \<Rightarrow> bytes" where
  "te_encodeRaw e = [push_bit 4 timeUncompressed] @ concat (map PutUint64 (te_ts e))"

definition te_encodeRLE :: "u64 \<Rightarrow> u64 \<Rightarrow> nat \<Rightarrow> nat \<Rightarrow> bytes" where
  "te_encodeRLE first delta divisor n =
     [push_bit 4 timeCompressedRLE OR of_nat (log10 divisor)] @ PutUint64 first @ PutUvarint (delta div of_nat divisor) @ PutUvarint (of_nat n)"

definition te_Bytes :: "simple8b \<Rightarrow> timeEncoder \<Rightarrow> (string + bytes) \<times> timeEncoder" where
  "te_Bytes s8 e =
     (if length (te_ts e) = 0 then (Inr [], e)
      else case te_reduce e of ((mx, divisor, rle, dts), e1) \<Rightarrow>
        if rle \<and> length (te_ts e1) > 1
        then (Inr (te_encodeRLE (te_ts e1 ! 0) (te_ts e1 ! 1) divisor (length (te_ts e1))), e1)
        else if mx > s8_MaxValue s8 then (Inr (te_encodeRaw e1), e1)
        else (te_encodePacked s8 divisor dts, e1))"

subsection \<open>The decoder\<close>

record timeDecoder =
  td_v :: int
  td_i :: int
  td_n :: int
  td_ts :: "u64 list"
  td_err :: bool
  td_rleDelta :: int
  td_encoding :: byte

text \<open>Prefix sums: the loops that turn deltas back into timestamps.\<close>

fun psums :: "u64 \<Rightarrow> u64 list \<Rightarrow> u64 list" where
  "psums p [] = []"
| "psums p (x # xs) = (p + x) # psums (p + x) xs"

definition td_decodePacked :: "simple8b \<Rightarrow> bytes \<Rightarrow> timeDecoder \<Rightarrow> timeDecoder" where
  "td_decodePacked s8 b d =
     (if length b < 9 then d\<lparr>td_err := True\<rparr>
      else let divisor = 10 ^ unat (b ! 0 AND 15);
               first = Uint64 (take 8 (drop 1 b));
               deltas = s8_DecodeBytes s8 (drop 9 b)
           in d\<lparr>td_i := 0, td_ts := first # psums first (if divisor > 1 then map (\<lambda>x. x * of_nat divisor) deltas else deltas)\<rparr>)"

definition td_decodeRLE :: "bytes \<Rightarrow> timeDecoder \<Rightarrow> timeDecoder" where
  "td_decodeRLE b d =
     (if length b < 9 then d\<lparr>td_err := True\<rparr>
      else let md = 10 ^ unat (b ! 0 AND 15);
               first = Uint64 (take 8 (drop 1 b)); b1 = drop 9 b
           in case Uvarint b1 of (val, n) \<Rightarrow>
             if n \<le> 0 then d\<lparr>td_err := True\<rparr>
             else let val' = val * of_nat md in
               case Uvarint (drop (nat n) b1) of (count, m) \<Rightarrow>
                 if m \<le> 0 then d\<lparr>td_err := True\<rparr>
                 else d\<lparr>td_v := i64_of (first - val'), td_rleDelta := i64_of val', td_i := -1, td_n := i64_of count\<rparr>)"

definition td_decodeRaw :: "bytes \<Rightarrow> timeDecoder \<Rightarrow> timeDecoder" where
  "td_decodeRaw b d = d\<lparr>td_i := 0, td_ts := (case words_of b of [] \<Rightarrow> [] | t # xs \<Rightarrow> t # psums t xs)\<rparr>"

definition td_decode :: "simple8b \<Rightarrow> bytes \<Rightarrow> timeDecoder \<Rightarrow> timeDecoder" where
  "td_decode s8 b d =
     (if length b = 0 then d
      else if td_encoding d = timeUncompressed then td_decodeRaw (drop 1 b) d
      else if td_encoding d = timeCompressedRLE then td_decodeRLE b d
      else if td_encoding d = timeCompressedPackedSimple then td_decodePacked s8 b d
      else d\<lparr>td_err := True\<rparr>)"

definition td_Init :: "simple8b \<Rightarrow> bytes \<Rightarrow> timeDecoder \<Rightarrow> timeDecoder" where
  "td_Init s8 b d =
     (let d1 = d\<lparr>td_v := 0, td_i := 0, td_ts := [], td_err := False\<rparr>;
          d2 = (if length b > 0 then d1\<lparr>td_encoding := drop_bit 4 (b ! 0)\<rparr> else d1)
      in td_decode s8 b d2)"

definition td_Next :: "timeDecoder \<Rightarrow> bool \<times> timeDecoder" where
  "td_Next d =
     (if td_err d then (False, d)
      else if td_encoding d = timeCompressedRLE then
        if td_i d \<ge> td_n d then (False, d)
        else let d1 = d\<lparr>td_i := td_i d + 1, td_v := i64 (td_v d + td_rleDelta d)\<rparr> in (td_i d1 < td_n d1, d1)
      else if td_i d \<ge> int (length (td_ts d)) then (False, d)
      else (True, d\<lparr>td_v := i64_of (td_ts d ! nat (td_i d)), td_i := td_i d + 1\<rparr>))"

definition td_Read :: "timeDecoder \<Rightarrow> int \<times> timeDecoder" where
  "td_Read d = (td_v d, d)"

definition CountTimestamps :: "simple8b \<Rightarrow> bytes \<Rightarrow> int" where
  "CountTimestamps s8 b =
     (if length b = 0 then 0
      else let encoding = drop_bit 4 (b ! 0) in
           if encoding = timeUncompressed then int (length (drop 1 b)) div 8
           else if encoding = timeCompressedRLE then
             i64_of (fst (Uvarint (drop (nat (9 + snd (Uvarint (drop 9 b)))) b)))
           else if encoding = timeCompressedPackedSimple then s8_CountBytes s8 (drop 9 b) + 1
           else 0)"

subsection \<open>Lemmas: deltas\<close>

declare scale.simps [simp del] log10.simps [simp del]

lemma diffs_simps [simp]: "diffs [] = []" "diffs [t] = []" "diffs (t # u # ts) = (u - t) # diffs (u # ts)"
  by (simp_all add: diffs_def)

lemma psums_diffs: "psums t (diffs (t # ts)) = ts"
  by (induction ts arbitrary: t) auto

lemma length_diffs [simp]: "length (diffs ts) = length ts - 1"
  by (simp add: diffs_def)

lemma scale_power: "\<exists>j\<le>k. scale v (10 ^ k) = 10 ^ j \<and> 10 ^ j dvd unat v"
proof (induction k)
  case 0
  then show ?case by (subst scale.simps) simp
next
  case (Suc k)
  show ?case
  proof (cases "unat v mod 10 ^ Suc k = 0")
    case True
    then show ?thesis by (intro exI [of _ "Suc k"]) (subst scale.simps, auto simp: dvd_eq_mod_eq_0)
  next
    case False
    moreover have "1 < (10 :: nat) ^ Suc k" by (rule power_gt1) simp
    ultimately have "scale v (10 ^ Suc k) = scale v (10 ^ k)" by (subst scale.simps) simp
    then show ?thesis using Suc by (auto intro: le_SucI)
  qed
qed

lemma log10_power [simp]: "log10 (10 ^ k) = k"
  by (induction k) (subst log10.simps, simp)+

lemma reduce_spec:
  assumes "foldr reduce_step ds (0, 10 ^ 12, True, None) = (mx, divisor, rle, nxt)"
  shows "(\<forall>v\<in>set ds. v \<le> mx) \<and> (\<exists>j\<le>12. divisor = 10 ^ j \<and> (\<forall>v\<in>set ds. 10 ^ j dvd unat v)) \<and>
    (rle \<longrightarrow> (\<forall>v\<in>set ds. v = hd ds)) \<and> nxt = (case ds of [] \<Rightarrow> None | v # _ \<Rightarrow> Some v)"
  using assms
proof (induction ds arbitrary: mx divisor rle nxt)
  case Nil
  then show ?case by auto
next
  case (Cons v ds)
  obtain m d r x where f: "foldr reduce_step ds (0, 10 ^ 12, True, None) = (m, d, r, x)" by (metis prod_cases4)
  note ih = Cons.IH [OF f]
  then obtain j where j: "j \<le> 12" "d = 10 ^ j" "\<forall>v\<in>set ds. 10 ^ j dvd unat v" by blast
  obtain i where i: "i \<le> j" "scale v (10 ^ j) = 10 ^ i" "10 ^ i dvd unat v" using scale_power by blast
  have "reduce_step v (m, d, r, x) = (mx, divisor, rle, nxt)" using Cons.prems f by (simp only: foldr.simps comp_apply)
  then have res: "mx = (if v > m then v else m)" "divisor = 10 ^ i" "rle = (x = None \<or> r \<and> x = Some v)" "nxt = Some v"
    using i(2) unfolding j(2) reduce_step_def by (simp_all only: prod.case prod.inject, auto)
  have "(10 :: nat) ^ i dvd 10 ^ j" using i(1) by (rule le_imp_power_dvd)
  then have "\<forall>w\<in>set (v # ds). 10 ^ i dvd unat w" using i(3) j(3) by (auto intro: dvd_trans)
  moreover have "\<forall>w\<in>set (v # ds). w \<le> mx" using ih res(1) by (auto intro: order_trans less_imp_le)
  moreover have "rle \<longrightarrow> (\<forall>w\<in>set (v # ds). w = v)" using ih res(3) by (cases ds) auto
  ultimately show ?case using res i(1) j(1) by (auto intro!: exI [of _ i])
qed

lemma scaled_back:
  fixes v :: u64
  assumes "10 ^ j dvd unat v" "j \<le> 12"
  shows "v div of_nat (10 ^ j) * of_nat (10 ^ j) = v"
proof -
  have "(10 :: nat) ^ j \<le> 10 ^ 12" using assms(2) by (intro power_increasing) auto
  then have "(10 :: nat) ^ j < 2 ^ 64" by simp
  then have u: "unat (of_nat (10 ^ j) :: u64) = 10 ^ j" by (subst unat_of_nat) simp
  have "v div of_nat (10 ^ j) = of_nat (unat v div 10 ^ j)" by (metis u unat_div of_nat_unat ucast_id)
  also have "\<dots> * of_nat (10 ^ j) = of_nat (unat v div 10 ^ j * 10 ^ j)" by simp
  also have "unat v div 10 ^ j * 10 ^ j = unat v" using assms(1) by simp
  finally show ?thesis by simp
qed

lemma header_bits:
  assumes "j \<le> 12"
  shows "drop_bit 4 (push_bit 4 timeCompressedPackedSimple OR of_nat j) = timeCompressedPackedSimple"
    "drop_bit 4 (push_bit 4 timeCompressedRLE OR of_nat j) = timeCompressedRLE"
    "unat ((push_bit 4 timeCompressedPackedSimple OR of_nat j :: byte) AND 15) = j"
    "unat ((push_bit 4 timeCompressedRLE OR of_nat j :: byte) AND 15) = j"
proof -
  have "j \<in> {0, 1, 2, 3, 4, 5, 6, 7, 8, 9, 10, 11, 12}" using assms unfolding insert_iff empty_iff by presburger
  then show "drop_bit 4 (push_bit 4 timeCompressedPackedSimple OR of_nat j) = timeCompressedPackedSimple"
    "drop_bit 4 (push_bit 4 timeCompressedRLE OR of_nat j) = timeCompressedRLE"
    "unat ((push_bit 4 timeCompressedPackedSimple OR of_nat j :: byte) AND 15) = j"
    "unat ((push_bit 4 timeCompressedRLE OR of_nat j :: byte) AND 15) = j"
    by (auto simp: timeCompressedPackedSimple_def timeCompressedRLE_def)
qed

subsection \<open>Lemmas: the decoder\<close>

definition td_list :: "timeDecoder \<Rightarrow> int list \<Rightarrow> bool" where
  "td_list d vs \<longleftrightarrow> td_encoding d \<noteq> timeCompressedRLE \<and> 0 \<le> td_i d \<and> vs = map i64_of (drop (nat (td_i d)) (td_ts d))"

definition td_run :: "timeDecoder \<Rightarrow> int list \<Rightarrow> bool" where
  "td_run d vs \<longleftrightarrow> td_encoding d = timeCompressedRLE \<and> td_n d = td_i d + 1 + int (length vs) \<and>
     vs = map i64_of (psums (u64_of (td_v d)) (replicate (length vs) (u64_of (td_rleDelta d))))"

definition td_yields :: "timeDecoder \<Rightarrow> int list \<Rightarrow> bool" where
  "td_yields d vs \<longleftrightarrow> \<not> td_err d \<and> (td_list d vs \<or> td_run d vs)"

interpretation time_dec: decoder td_Next td_Read td_err td_yields
proof unfold_locales
  fix d v vs assume y: "td_yields d (v # vs)"
  then have e: "\<not> td_err d" by (simp add: td_yields_def)
  from y consider (l) "td_list d (v # vs)" | (r) "td_run d (v # vs)" by (auto simp: td_yields_def)
  then show "\<exists>d1 d2. td_Next d = (True, d1) \<and> td_Read d1 = (v, d2) \<and> td_yields d2 vs"
  proof cases
    case l
    let ?k = "nat (td_i d)" and ?d = "d\<lparr>td_v := v, td_i := td_i d + 1\<rparr>"
    have k: "?k < length (td_ts d)" using l by (cases "?k < length (td_ts d)") (auto simp: td_list_def)
    then have dr: "drop ?k (td_ts d) = td_ts d ! ?k # drop (Suc ?k) (td_ts d)" by (simp add: Cons_nth_drop_Suc)
    have "td_Next d = (True, ?d)" using l e k dr by (auto simp: td_Next_def td_list_def)
    moreover have "td_list ?d vs" using l dr by (auto simp: td_list_def nat_add_distrib)
    ultimately show ?thesis using e by (auto simp: td_Read_def td_yields_def)
  next
    case r
    let ?d = "d\<lparr>td_i := td_i d + 1, td_v := i64 (td_v d + td_rleDelta d)\<rparr>"
    have v: "v = i64_of (u64_of (td_v d) + u64_of (td_rleDelta d))"
      "vs = map i64_of (psums (u64_of (td_v d) + u64_of (td_rleDelta d)) (replicate (length vs) (u64_of (td_rleDelta d))))"
      using r by (simp_all add: td_run_def)
    have "td_Next d = (True, ?d)" using r e by (simp add: td_Next_def td_run_def Let_def)
    moreover have "i64 (td_v d + td_rleDelta d) = v" using v(1) by (simp add: i64_u64 u64_of_add)
    moreover have "td_run ?d vs" using r v(2) by (simp add: td_run_def u64_of_add)
    ultimately show ?thesis using e by (auto simp: td_Read_def td_yields_def)
  qed
next
  fix d assume "td_yields d []"
  then show "\<exists>d1. td_Next d = (False, d1) \<and> \<not> td_err d1"
    by (auto simp: td_yields_def td_list_def td_run_def td_Next_def Let_def)
next
  fix d vs assume "td_yields d vs"
  then show "\<not> td_err d" by (simp add: td_yields_def)
qed

lemma td_Init_Cons:
  "td_Init s8 (b # bs) d = td_decode s8 (b # bs) (d\<lparr>td_v := 0, td_i := 0, td_ts := [], td_err := False, td_encoding := drop_bit 4 b\<rparr>)"
  by (simp add: td_Init_def)

lemmas time_encodings = timeUncompressed_def timeCompressedPackedSimple_def timeCompressedRLE_def

lemma words_of_decodeRaw: "td_ts (td_decodeRaw (concat (map PutUint64 (t # diffs (t # ts)))) d) = t # ts"
  unfolding td_decodeRaw_def words_of_PutUint64 by (simp add: psums_diffs)

lemma psums_scaled:
  assumes "j \<le> 12" "\<forall>v\<in>set ds. 10 ^ j dvd unat v"
  shows "map (\<lambda>x. x * of_nat (10 ^ j)) (map (\<lambda>v. v div of_nat (10 ^ j)) ds) = (ds :: u64 list)"
  using assms scaled_back by (auto intro!: map_idI)

lemma td_Init_raw: "td_yields (td_Init s8 (te_encodeRaw \<lparr>te_ts = t # diffs (t # ts)\<rparr>) d) (map i64_of (t # ts))"
proof -
  let ?b = "concat (map PutUint64 (t # diffs (t # ts)))"
  have "td_Init s8 (te_encodeRaw \<lparr>te_ts = t # diffs (t # ts)\<rparr>) d =
    td_decodeRaw ?b (d\<lparr>td_v := 0, td_i := 0, td_ts := [], td_err := False, td_encoding := timeUncompressed\<rparr>)"
    unfolding te_encodeRaw_def append_Cons append_Nil td_Init_Cons
    by (simp add: td_decode_def timeUncompressed_def)
  moreover have "td_list (td_decodeRaw ?b e) (map i64_of (t # ts))" if "td_encoding e = timeUncompressed" for e
    unfolding td_list_def words_of_decodeRaw using that by (simp add: td_decodeRaw_def time_encodings)
  ultimately show ?thesis by (simp add: td_yields_def td_decodeRaw_def)
qed

lemma td_Init_packed:
  assumes s8: "simple8b_ok s8" and j: "j \<le> 12" "\<forall>v\<in>set (diffs (t # ts)). 10 ^ j dvd unat v"
    and mx: "\<forall>v\<in>set (diffs (t # ts)). v \<le> mx" "\<not> mx > s8_MaxValue s8"
  shows "\<exists>b. te_encodePacked s8 (10 ^ j) (t # diffs (t # ts)) = Inr b \<and> td_yields (td_Init s8 b d) (map i64_of (t # ts)) \<and>
    CountTimestamps s8 b = int (length (t # ts))"
proof -
  let ?ds = "diffs (t # ts)"
  define es where "es = (if (10 :: nat) ^ j > 1 then map (\<lambda>v. v div of_nat (10 ^ j)) ?ds else ?ds)"
  have "v div w \<le> v" for v w :: u64 by (simp add: word_le_nat_alt unat_div div_le_dividend)
  then have "\<forall>v\<in>set es. v \<le> s8_MaxValue s8" using mx by (force simp: es_def not_less intro: order_trans split: if_splits)
  then obtain bs where bs: "s8_EncodeBytes s8 es = Inr bs" "s8_DecodeBytes s8 bs = es" "s8_CountBytes s8 bs = int (length es)"
    using s8 unfolding simple8b_ok_def by blast
  define h :: byte where "h = push_bit 4 timeCompressedPackedSimple OR of_nat j"
  have h: "drop_bit 4 h = timeCompressedPackedSimple" "unat (h AND 15) = j" unfolding h_def using header_bits [OF j(1)] by simp_all
  let ?b = "h # PutUint64 t @ bs"
  have enc: "te_encodePacked s8 (10 ^ j) (t # ?ds) = Inr ?b"
    using bs(1) by (simp add: te_encodePacked_def es_def h_def split: if_splits)
  have scaled: "(if (10 :: nat) ^ j > 1 then map (\<lambda>x. x * of_nat (10 ^ j)) es else es) = ?ds"
    unfolding es_def using psums_scaled [OF j] by simp
  have "td_Init s8 ?b d = td_decodePacked s8 ?b (d\<lparr>td_v := 0, td_i := 0, td_ts := [], td_err := False, td_encoding := timeCompressedPackedSimple\<rparr>)"
    unfolding td_Init_Cons h(1) by (simp add: td_decode_def time_encodings)
  also have "\<dots> = d\<lparr>td_v := 0, td_err := False, td_encoding := timeCompressedPackedSimple, td_i := 0, td_ts := t # psums t ?ds\<rparr>"
    unfolding td_decodePacked_def by (simp add: h(2) bs(2) scaled [symmetric] Let_def)
  finally have "td_yields (td_Init s8 ?b d) (map i64_of (t # ts))"
    by (simp add: td_yields_def td_list_def psums_diffs time_encodings)
  moreover have "CountTimestamps s8 ?b = int (length (t # ts))"
    unfolding CountTimestamps_def by (simp add: h(1) bs(3) time_encodings es_def Let_def)
  ultimately show ?thesis using enc by blast
qed

lemma td_Init_RLE:
  assumes j: "j \<le> 12" "10 ^ j dvd unat x" and ds: "diffs (t # ts) = replicate (length ts) x" and len: "Suc (length ts) < 2 ^ 63"
  shows "td_yields (td_Init s8 (te_encodeRLE t x (10 ^ j) (Suc (length ts))) d) (map i64_of (t # ts)) \<and>
    CountTimestamps s8 (te_encodeRLE t x (10 ^ j) (Suc (length ts))) = int (length (t # ts))"
proof -
  define h :: byte where "h = push_bit 4 timeCompressedRLE OR of_nat j"
  have h: "drop_bit 4 h = timeCompressedRLE" "unat (h AND 15) = j" unfolding h_def using header_bits [OF j(1)] by simp_all
  let ?v = "x div of_nat (10 ^ j)" and ?n = "of_nat (Suc (length ts)) :: u64"
  let ?b = "h # PutUint64 t @ PutUvarint ?v @ PutUvarint ?n"
  have b: "te_encodeRLE t x (10 ^ j) (Suc (length ts)) = ?b" by (simp only: te_encodeRLE_def log10_power append_Cons append_Nil h_def)
  have n: "i64_of ?n = int (Suc (length ts))" using len by (rule i64_of_of_nat)
  have u1: "Uvarint (PutUvarint ?v @ PutUvarint ?n) = (?v, int (length (PutUvarint ?v)))" by (rule Uvarint_PutUvarint)
  have u2: "Uvarint (PutUvarint ?n) = (?n, int (length (PutUvarint ?n)))" using Uvarint_PutUvarint [of ?n "[]"] by simp
  have x: "?v * of_nat (10 ^ j) = x" using scaled_back [OF j(2,1)] .
  define e where "e = d\<lparr>td_v := 0, td_i := 0, td_ts := [], td_err := False, td_encoding := timeCompressedRLE\<rparr>"
  have "td_Init s8 ?b d = td_decodeRLE ?b e"
    unfolding td_Init_Cons h(1) e_def by (simp add: td_decode_def time_encodings)
  also have "\<dots> = e\<lparr>td_v := i64_of (t - x), td_rleDelta := i64_of x, td_i := -1, td_n := int (Suc (length ts))\<rparr>"
    using length_PutUvarint_pos [of ?v] length_PutUvarint_pos [of ?n]
    unfolding td_decodeRLE_def by (simp only: Let_def) (simp add: h(2) u1 u2 x n del: of_nat_Suc of_nat_power)
  finally have i: "td_Init s8 ?b d = \<dots>" .
  have "psums (t - x) (replicate (Suc (length ts)) x) = t # ts" using psums_diffs [of t ts] ds by simp
  then have "td_yields (td_Init s8 ?b d) (map i64_of (t # ts))" unfolding i e_def by (simp add: td_yields_def td_run_def)
  moreover have "CountTimestamps s8 ?b = int (length (t # ts))"
  proof -
    have "nat (9 + int (length (PutUvarint ?v))) = length (h # PutUint64 t @ PutUvarint ?v)" by simp
    moreover have "drop (length (h # PutUint64 t @ PutUvarint ?v)) ((h # PutUint64 t @ PutUvarint ?v) @ PutUvarint ?n) = PutUvarint ?n"
      by (rule drop_append_exact) (rule refl)
    ultimately have "drop (nat (9 + int (length (PutUvarint ?v)))) ?b = PutUvarint ?n" by (simp only: append_Cons append_assoc)
    then show ?thesis unfolding CountTimestamps_def by (simp only: Let_def) (simp add: h(1) u1 u2 n time_encodings del: of_nat_Suc of_nat_power)
  qed
  ultimately show ?thesis using b by simp
qed

definition encode_times :: "simple8b \<Rightarrow> timeEncoder \<Rightarrow> int list \<Rightarrow> string + bytes" where
  "encode_times s8 e ts = fst (te_Bytes s8 (fold te_Write ts (te_Reset e)))"

lemma te_ts_fold: "te_ts (fold te_Write ts e) = te_ts e @ map u64_of ts"
  by (induction ts arbitrary: e) (simp_all add: te_Write_def)

lemma te_Bytes_encode:
  assumes s8: "simple8b_ok s8" and ts: "te_ts e = t # ts" and len: "Suc (length ts) < 2 ^ 63"
  shows "\<exists>b. fst (te_Bytes s8 e) = Inr b \<and> td_yields (td_Init s8 b d) (map i64_of (t # ts)) \<and> CountTimestamps s8 b = int (length (t # ts))"
proof -
  obtain mx divisor rle nxt where f: "foldr reduce_step (diffs (t # ts)) (0, 10 ^ 12, True, None) = (mx, divisor, rle, nxt)"
    by (metis prod_cases4)
  note r = reduce_spec [OF f]
  then obtain j where j: "j \<le> 12" "divisor = 10 ^ j" "\<forall>v\<in>set (diffs (t # ts)). 10 ^ j dvd unat v" by blast
  let ?e1 = "e\<lparr>te_ts := t # diffs (t # ts)\<rparr>"
  have red: "te_reduce e = ((mx, divisor, rle, t # diffs (t # ts)), ?e1)" unfolding te_reduce_def ts f by (simp add: Let_def)
  have e1: "?e1 = \<lparr>te_ts = t # diffs (t # ts)\<rparr>" by (cases e) simp
  consider (rle) "rle" "ts \<noteq> []" | (raw) "\<not> (rle \<and> ts \<noteq> [])" "mx > s8_MaxValue s8" | (packed) "\<not> (rle \<and> ts \<noteq> [])" "\<not> mx > s8_MaxValue s8" by blast
  then show ?thesis
  proof cases
    case rle
    define x where "x = hd (diffs (t # ts))"
    have "length (diffs (t # ts)) = length ts" by simp
    moreover have "\<forall>v\<in>set (diffs (t # ts)). v = x" using r rle(1) by (simp add: x_def)
    ultimately have ds: "diffs (t # ts) = replicate (length ts) x" by (metis replicate_eqI)
    then have x: "10 ^ j dvd unat x" "(t # diffs (t # ts)) ! 1 = x" using j(3) rle(2) by (cases ts; simp)+
    have "fst (te_Bytes s8 e) = Inr (te_encodeRLE t x (10 ^ j) (Suc (length ts)))"
      using rle red ts x(2) j(2) by (simp add: te_Bytes_def)
    then show ?thesis using td_Init_RLE [OF j(1) x(1) ds len, of s8 d] by auto
  next
    case raw
    have "fst (te_Bytes s8 e) = Inr (te_encodeRaw \<lparr>te_ts = t # diffs (t # ts)\<rparr>)"
      using raw red ts unfolding e1 by (auto simp: te_Bytes_def)
    moreover have "CountTimestamps s8 (te_encodeRaw \<lparr>te_ts = t # diffs (t # ts)\<rparr>) = int (length (t # ts))"
      by (simp add: CountTimestamps_def te_encodeRaw_def time_encodings)
    ultimately show ?thesis using td_Init_raw [of s8 t ts d] by auto
  next
    case packed
    have "fst (te_Bytes s8 e) = te_encodePacked s8 divisor (t # diffs (t # ts))"
      using packed red ts by (auto simp: te_Bytes_def)
    then show ?thesis using td_Init_packed [OF s8 j(1,3) _ packed(2), of d] r j(2) by auto
  qed
qed

lemma encode_times_yields:
  assumes "simple8b_ok s8" "ts \<noteq> []" "\<forall>t\<in>set ts. in_i64 t" "length ts < 2 ^ 63"
  shows "\<exists>b. encode_times s8 e ts = Inr b \<and> td_yields (td_Init s8 b d) ts \<and> CountTimestamps s8 b = int (length ts)"
proof -
  have ids: "map i64_of (map u64_of ts) = ts" using assms(3) by (auto intro!: map_idI)
  obtain t us where us: "map u64_of ts = t # us" using assms(2) by (cases ts) auto
  have l: "length ts = Suc (length us)" using arg_cong [OF us, of length] by simp
  have "te_ts (fold te_Write ts (te_Reset e)) = t # us" using us by (simp add: te_ts_fold te_Reset_def)
  from te_Bytes_encode [OF assms(1) this, of d] show ?thesis
    using ids us l assms(4) unfolding encode_times_def by (simp del: list.map)
qed

subsection \<open>Properties\<close>

text \<open>Encoding any non-empty sequence of timestamps succeeds; decoding gives it back in whichever of the three
  formats the encoder chose, and the number of timestamps can be read from the encoding without decoding it.
  Sortedness is not needed: differences that overflow wrap around and are undone.\<close>

theorem time_roundtrip:
  assumes "simple8b_ok s8" "ts \<noteq> []" "\<forall>t\<in>set ts. in_i64 t" "length ts < 2 ^ 63"
  shows "\<exists>b d'. fst (te_Bytes s8 (fold te_Write ts (te_Reset e))) = Inr b \<and>
    read_all td_Next td_Read (length ts + 1) (td_Init s8 b d) = Some (ts, d') \<and> \<not> td_err d' \<and>
    CountTimestamps s8 b = int (length ts)"
proof -
  obtain b where b: "fst (te_Bytes s8 (fold te_Write ts (te_Reset e))) = Inr b" "td_yields (td_Init s8 b d) ts"
    "CountTimestamps s8 b = int (length ts)" using encode_times_yields [OF assms, of e d] by (auto simp: encode_times_def)
  from time_dec.read_all_yields [OF b(2), of "length ts + 1"] b(1,3) show ?thesis by auto
qed

theorem time_roundtrip_witness:
  "\<exists>b d'. fst (te_Bytes plain_simple8b (fold te_Write [1000, 2000, 3000] (te_Reset \<lparr>te_ts = []\<rparr>))) = Inr b \<and>
    read_all td_Next td_Read (length [1000, 2000, 3000 :: int] + 1) (td_Init plain_simple8b b
      \<lparr>td_v = 0, td_i = 0, td_n = 0, td_ts = [], td_err = False, td_rleDelta = 0, td_encoding = 0\<rparr>) = Some ([1000, 2000, 3000], d') \<and>
    \<not> td_err d' \<and> CountTimestamps plain_simple8b b = int (length [1000, 2000, 3000 :: int])"
  by (rule time_roundtrip) (simp_all add: plain_simple8b_ok in_i64_def)

end
