(* ===== verification/String_Codec.thy ===== *)
theory String_Codec
  imports Decoder
begin

text \<open>
  The string codec, \<^verbatim>\<open>tsdb/engine/tsm1/string.go\<close>: strings behind variable-length lengths, compressed as a
  whole. The compression library (\<^verbatim>\<open>github.com/golang/snappy\<close>) is an argument of the codec;
  \<open>snappy_ok\<close> says that decoding undoes encoding. A Go string is a list of bytes.
\<close>

record snappy =
  snappy_Encode :: "bytes \<Rightarrow> bytes"
  snappy_Decode :: "bytes \<Rightarrow> string + bytes"

definition snappy_ok :: "snappy \<Rightarrow> bool" where
  "snappy_ok sn \<longleftrightarrow> (\<forall>b. snappy_Decode sn (snappy_Encode sn b) = Inr b)"

text \<open>Storing the bytes as they are meets the assumption.\<close>

definition plain_snappy :: snappy where
  "plain_snappy = \<lparr>snappy_Encode = id, snappy_Decode = Inr\<rparr>"

lemma plain_snappy_ok: "snappy_ok plain_snappy"
  by (simp add: snappy_ok_def plain_snappy_def)

subsection \<open>The encoder\<close>

record stringEncoder =
  se_bytes :: bytes

definition stringCompressedSnappy :: byte where "stringCompressedSnappy = 1"

definition se_Reset :: "stringEncoder \<Rightarrow> stringEncoder" where
  "se_Reset e = e\<lparr>se_bytes := []\<rparr>"

definition se_Write :: "bytes \<Rightarrow> stringEncoder \<Rightarrow> stringEncoder" where
  "se_Write s e =
     (let e1 = e\<lparr>se_bytes := se_bytes e @ PutUvarint (of_nat (length s))\<rparr>
      in e1\<lparr>se_bytes := se_bytes e1 @ s\<rparr>)"

definition se_Bytes :: "snappy \<Rightarrow> stringEncoder \<Rightarrow> bytes" where
  "se_Bytes sn e = [push_bit 4 stringCompressedSnappy] @ snappy_Encode sn (se_bytes e)"

subsection \<open>The decoder\<close>

record stringDecoder =
  sd_b :: bytes
  sd_l :: int
  sd_i :: int
  sd_err :: bool

definition sd_SetBytes :: "snappy \<Rightarrow> bytes \<Rightarrow> stringDecoder \<Rightarrow> (string + unit) \<times> stringDecoder" where
  "sd_SetBytes sn b e =
     (case (if length b > 0 then snappy_Decode sn (drop 1 b) else Inr []) of
        Inl err \<Rightarrow> (Inl err, e)
      | Inr data \<Rightarrow> (Inr (), e\<lparr>sd_b := data, sd_l := 0, sd_i := 0, sd_err := False\<rparr>))"

definition sd_Next :: "stringDecoder \<Rightarrow> bool \<times> stringDecoder" where
  "sd_Next e =
     (if sd_err e then (False, e)
      else let e1 = e\<lparr>sd_i := i64 (sd_i e + sd_l e)\<rparr> in (sd_i e1 < int (length (sd_b e1)), e1))"

definition sd_Read :: "stringDecoder \<Rightarrow> bytes \<times> stringDecoder" where
  "sd_Read e =
     (case Uvarint (drop (nat (sd_i e)) (sd_b e)) of (len, n) \<Rightarrow>
        if n \<le> 0 then ([], e\<lparr>sd_err := True\<rparr>)
        else let e1 = e\<lparr>sd_l := i64 (i64_of len + n)\<rparr>;
                 lower = i64 (sd_i e + n); upper = i64 (lower + i64_of len)
             in if upper < lower then ([], e1\<lparr>sd_err := True\<rparr>)
                else if upper > int (length (sd_b e)) then ([], e1\<lparr>sd_err := True\<rparr>)
                else (drop (nat lower) (take (nat upper) (sd_b e)), e1))"

subsection \<open>Lemmas\<close>

definition enc_string :: "bytes \<Rightarrow> bytes" where
  "enc_string s = PutUvarint (of_nat (length s)) @ s"

lemma se_bytes_fold: "se_bytes (fold se_Write ss e) = se_bytes e @ concat (map enc_string ss)"
  by (induction ss arbitrary: e) (simp_all add: se_Write_def enc_string_def)

definition sd_yields :: "stringDecoder \<Rightarrow> bytes list \<Rightarrow> bool" where
  "sd_yields d ss \<longleftrightarrow> \<not> sd_err d \<and> 0 \<le> sd_i d \<and> 0 \<le> sd_l d \<and> int (length (sd_b d)) < 2 ^ 63 \<and>
     sd_i d + sd_l d \<le> int (length (sd_b d)) \<and> drop (nat (sd_i d + sd_l d)) (sd_b d) = concat (map enc_string ss)"

lemma sd_step:
  assumes "0 \<le> i" "int (length b) < 2 ^ 63" "i \<le> int (length b)" "drop (nat i) b = enc_string s @ rest"
  shows "\<exists>k. sd_Read \<lparr>sd_b = b, sd_l = l, sd_i = i, sd_err = False\<rparr> = (s, \<lparr>sd_b = b, sd_l = k, sd_i = i, sd_err = False\<rparr>) \<and>
    0 \<le> k \<and> i + k \<le> int (length b) \<and> drop (nat (i + k)) b = rest \<and> i < int (length b)"
proof -
  let ?p = "PutUvarint (of_nat (length s))"
  define n where "n = int (length ?p)"
  have n: "0 < n" using length_PutUvarint_pos by (simp add: n_def)
  have "length (drop (nat i) b) = length ?p + length s + length rest" using assms(4) by (simp add: enc_string_def)
  then have len: "int (length b) = i + n + int (length s) + int (length rest)" using assms(1,3) by (simp add: n_def)
  have s: "i64_of (of_nat (length s)) = int (length s)"
  proof -
    have "int (length s) < int (2 ^ 63)" using len assms(1,2) n by simp
    then have "length s < 2 ^ 63" unfolding of_nat_less_iff .
    then show ?thesis by (rule i64_of_of_nat)
  qed
  have ids: "i64 (int (length s) + n) = int (length s) + n" "i64 (i + n) = i + n" "i64 (i + n + int (length s)) = i + n + int (length s)"
    using len assms(1,2) n by (auto intro!: i64_id simp: in_i64_def)
  have b: "b = take (nat i) b @ ?p @ s @ rest" using append_take_drop_id [of "nat i" b] assms(4) by (simp add: enc_string_def)
  have li: "length (take (nat i) b) = nat i" using assms(1,3) by simp
  have d1: "drop (nat (i + n)) b = s @ rest"
  proof -
    have "nat (i + n) = length (take (nat i) b @ ?p)" using li assms(1) by (simp add: n_def nat_add_distrib)
    then show ?thesis by (subst b) (metis append.assoc drop_append_exact)
  qed
  have "drop (nat (i + n)) (take (nat (i + n + int (length s))) b) = take (length s) (drop (nat (i + n)) b)"
    using assms(1) n by (simp add: drop_take nat_add_distrib)
  then have v: "drop (nat (i + n)) (take (nat (i + n + int (length s))) b) = s" using d1 by simp
  have u: "Uvarint (drop (nat i) b) = (of_nat (length s), n)" unfolding assms(4) enc_string_def append.assoc Uvarint_PutUvarint n_def ..
  let ?k = "int (length s) + n"
  have "drop (nat (i + ?k)) b = drop (length s) (drop (nat (i + n)) b)"
    using assms(1) n by (simp add: nat_add_distrib algebra_simps)
  then have "drop (nat (i + ?k)) b = rest" using d1 by simp
  moreover have "sd_Read \<lparr>sd_b = b, sd_l = l, sd_i = i, sd_err = False\<rparr> = (s, \<lparr>sd_b = b, sd_l = ?k, sd_i = i, sd_err = False\<rparr>)"
    using n len by (simp add: sd_Read_def u s ids v Let_def)
  ultimately show ?thesis using n len assms(1) by (intro exI [of _ ?k]) simp
qed

interpretation string_dec: decoder sd_Next sd_Read sd_err sd_yields
proof unfold_locales
  fix d s ss assume y: "sd_yields d (s # ss)"
  let ?i = "sd_i d + sd_l d"
  have d: "0 \<le> ?i" "int (length (sd_b d)) < 2 ^ 63" "?i \<le> int (length (sd_b d))" "\<not> sd_err d"
    "drop (nat ?i) (sd_b d) = enc_string s @ concat (map enc_string ss)" using y by (auto simp: sd_yields_def)
  from sd_step [OF d(1,2,3,5), of "sd_l d"] obtain k where
    k: "sd_Read \<lparr>sd_b = sd_b d, sd_l = sd_l d, sd_i = ?i, sd_err = False\<rparr> = (s, \<lparr>sd_b = sd_b d, sd_l = k, sd_i = ?i, sd_err = False\<rparr>)"
      "0 \<le> k" "?i + k \<le> int (length (sd_b d))" "drop (nat (?i + k)) (sd_b d) = concat (map enc_string ss)" "?i < int (length (sd_b d))"
    by blast
  have "i64 ?i = ?i" using d by (intro i64_id) (simp add: in_i64_def)
  then have "sd_Next d = (True, \<lparr>sd_b = sd_b d, sd_l = sd_l d, sd_i = ?i, sd_err = False\<rparr>)"
    using d(4) k(5) by (cases d) (simp add: sd_Next_def)
  moreover have "sd_yields \<lparr>sd_b = sd_b d, sd_l = k, sd_i = ?i, sd_err = False\<rparr> ss"
    using k d by (simp add: sd_yields_def)
  ultimately show "\<exists>d1 d2. sd_Next d = (True, d1) \<and> sd_Read d1 = (s, d2) \<and> sd_yields d2 ss" using k(1) by blast
next
  fix d assume y: "sd_yields d []"
  then have "i64 (sd_i d + sd_l d) = sd_i d + sd_l d" by (intro i64_id) (auto simp: sd_yields_def in_i64_def)
  then show "\<exists>d1. sd_Next d = (False, d1) \<and> \<not> sd_err d1" using y by (auto simp: sd_yields_def sd_Next_def)
next
  fix d ss assume "sd_yields d ss"
  then show "\<not> sd_err d" by (simp add: sd_yields_def)
qed

definition encode_strings :: "snappy \<Rightarrow> stringEncoder \<Rightarrow> bytes list \<Rightarrow> bytes" where
  "encode_strings sn e ss = se_Bytes sn (fold se_Write ss (se_Reset e))"

lemma sd_SetBytes_encode:
  assumes "snappy_ok sn" "int (length (concat (map enc_string ss))) < 2 ^ 63"
  shows "\<exists>d'. sd_SetBytes sn (encode_strings sn e ss) d = (Inr (), d') \<and> sd_yields d' ss"
  using assms
  by (simp add: encode_strings_def se_Bytes_def sd_SetBytes_def snappy_ok_def se_bytes_fold se_Reset_def sd_yields_def)

subsection \<open>Properties\<close>

text \<open>Decoding encoded strings gives them back, empty strings and arbitrary bytes included, provided the compressor is
  lossless.\<close>

theorem string_roundtrip:
  assumes "snappy_ok sn" "int (length (concat (map enc_string ss))) < 2 ^ 63"
  shows "\<exists>d1 d2. sd_SetBytes sn (se_Bytes sn (fold se_Write ss (se_Reset e))) d = (Inr (), d1) \<and>
    read_all sd_Next sd_Read (length ss + 1) d1 = Some (ss, d2) \<and> \<not> sd_err d2"
proof -
  obtain d1 where d1: "sd_SetBytes sn (se_Bytes sn (fold se_Write ss (se_Reset e))) d = (Inr (), d1)" "sd_yields d1 ss"
    using sd_SetBytes_encode [OF assms, of e d] by (auto simp: encode_strings_def)
  from string_dec.read_all_yields [OF d1(2), of "length ss + 1"] d1(1) show ?thesis by auto
qed

theorem string_roundtrip_witness:
  "\<exists>d1 d2. sd_SetBytes plain_snappy (se_Bytes plain_snappy (fold se_Write [[104, 105], []] (se_Reset \<lparr>se_bytes = []\<rparr>)))
      \<lparr>sd_b = [], sd_l = 0, sd_i = 0, sd_err = False\<rparr> = (Inr (), d1) \<and>
    read_all sd_Next sd_Read (length [[104, 105 :: byte], []] + 1) d1 = Some ([[104, 105], []], d2) \<and> \<not> sd_err d2"
  by (rule string_roundtrip) (simp_all add: plain_snappy_ok enc_string_def PutUvarint_def putUvarint_nat.simps)

end
