(* ===== verification/Bit_Reader.thy ===== *)
theory Bit_Reader
  imports Prelude
begin

text \<open>
  The bit reader, \<^verbatim>\<open>tsdb/engine/tsm1/bit_reader.go\<close>: bits are taken from the top of a 64-bit buffer that is
  refilled from a byte slice. The abstraction \<open>br_bits\<close> is the sequence of bits still to be read; every
  read takes a prefix of it.
\<close>

unbundle bit_operations_syntax

record bitReader =
  br_data :: bytes
  br_v :: u64
  br_n :: nat

text \<open>The loop that appends bytes below the bits in the buffer.\<close>

fun fill :: "bytes \<Rightarrow> u64 \<Rightarrow> nat \<Rightarrow> u64 \<times> nat" where
  "fill [] v n = (v, n)"
| "fill (b # bs) v n = fill bs (v OR push_bit (64 - (n + 8)) (ucast b)) (n + 8)"

definition readBuf :: "bitReader \<Rightarrow> bitReader" where
  "readBuf r =
     (let byteN = min (8 - br_n r div 8) (length (br_data r)); d = br_data r in
      if byteN = 8 then
        \<lparr>br_data = drop 8 d,
         br_v = ucast (d ! 7) OR push_bit 8 (ucast (d ! 6)) OR push_bit 16 (ucast (d ! 5)) OR push_bit 24 (ucast (d ! 4)) OR
           push_bit 32 (ucast (d ! 3)) OR push_bit 40 (ucast (d ! 2)) OR push_bit 48 (ucast (d ! 1)) OR push_bit 56 (ucast (d ! 0)),
         br_n = 64\<rparr>
      else case fill (take byteN d) (br_v r) (br_n r) of (v, n) \<Rightarrow> \<lparr>br_data = drop byteN d, br_v = v, br_n = n\<rparr>)"

definition br_Reset :: "bytes \<Rightarrow> bitReader \<Rightarrow> bitReader" where
  "br_Reset data r = readBuf (r\<lparr>br_data := data, br_v := 0, br_n := 0\<rparr>)"

definition CanReadBitFast :: "bitReader \<Rightarrow> bool" where
  "CanReadBitFast r \<longleftrightarrow> br_n r > 1"

definition ReadBitFast :: "bitReader \<Rightarrow> bool \<times> bitReader" where
  "ReadBitFast r = (br_v r AND push_bit 63 1 \<noteq> 0, r\<lparr>br_v := push_bit 1 (br_v r), br_n := br_n r - 1\<rparr>)"

definition refill :: "bitReader \<Rightarrow> bitReader" where
  "refill r = (if br_n r = 0 then readBuf r else r)"

definition ReadBits :: "nat \<Rightarrow> bitReader \<Rightarrow> (string + u64) \<times> bitReader" where
  "ReadBits nbits r =
     (if br_n r = 0 then (Inl ''EOF'', r)
      else if nbits \<le> br_n r then
        (if nbits = 64 then (Inr (br_v r), readBuf (r\<lparr>br_v := 0, br_n := 0\<rparr>))
         else (Inr (drop_bit (64 - nbits) (br_v r)),
               refill (r\<lparr>br_v := push_bit nbits (br_v r), br_n := br_n r - nbits\<rparr>)))
      else
        let r1 = readBuf (r\<lparr>br_v := 0, br_n := 0\<rparr>);
            v = drop_bit (64 - nbits) (br_v r OR drop_bit (br_n r) (br_v r1));
            bufN = min (nbits - br_n r) (br_n r1)
        in (Inr v, refill (r1\<lparr>br_v := push_bit bufN (br_v r1), br_n := br_n r1 - bufN\<rparr>)))"

definition ReadBit :: "bitReader \<Rightarrow> (string + bool) \<times> bitReader" where
  "ReadBit r = (case ReadBits 1 r of (Inl e, r1) \<Rightarrow> (Inl e, r1) | (Inr v, r1) \<Rightarrow> (Inr (v \<noteq> 0), r1))"

subsection \<open>Bit sequences\<close>

definition byte_bits :: "byte \<Rightarrow> bool list" where
  "byte_bits b = map (\<lambda>i. bit b (7 - i)) [0..<8]"

definition bytes_bits :: "bytes \<Rightarrow> bool list" where
  "bytes_bits bs = concat (map byte_bits bs)"

text \<open>The \<open>n\<close> highest and the \<open>n\<close> lowest bits of a word, most significant first.\<close>

definition top_bits :: "nat \<Rightarrow> u64 \<Rightarrow> bool list" where
  "top_bits n v = map (\<lambda>i. bit v (63 - i)) [0..<n]"

definition word_bits :: "nat \<Rightarrow> u64 \<Rightarrow> bool list" where
  "word_bits n v = map (\<lambda>i. bit v (n - 1 - i)) [0..<n]"

definition br_bits :: "bitReader \<Rightarrow> bool list" where
  "br_bits r = top_bits (br_n r) (br_v r) @ bytes_bits (br_data r)"

definition br_inv :: "bitReader \<Rightarrow> bool" where
  "br_inv r \<longleftrightarrow> br_n r \<le> 64 \<and> (\<forall>j < 64 - br_n r. \<not> bit (br_v r) j) \<and> (br_n r = 0 \<longrightarrow> br_data r = [])"

lemma length_bits [simp]: "length (byte_bits b) = 8" "length (top_bits n v) = n" "length (word_bits n v) = n"
  by (simp_all add: byte_bits_def top_bits_def word_bits_def)

lemma bytes_bits_simps [simp]:
  "bytes_bits [] = []" "bytes_bits (b # bs) = byte_bits b @ bytes_bits bs" "bytes_bits (xs @ ys) = bytes_bits xs @ bytes_bits ys"
  by (simp_all add: bytes_bits_def)

lemma top_bits_0 [simp]: "top_bits 0 v = []"
  by (simp add: top_bits_def)

lemma nth_bits:
  "i < 8 \<Longrightarrow> byte_bits b ! i = bit b (7 - i)"
  "i < n \<Longrightarrow> top_bits n v ! i = bit v (63 - i)"
  "i < n \<Longrightarrow> word_bits n v ! i = bit v (n - 1 - i)"
  by (simp_all add: byte_bits_def top_bits_def word_bits_def)

lemma word_bits_drop_bit: "k \<le> 64 \<Longrightarrow> word_bits k (drop_bit (64 - k) v) = top_bits k v"
  by (intro nth_equalityI) (auto simp: nth_bits bit_drop_bit_eq)

lemma top_bits_push_bit: "k \<le> n \<Longrightarrow> n \<le> 64 \<Longrightarrow> top_bits (n - k) (push_bit k v) = drop k (top_bits n v)"
  by (intro nth_equalityI) (auto simp: nth_bits bit_push_bit_iff add.commute)

lemma take_top_bits: "k \<le> n \<Longrightarrow> take k (top_bits n v) = top_bits k v"
  by (intro nth_equalityI) (auto simp: nth_bits)

lemma top_bits_fill:
  assumes "n + 8 \<le> 64" "\<forall>j < 64 - n. \<not> bit v j"
  shows "top_bits (n + 8) (v OR push_bit (64 - (n + 8)) (ucast b)) = top_bits n v @ byte_bits b"
proof (intro nth_equalityI)
  fix i assume "i < length (top_bits (n + 8) (v OR push_bit (64 - (n + 8)) (ucast b)))"
  then have i: "i < n + 8" by simp
  then show "top_bits (n + 8) (v OR push_bit (64 - (n + 8)) (ucast b)) ! i = (top_bits n v @ byte_bits b) ! i"
  proof (cases "i < n")
    case True
    have "\<not> bit (push_bit (64 - (n + 8)) (ucast b :: u64)) (63 - i)"
      using True assms(1) by (auto simp: bit_push_bit_iff bit_ucast_iff dest: bit_imp_le_length)
    then show ?thesis using i True by (simp add: nth_bits nth_append bit_or_iff)
  next
    case False
    then have "63 - i < 64 - n" "63 - i - (64 - (n + 8)) = 7 - (i - n)" using i assms(1) by auto
    moreover have "64 - (n + 8) \<le> 63 - i" "63 - i < 64" "7 - (i - n) < 64" "i - n < 8" using i False assms(1) by auto
    ultimately show ?thesis using i False assms
      by (simp del: diff_diff_left diff_diff_right add: nth_bits nth_append bit_or_iff bit_push_bit_iff bit_ucast_iff)
  qed
qed simp

lemma low_zero_fill:
  assumes "n + 8 \<le> 64" "\<forall>j < 64 - n. \<not> bit v j"
  shows "\<forall>j < 64 - (n + 8). \<not> bit (v OR push_bit (64 - (n + 8)) (ucast b) :: u64) j"
  using assms by (auto simp: bit_or_iff bit_push_bit_iff)

lemma fill_bits:
  "n + 8 * length bs \<le> 64 \<Longrightarrow> \<forall>j < 64 - n. \<not> bit v j \<Longrightarrow>
   \<exists>w. fill bs v n = (w, n + 8 * length bs) \<and> top_bits (n + 8 * length bs) w = top_bits n v @ bytes_bits bs \<and>
     (\<forall>j < 64 - (n + 8 * length bs). \<not> bit w j)"
proof (induction bs arbitrary: v n)
  case Nil
  then show ?case by simp
next
  case (Cons b bs)
  from Cons.prems(1) have n: "n + 8 \<le> 64" by simp
  from Cons.IH [of "n + 8" "v OR push_bit (64 - (n + 8)) (ucast b)"] low_zero_fill [OF n Cons.prems(2), of b] Cons.prems(1)
  show ?case unfolding top_bits_fill [OF n Cons.prems(2)] by (simp add: add.assoc)
qed

lemma fill_8: "length d = 8 \<Longrightarrow> fill d 0 0 =
    (ucast (d ! 7) OR push_bit 8 (ucast (d ! 6)) OR push_bit 16 (ucast (d ! 5)) OR push_bit 24 (ucast (d ! 4)) OR
     push_bit 32 (ucast (d ! 3)) OR push_bit 40 (ucast (d ! 2)) OR push_bit 48 (ucast (d ! 1)) OR push_bit 56 (ucast (d ! 0)), 64)"
proof -
  assume "length d = 8"
  then obtain a b c e f g h k where "d = [a, b, c, e, f, g, h, k]" by (auto simp: length_Suc_conv eval_nat_numeral)
  then show ?thesis by (simp add: or.commute or.left_commute)
qed

text \<open>Both branches of \<^verbatim>\<open>readBuf\<close> load the next bytes, as many as fit.\<close>

lemma readBuf_fill:
  assumes "br_v r = 0" "br_n r = 0"
  shows "readBuf r = (case fill (take 8 (br_data r)) 0 0 of (v, n) \<Rightarrow> \<lparr>br_data = drop 8 (br_data r), br_v = v, br_n = n\<rparr>)"
proof (cases "8 \<le> length (br_data r)")
  case True
  then show ?thesis using fill_8 [of "take 8 (br_data r)"] by (simp add: readBuf_def assms Let_def)
next
  case False
  then show ?thesis by (simp add: readBuf_def assms Let_def min_def)
qed

lemma readBuf_bits:
  assumes "br_v r = 0" "br_n r = 0"
  shows "br_inv (readBuf r)" "br_bits (readBuf r) = bytes_bits (br_data r)" "br_n (readBuf r) = 64 \<or> br_data (readBuf r) = []"
proof -
  let ?d = "take 8 (br_data r)"
  have "8 * length ?d \<le> 64" by simp
  then obtain w where w: "fill ?d 0 0 = (w, 8 * length ?d)" "top_bits (8 * length ?d) w = bytes_bits ?d" "\<forall>j < 64 - 8 * length ?d. \<not> bit w j"
    using fill_bits [of 0 ?d 0] by auto
  have rb: "readBuf r = \<lparr>br_data = drop 8 (br_data r), br_v = w, br_n = 8 * length ?d\<rparr>"
    unfolding readBuf_fill [OF assms] w(1) by simp
  have full: "8 * length ?d = 64 \<or> drop 8 (br_data r) = []" by auto
  show "br_inv (readBuf r)" unfolding rb br_inv_def using w(3) by auto
  show "br_bits (readBuf r) = bytes_bits (br_data r)"
    unfolding rb br_bits_def using w(2) by (simp del: bytes_bits_simps(3)) (metis append_take_drop_id bytes_bits_simps(3))
  show "br_n (readBuf r) = 64 \<or> br_data (readBuf r) = []" unfolding rb using full by simp
qed

lemma br_Reset_bits: "br_inv (br_Reset data r)" "br_bits (br_Reset data r) = bytes_bits data"
  by (simp_all add: br_Reset_def readBuf_bits)

lemma br_inv_empty: "br_inv r \<Longrightarrow> br_n r = 0 \<longleftrightarrow> br_bits r = []"
  by (auto simp: br_inv_def br_bits_def top_bits_def)


text \<open>\<^verbatim>\<open>refill\<close> restores the invariant, which only fails when the buffer has run empty.\<close>

lemma refill_bits:
  assumes "br_n r \<le> 64" "\<forall>j < 64 - br_n r. \<not> bit (br_v r) j"
  shows "br_inv (refill r)" "br_bits (refill r) = br_bits r"
proof -
  have "br_n r = 0 \<Longrightarrow> br_v r = 0" using assms(2) by (intro bit_eqI) simp
  then show "br_inv (refill r)" "br_bits (refill r) = br_bits r"
    using assms readBuf_bits [of r] by (auto simp: refill_def br_inv_def br_bits_def)
qed

lemma consume_bits:
  assumes "br_n r \<le> 64" "\<forall>j < 64 - br_n r. \<not> bit (br_v r) j" "k \<le> br_n r"
  defines "r' \<equiv> refill (r\<lparr>br_v := push_bit k (br_v r), br_n := br_n r - k\<rparr>)"
  shows "br_inv r'" "br_bits r' = drop k (br_bits r)"
proof -
  let ?r = "r\<lparr>br_v := push_bit k (br_v r), br_n := br_n r - k\<rparr>"
  have "\<forall>j < 64 - br_n ?r. \<not> bit (br_v ?r) j" using assms(1-3) by (auto simp: bit_push_bit_iff)
  moreover have "br_bits ?r = drop k (br_bits r)" using assms(1,3) by (simp add: br_bits_def top_bits_push_bit)
  ultimately show "br_inv r'" "br_bits r' = drop k (br_bits r)"
    using refill_bits [of ?r] assms(1) by (simp_all add: r'_def)
qed

lemma top_bits_pad: "n \<le> 64 \<Longrightarrow> \<forall>j < 64 - n. \<not> bit v j \<Longrightarrow> top_bits 64 v = top_bits n v @ replicate (64 - n) False"
  by (intro nth_equalityI) (auto simp: nth_bits nth_append)

lemma top_bits_splice:
  assumes "n \<le> 64" "\<forall>j < 64 - n. \<not> bit v j"
  shows "top_bits 64 (v OR drop_bit n w) = top_bits n v @ top_bits (64 - n) w"
proof (intro nth_equalityI)
  fix i assume "i < length (top_bits 64 (v OR drop_bit n w))"
  then have i: "i < 64" by simp
  show "top_bits 64 (v OR drop_bit n w) ! i = (top_bits n v @ top_bits (64 - n) w) ! i"
  proof (cases "i < n")
    case True
    then have "\<not> bit w (n + (63 - i))" by (auto dest: bit_imp_le_length)
    then show ?thesis using True i by (simp add: nth_bits nth_append bit_or_iff bit_drop_bit_eq)
  next
    case False
    then have "63 - (i - n) = n + (63 - i)" "63 - i < 64 - n" using i by auto
    then show ?thesis using False i assms(2) by (simp add: nth_bits nth_append bit_or_iff bit_drop_bit_eq)
  qed
qed (use assms in simp)

lemma ReadBits_cross:
  assumes r: "br_n r \<le> 64" "\<forall>j < 64 - br_n r. \<not> bit (br_v r) j" and k: "br_n r < k" "k \<le> 64" and "0 < br_n r"
  shows "\<exists>v r'. ReadBits k r = (Inr v, r') \<and> br_inv r' \<and> br_bits r' = drop k (br_bits r) \<and>
    word_bits k v = take k (br_bits r @ replicate k False) \<and> (\<forall>j \<ge> k. \<not> bit v j)"
proof -
  define r1 where "r1 = readBuf (r\<lparr>br_v := 0, br_n := 0\<rparr>)"
  define w where "w = br_v r OR drop_bit (br_n r) (br_v r1)"
  define m where "m = min (k - br_n r) (br_n r1)"
  have r1: "br_inv r1" "br_bits r1 = bytes_bits (br_data r)" "br_n r1 = 64 \<or> br_data r1 = []"
    using readBuf_bits [of "r\<lparr>br_v := 0, br_n := 0\<rparr>"] by (simp_all add: r1_def)
  let ?r' = "refill (r1\<lparr>br_v := push_bit m (br_v r1), br_n := br_n r1 - m\<rparr>)"
  have rb: "ReadBits k r = (Inr (drop_bit (64 - k) w), ?r')"
    using assms(5) k by (simp add: ReadBits_def Let_def r1_def w_def m_def)
  have r': "br_inv ?r'" "br_bits ?r' = drop m (bytes_bits (br_data r))"
    using consume_bits [of r1 m] r1 by (simp_all add: br_inv_def m_def)
  have "drop m (br_bits r1) = drop (k - br_n r) (br_bits r1)"
    using r1(3) k by (auto simp: m_def br_bits_def min_def)
  moreover have "drop k (br_bits r) = drop (k - br_n r) (bytes_bits (br_data r))" using k by (simp add: br_bits_def)
  ultimately have "br_bits ?r' = drop k (br_bits r)" using r' r1(2) by simp
  moreover have "word_bits k (drop_bit (64 - k) w) = take k (br_bits r @ replicate k False)"
  proof -
    have "word_bits k (drop_bit (64 - k) w) = take k (top_bits (br_n r) (br_v r) @ top_bits (64 - br_n r) (br_v r1))"
      using k take_top_bits [of k 64 w] top_bits_splice [OF r, of "br_v r1", folded w_def] by (simp add: word_bits_drop_bit)
    also have "\<dots> = top_bits (br_n r) (br_v r) @ take (k - br_n r) (top_bits 64 (br_v r1))"
      using k by (simp add: take_top_bits)
    also have "take (k - br_n r) (top_bits 64 (br_v r1)) = take (k - br_n r) (br_bits r1 @ replicate k False)"
      using r1(1,3) k top_bits_pad [of "br_n r1" "br_v r1"] by (auto simp: br_inv_def br_bits_def)
    finally show ?thesis using k unfolding r1(2) by (simp add: br_bits_def)
  qed
  moreover have "\<forall>j \<ge> k. \<not> bit (drop_bit (64 - k) w) j" using k by (auto simp: bit_drop_bit_eq dest: bit_imp_le_length)
  ultimately show ?thesis using rb r'(1) by blast
qed

text \<open>
  The contract of the reader: \<^verbatim>\<open>ReadBits\<close> takes the next \<open>k\<close> bits. A request beyond the end is padded with
  zero bits; only a request on an exhausted reader is an error.
\<close>

lemma ReadBits_bits:
  assumes "br_inv r" "0 < k" "k \<le> 64" "br_bits r \<noteq> []"
  shows "\<exists>v r'. ReadBits k r = (Inr v, r') \<and> br_inv r' \<and> br_bits r' = drop k (br_bits r) \<and>
    word_bits k v = take k (br_bits r @ replicate k False) \<and> (\<forall>j \<ge> k. \<not> bit v j)"
proof -
  have n: "br_n r \<noteq> 0" using assms br_inv_empty by blast
  have r: "br_n r \<le> 64" "\<forall>j < 64 - br_n r. \<not> bit (br_v r) j" using assms(1) by (simp_all add: br_inv_def)
  consider "br_n r < k" | "k \<le> br_n r" "k = 64" | "k \<le> br_n r" "k \<noteq> 64" by linarith
  then show ?thesis
  proof cases
    case 1
    then show ?thesis using ReadBits_cross [OF r] assms(3) n by simp
  next
    case 2
    then have "br_n r = 64" using r by simp
    moreover have "word_bits 64 (br_v r) = top_bits 64 (br_v r)" using word_bits_drop_bit [of 64 "br_v r"] by simp
    moreover have "\<forall>j \<ge> 64. \<not> bit (br_v r) j" by (auto dest: bit_imp_le_length)
    ultimately show ?thesis using 2 readBuf_bits [of "r\<lparr>br_v := 0, br_n := 0\<rparr>"]
      by (intro exI [of _ "br_v r"] exI [of _ "readBuf (r\<lparr>br_v := 0, br_n := 0\<rparr>)"]) (simp add: ReadBits_def br_bits_def)
  next
    case 3
    have "\<forall>j \<ge> k. \<not> bit (drop_bit (64 - k) (br_v r)) j" using assms(3) by (auto simp: bit_drop_bit_eq dest: bit_imp_le_length)
    moreover have "word_bits k (drop_bit (64 - k) (br_v r)) = take k (br_bits r @ replicate k False)"
      using 3 assms(3) by (simp add: word_bits_drop_bit br_bits_def take_top_bits)
    ultimately show ?thesis using 3 n consume_bits [OF r 3(1)] unfolding ReadBits_def by simp
  qed
qed

lemma ReadBitFast_bits:
  assumes "br_inv r" "CanReadBitFast r"
  shows "\<exists>b r'. ReadBitFast r = (b, r') \<and> br_inv r' \<and> br_bits r = b # br_bits r'"
proof -
  have r: "br_n r \<le> 64" "\<forall>j < 64 - br_n r. \<not> bit (br_v r) j" "1 < br_n r"
    using assms by (simp_all add: br_inv_def CanReadBitFast_def)
  let ?r = "r\<lparr>br_v := push_bit 1 (br_v r), br_n := br_n r - 1\<rparr>"
  have "refill ?r = ?r" using r(3) by (simp add: refill_def)
  then have "br_inv ?r" "br_bits ?r = drop 1 (br_bits r)" using consume_bits [OF r(1,2), of 1] r(3) by simp_all
  moreover have "br_bits r \<noteq> []" "hd (br_bits r) = bit (br_v r) 63"
    using r(3) by (auto simp: br_bits_def top_bits_def hd_append hd_map simp del: upt_Suc)
  moreover have "br_v r AND push_bit 63 1 \<noteq> 0 \<longleftrightarrow> bit (br_v r) 63"
    by (simp add: bit_iff_and_push_bit_not_eq_0)
  ultimately show ?thesis unfolding ReadBitFast_def by (cases "br_bits r") auto
qed

lemma ReadBit_bits:
  assumes "br_inv r" "br_bits r = b # bs"
  shows "\<exists>r'. ReadBit r = (Inr b, r') \<and> br_inv r' \<and> br_bits r' = bs"
proof -
  from ReadBits_bits [OF assms(1), of 1] assms(2) obtain v r' where
    v: "ReadBits 1 r = (Inr v, r')" "br_inv r'" "br_bits r' = bs" "word_bits 1 v = [b]" "\<forall>j \<ge> 1. \<not> bit v j" by auto
  have "v \<noteq> 0 \<longleftrightarrow> bit v 0"
  proof
    assume "v \<noteq> 0"
    then obtain j where "bit v j" by (metis bit_eqI bit_0_eq bot_apply bot_bool_def)
    then show "bit v 0" using v(5) by (cases j) auto
  qed auto
  then show ?thesis using v by (simp add: ReadBit_def word_bits_def)
qed

subsection \<open>Properties\<close>

text \<open>Reading \<open>k\<close> bits from a freshly set reader refines taking \<open>k\<close> bits of the input: the returned word has exactly these bits,
  most significant first and padded with zeros at the end of the input, the rest is left to be read, and an exhausted
  reader reports the end of the input.\<close>

theorem ReadBits_refines:
  assumes "br_inv r" "0 < k" "k \<le> 64"
  shows "(br_bits r = [] \<longrightarrow> ReadBits k r = (Inl ''EOF'', r)) \<and>
    (br_bits r \<noteq> [] \<longrightarrow> (\<exists>v r'. ReadBits k r = (Inr v, r') \<and> br_inv r' \<and> br_bits r' = drop k (br_bits r) \<and>
       word_bits k v = take k (br_bits r @ replicate k False) \<and> (\<forall>j \<ge> k. \<not> bit v j)))"
  using ReadBits_bits [OF assms] br_inv_empty [OF assms(1)] by (simp add: ReadBits_def)

theorem ReadBits_refines_witness:
  "let r = br_Reset [165, 15] \<lparr>br_data = [], br_v = 0, br_n = 0\<rparr> in
    br_inv r \<and> (br_bits r \<noteq> [] \<longrightarrow> (\<exists>v r'. ReadBits 4 r = (Inr v, r') \<and> br_inv r' \<and> br_bits r' = drop 4 (br_bits r) \<and>
       word_bits 4 v = take 4 (br_bits r @ replicate 4 False) \<and> (\<forall>j \<ge> 4. \<not> bit v j))) \<and> br_bits r \<noteq> []"
  using ReadBits_refines [of "br_Reset [165, 15] \<lparr>br_data = [], br_v = 0, br_n = 0\<rparr>" 4]
  by (simp add: br_Reset_bits Let_def byte_bits_def upt_rec)

end
