(* ===== verification/Float_Codec.thy ===== *)
theory Float_Codec
  imports Bit_Reader Decoder
begin

text \<open>
  The float codec, \<^verbatim>\<open>tsdb/engine/tsm1/float.go\<close>: each value is the exclusive-or with its predecessor, written as the
  window of its significant bits. A \<^verbatim>\<open>float64\<close> is its 64-bit pattern. The bit writer
  (\<^verbatim>\<open>github.com/dgryski/go-bitstream\<close>) and the bit counts (\<^verbatim>\<open>influxdb/pkg/bits\<close>) are arguments; a writer operation
  returns the bytes it hands to the underlying buffer, and \<open>bitstream_ok\<close> and \<open>bitcount_ok\<close> say what is documented of them.
\<close>

record 'w bitstream =
  bw_WriteBit :: "bool \<Rightarrow> 'w \<Rightarrow> bytes \<times> 'w"
  bw_WriteBits :: "u64 \<Rightarrow> nat \<Rightarrow> 'w \<Rightarrow> bytes \<times> 'w"
  bw_Flush :: "bool \<Rightarrow> 'w \<Rightarrow> bytes \<times> 'w"
  bw_Resume :: "byte \<Rightarrow> nat \<Rightarrow> 'w \<Rightarrow> 'w"

text \<open>\<open>pend w\<close> are the bits written and not yet handed to the buffer.\<close>

definition bitstream_ok :: "'w bitstream \<Rightarrow> ('w \<Rightarrow> bool list) \<Rightarrow> bool" where
  "bitstream_ok bw pend \<longleftrightarrow>
     (\<forall>b w. bytes_bits (fst (bw_WriteBit bw b w)) @ pend (snd (bw_WriteBit bw b w)) = pend w @ [b]) \<and>
     (\<forall>u n w. n \<le> 64 \<longrightarrow> bytes_bits (fst (bw_WriteBits bw u n w)) @ pend (snd (bw_WriteBits bw u n w)) = pend w @ word_bits n u) \<and>
     (\<forall>b w. \<exists>k. bytes_bits (fst (bw_Flush bw b w)) = pend w @ replicate k b) \<and>
     (\<forall>w. pend (bw_Resume bw 0 8 w) = [])"

record bitcount =
  LeadingZeros64 :: "u64 \<Rightarrow> nat"
  TrailingZeros64 :: "u64 \<Rightarrow> nat"

definition bitcount_ok :: "bitcount \<Rightarrow> bool" where
  "bitcount_ok bc \<longleftrightarrow> (\<forall>x. LeadingZeros64 bc x = length (takeWhile Not (word_bits 64 x)) \<and>
     TrailingZeros64 bc x = length (takeWhile Not (rev (word_bits 64 x))))"

definition uvnan :: u64 where "uvnan = 0x7FF8000000000001"

definition IsNaN :: "u64 \<Rightarrow> bool" where
  "IsNaN v \<longleftrightarrow> drop_bit 52 v AND 0x7FF = 0x7FF \<and> take_bit 52 v \<noteq> 0"

subsection \<open>The encoder\<close>

record 'w floatEncoder =
  fe_val :: u64
  fe_err :: bool
  fe_leading :: u64
  fe_trailing :: u64
  fe_buf :: bytes
  fe_bw :: 'w
  fe_first :: bool
  fe_finished :: bool

definition floatCompressedGorilla :: byte where "floatCompressedGorilla = 1"

definition fe_Reset :: "'w bitstream \<Rightarrow> 'w floatEncoder \<Rightarrow> 'w floatEncoder" where
  "fe_Reset bw s = s\<lparr>fe_val := 0, fe_err := False, fe_leading := NOT 0, fe_trailing := 0,
     fe_buf := [push_bit 4 floatCompressedGorilla], fe_bw := bw_Resume bw 0 8 (fe_bw s), fe_finished := False, fe_first := True\<rparr>"

definition fe_Bytes :: "'w floatEncoder \<Rightarrow> string + bytes" where
  "fe_Bytes s = (if fe_err s then Inl ''unsupported value: NaN'' else Inr (fe_buf s))"

text \<open>A call of the bit writer, which appends to the buffer of the encoder.\<close>

definition emit :: "('w \<Rightarrow> bytes \<times> 'w) \<Rightarrow> 'w floatEncoder \<Rightarrow> 'w floatEncoder" where
  "emit f s = (case f (fe_bw s) of (bs, w) \<Rightarrow> s\<lparr>fe_buf := fe_buf s @ bs, fe_bw := w\<rparr>)"

definition clamped_leading :: "bitcount \<Rightarrow> u64 \<Rightarrow> u64" where
  "clamped_leading bc vDelta =
     (let leading = of_nat (LeadingZeros64 bc vDelta) AND 0x1F in if leading \<ge> 32 then 31 else leading)"

definition fe_Write :: "'w bitstream \<Rightarrow> bitcount \<Rightarrow> u64 \<Rightarrow> 'w floatEncoder \<Rightarrow> 'w floatEncoder" where
  "fe_Write bw bc v s =
     (if IsNaN v \<and> \<not> fe_finished s then s\<lparr>fe_err := True\<rparr>
      else if fe_first s then emit (bw_WriteBits bw v 64) (s\<lparr>fe_val := v, fe_first := False\<rparr>)
      else let vDelta = v XOR fe_val s in
        (if vDelta = 0 then emit (bw_WriteBit bw False) s
         else
           let s1 = emit (bw_WriteBit bw True) s;
               leading = clamped_leading bc vDelta; trailing = of_nat (TrailingZeros64 bc vDelta) in
           if fe_leading s1 \<noteq> NOT 0 \<and> leading \<ge> fe_leading s1 \<and> trailing \<ge> fe_trailing s1 then
             emit (bw_WriteBits bw (drop_bit (unat (fe_trailing s1)) vDelta) (64 - unat (fe_leading s1) - unat (fe_trailing s1)))
               (emit (bw_WriteBit bw False) s1)
           else
             let s2 = emit (bw_WriteBits bw leading 5) (emit (bw_WriteBit bw True)
                        (s1\<lparr>fe_leading := leading, fe_trailing := trailing\<rparr>));
                 sigbits = 64 - leading - trailing
             in emit (bw_WriteBits bw (drop_bit (unat trailing) vDelta) (unat sigbits)) (emit (bw_WriteBits bw sigbits 6) s2))
        \<lparr>fe_val := v\<rparr>)"

definition fe_Flush :: "'w bitstream \<Rightarrow> bitcount \<Rightarrow> 'w floatEncoder \<Rightarrow> 'w floatEncoder" where
  "fe_Flush bw bc s =
     (if fe_finished s then s else emit (bw_Flush bw False) (fe_Write bw bc uvnan (s\<lparr>fe_finished := True\<rparr>)))"

subsection \<open>The decoder\<close>

record floatDecoder =
  fd_val :: u64
  fd_leading :: u64
  fd_trailing :: u64
  fd_br :: bitReader
  fd_b :: bytes
  fd_first :: bool
  fd_finished :: bool
  fd_err :: bool

definition fd_SetBytes :: "bytes \<Rightarrow> floatDecoder \<Rightarrow> (string + unit) \<times> floatDecoder" where
  "fd_SetBytes b it =
     (case (if b = [] then (Inr uvnan, fd_br it) else ReadBits 64 (br_Reset (drop 1 b) (fd_br it))) of
        (Inl e, br) \<Rightarrow> (Inl e, it\<lparr>fd_br := br\<rparr>)
      | (Inr v, br) \<Rightarrow> (Inr (), it\<lparr>fd_val := v, fd_leading := 0, fd_trailing := 0, fd_br := br, fd_b := b,
          fd_first := True, fd_finished := False, fd_err := False\<rparr>))"

text \<open>The next bit, by the fast path when at least two bits are buffered; \<open>None\<close> after recording an error.\<close>

definition fd_bit :: "floatDecoder \<Rightarrow> bool option \<times> floatDecoder" where
  "fd_bit it =
     (if CanReadBitFast (fd_br it) then (case ReadBitFast (fd_br it) of (b, br) \<Rightarrow> (Some b, it\<lparr>fd_br := br\<rparr>))
      else case ReadBit (fd_br it) of
        (Inl e, br) \<Rightarrow> (None, it\<lparr>fd_br := br, fd_err := True\<rparr>)
      | (Inr b, br) \<Rightarrow> (Some b, it\<lparr>fd_br := br\<rparr>))"

definition fd_bits :: "nat \<Rightarrow> floatDecoder \<Rightarrow> u64 option \<times> floatDecoder" where
  "fd_bits k it = (case ReadBits k (fd_br it) of
      (Inl e, br) \<Rightarrow> (None, it\<lparr>fd_br := br, fd_err := True\<rparr>)
    | (Inr v, br) \<Rightarrow> (Some v, it\<lparr>fd_br := br\<rparr>))"

text \<open>The control bit of a window and, when it is set, a new window.\<close>

definition fd_window :: "floatDecoder \<Rightarrow> bool \<times> floatDecoder" where
  "fd_window it = (case fd_bit it of
      (None, it1) \<Rightarrow> (False, it1)
    | (Some False, it1) \<Rightarrow> (True, it1)
    | (Some True, it1) \<Rightarrow> (case fd_bits 5 it1 of
        (None, it2) \<Rightarrow> (False, it2)
      | (Some leading, it2) \<Rightarrow> (case fd_bits 6 (it2\<lparr>fd_leading := leading\<rparr>) of
          (None, it3) \<Rightarrow> (False, it3)
        | (Some bits, it3) \<Rightarrow>
            (let mbits = if bits = 0 then 64 else bits in (True, it3\<lparr>fd_trailing := 64 - fd_leading it3 - mbits\<rparr>)))))"

definition fd_Next :: "floatDecoder \<Rightarrow> bool \<times> floatDecoder" where
  "fd_Next it =
     (if fd_err it \<or> fd_finished it then (False, it)
      else if fd_first it then
        (let it1 = it\<lparr>fd_first := False\<rparr> in
         if fd_val it1 = uvnan then (False, it1\<lparr>fd_finished := True\<rparr>) else (True, it1))
      else case fd_bit it of
        (None, it1) \<Rightarrow> (False, it1)
      | (Some False, it1) \<Rightarrow> (True, it1)
      | (Some True, it1) \<Rightarrow> (case fd_window it1 of
          (False, it2) \<Rightarrow> (False, it2)
        | (True, it2) \<Rightarrow> (case fd_bits (unat (64 - fd_leading it2 - fd_trailing it2)) it2 of
            (None, it3) \<Rightarrow> (False, it3)
          | (Some bits, it3) \<Rightarrow>
              (let vbits = fd_val it3 XOR push_bit (unat (fd_trailing it3)) bits in
               if vbits = uvnan then (False, it3\<lparr>fd_finished := True\<rparr>) else (True, it3\<lparr>fd_val := vbits\<rparr>)))))"

definition fd_Values :: "floatDecoder \<Rightarrow> u64 \<times> floatDecoder" where
  "fd_Values it = (fd_val it, it)"

subsection \<open>The bits of a value\<close>

text \<open>
  What \<^verbatim>\<open>Write\<close> adds to the stream for the value \<open>v\<close> after the value \<open>val\<close>, with the current window; \<open>- 1\<close> is
  the window that no value has been written with.
\<close>

definition gorilla :: "bitcount \<Rightarrow> u64 \<Rightarrow> u64 \<times> u64 \<Rightarrow> u64 \<Rightarrow> bool list \<times> u64 \<times> u64" where
  "gorilla bc val lt v = (case lt of (L, T) \<Rightarrow>
     (let d = v XOR val; l = clamped_leading bc d; t = of_nat (TrailingZeros64 bc d) in
      if d = 0 then ([False], lt)
      else if L \<noteq> NOT 0 \<and> l \<ge> L \<and> t \<ge> T then ([True, False] @ word_bits (64 - unat L - unat T) (drop_bit (unat T) d), lt)
      else ([True, True] @ word_bits 5 l @ word_bits 6 (64 - l - t) @ word_bits (unat (64 - l - t)) (drop_bit (unat t) d), (l, t))))"

fun gorillas :: "bitcount \<Rightarrow> u64 \<Rightarrow> u64 \<times> u64 \<Rightarrow> u64 list \<Rightarrow> bool list" where
  "gorillas bc val lt [] = []"
| "gorillas bc val lt (v # vs) = (case gorilla bc val lt v of (bs, lt') \<Rightarrow> bs @ gorillas bc v lt' vs)"

definition window_ok :: "u64 \<times> u64 \<Rightarrow> bool" where
  "window_ok lt \<longleftrightarrow> (case lt of (L, T) \<Rightarrow> L \<noteq> NOT 0 \<longrightarrow> unat L \<le> 31 \<and> unat L + unat T \<le> 63)"


subsection \<open>Windows\<close>

lemma bit_word_bits: "j < 64 \<Longrightarrow> word_bits 64 x ! (63 - j) = bit x j"
  by (simp add: nth_bits)

lemma LeadingZeros64_bit: "bitcount_ok bc \<Longrightarrow> bit x j \<Longrightarrow> LeadingZeros64 bc x + j \<le> 63"
proof (rule ccontr)
  assume bc: "bitcount_ok bc" and j: "bit x j" and n: "\<not> LeadingZeros64 bc x + j \<le> 63"
  have j64: "j < 64" using j by (auto dest: bit_imp_le_length)
  let ?t = "takeWhile Not (word_bits 64 x)"
  have l: "63 - j < length ?t" using bc n j64 by (simp add: bitcount_ok_def)
  then have "Not (?t ! (63 - j))" by (metis nth_mem set_takeWhileD)
  moreover have "?t ! (63 - j) = word_bits 64 x ! (63 - j)" using l by (rule takeWhile_nth)
  ultimately show False using j j64 by (simp add: bit_word_bits)
qed

lemma TrailingZeros64_bit: "bitcount_ok bc \<Longrightarrow> bit x j \<Longrightarrow> TrailingZeros64 bc x \<le> j"
proof (rule ccontr)
  assume bc: "bitcount_ok bc" and j: "bit x j" and n: "\<not> TrailingZeros64 bc x \<le> j"
  have j64: "j < 64" using j by (auto dest: bit_imp_le_length)
  let ?t = "takeWhile Not (rev (word_bits 64 x))"
  have l: "j < length ?t" using bc n by (simp add: bitcount_ok_def)
  then have "Not (?t ! j)" by (metis nth_mem set_takeWhileD)
  moreover have "?t ! j = rev (word_bits 64 x) ! j" using l by (rule takeWhile_nth)
  ultimately show False using j j64 by (simp add: rev_nth bit_word_bits)
qed

text \<open>The window written for a difference covers all its bits.\<close>

definition covers :: "u64 \<times> u64 \<Rightarrow> u64 \<Rightarrow> bool" where
  "covers lt d \<longleftrightarrow> (\<forall>j. bit d j \<longrightarrow> unat (snd lt) \<le> j \<and> j + unat (fst lt) < 64)"

lemma unat_and_31: "unat ((w :: u64) AND 31) \<le> 31" "unat (w AND 31) \<le> unat w"
proof -
  have "w AND 31 = take_bit 5 w" by (simp add: take_bit_eq_mask mask_eq_exp_minus_1)
  then have "unat (w AND 31) = take_bit 5 (unat w)" by (simp only: unsigned_take_bit_eq)
  then have "unat (w AND 31) = unat w mod 32" by (simp add: take_bit_eq_mod)
  then show "unat (w AND 31) \<le> 31" "unat (w AND 31) \<le> unat w" using mod_less_divisor [of 32 "unat w"] by auto
qed

lemma new_window:
  assumes "bitcount_ok bc" "d \<noteq> 0"
  defines "l \<equiv> clamped_leading bc d" and "t \<equiv> of_nat (TrailingZeros64 bc d) :: u64"
  shows "unat l \<le> 31" "unat l + unat t \<le> 63" "covers (l, t) d"
proof -
  obtain j where j: "bit d j" using assms(2) by (metis bit_eqI bit_0_eq bot_apply bot_bool_def)
  have lz: "LeadingZeros64 bc d \<le> 63" and tz: "TrailingZeros64 bc d \<le> 63"
    and sum: "LeadingZeros64 bc d + TrailingZeros64 bc d \<le> 63"
    using LeadingZeros64_bit [OF assms(1) j] TrailingZeros64_bit [OF assms(1) j] by auto
  have t: "unat t = TrailingZeros64 bc d" using tz by (simp add: t_def unat_of_nat)
  have "unat (of_nat (LeadingZeros64 bc d) AND 31 :: u64) \<le> LeadingZeros64 bc d"
    using unat_and_31(2) [of "of_nat (LeadingZeros64 bc d)"] lz by (simp add: unat_of_nat)
  moreover have "\<not> (32 :: u64) \<le> of_nat (LeadingZeros64 bc d) AND 31"
    using unat_and_31(1) [of "of_nat (LeadingZeros64 bc d)"] by (simp add: word_le_nat_alt)
  ultimately have l: "unat l \<le> LeadingZeros64 bc d" "unat l \<le> 31"
    using unat_and_31(1) by (auto simp: l_def clamped_leading_def Let_def)
  show "unat l \<le> 31" "unat l + unat t \<le> 63" using l t sum by auto
  show "covers (l, t) d"
    unfolding covers_def using l t LeadingZeros64_bit [OF assms(1), of d] TrailingZeros64_bit [OF assms(1), of d] by fastforce
qed

lemma covers_widen: "covers (l, t) d \<Longrightarrow> L \<le> l \<Longrightarrow> T \<le> t \<Longrightarrow> covers (L, T) d"
  by (fastforce simp: covers_def word_le_nat_alt)

lemma window_ok_gorilla: "bitcount_ok bc \<Longrightarrow> window_ok lt \<Longrightarrow> window_ok (snd (gorilla bc val lt v))"
  using new_window(1,2) [of bc "v XOR val"] by (auto simp: gorilla_def window_ok_def Let_def split: prod.splits)

subsection \<open>The encoder writes the bits of the values\<close>

definition fe_out :: "('w \<Rightarrow> bool list) \<Rightarrow> 'w floatEncoder \<Rightarrow> bool list" where
  "fe_out pend s = bytes_bits (drop 1 (fe_buf s)) @ pend (fe_bw s)"

lemma emit_simps [simp]:
  "fe_val (emit f s) = fe_val s" "fe_err (emit f s) = fe_err s" "fe_leading (emit f s) = fe_leading s"
  "fe_trailing (emit f s) = fe_trailing s" "fe_first (emit f s) = fe_first s" "fe_finished (emit f s) = fe_finished s"
  by (simp_all add: emit_def split: prod.split)

lemma fe_out_update [simp]:
  "fe_out pend (s\<lparr>fe_val := v\<rparr>) = fe_out pend s" "fe_out pend (s\<lparr>fe_first := b\<rparr>) = fe_out pend s"
  "fe_out pend (s\<lparr>fe_leading := l\<rparr>) = fe_out pend s" "fe_out pend (s\<lparr>fe_trailing := t\<rparr>) = fe_out pend s"
  "fe_out pend (s\<lparr>fe_finished := b\<rparr>) = fe_out pend s"
  by (simp_all add: fe_out_def)

definition has_header :: "'w floatEncoder \<Rightarrow> bool" where
  "has_header s \<longleftrightarrow> fe_buf s \<noteq> []"

lemma has_header_simps [simp]:
  "has_header s \<Longrightarrow> has_header (emit f s)" "has_header (s\<lparr>fe_val := v\<rparr>) = has_header s"
  "has_header (s\<lparr>fe_first := b\<rparr>) = has_header s" "has_header (s\<lparr>fe_finished := b\<rparr>) = has_header s"
  "has_header (s\<lparr>fe_err := b\<rparr>) = has_header s" "has_header (s\<lparr>fe_leading := l\<rparr>) = has_header s" "has_header (s\<lparr>fe_trailing := t\<rparr>) = has_header s"
  by (simp_all add: has_header_def emit_def split: prod.split)

lemma fe_out_emit:
  "has_header s \<Longrightarrow> f (fe_bw s) = (bs, w) \<Longrightarrow> bytes_bits bs @ pend w = pend (fe_bw s) @ cs \<Longrightarrow>
    fe_out pend (emit f s) = fe_out pend s @ cs"
  by (simp add: fe_out_def emit_def has_header_def Suc_leI)

lemma fe_out_write:
  assumes "bitstream_ok bw pend" "has_header s"
  shows "fe_out pend (emit (bw_WriteBit bw b) s) = fe_out pend s @ [b]"
    "n \<le> 64 \<Longrightarrow> fe_out pend (emit (bw_WriteBits bw u n) s) = fe_out pend s @ word_bits n u"
    "\<exists>k. bytes_bits (drop 1 (fe_buf (emit (bw_Flush bw b) s))) = fe_out pend s @ replicate k b"
proof -
  obtain bs w where "bw_WriteBit bw b (fe_bw s) = (bs, w)" by fastforce
  moreover from this assms(1) have "bytes_bits bs @ pend w = pend (fe_bw s) @ [b]" unfolding bitstream_ok_def by (metis fst_conv snd_conv)
  ultimately show "fe_out pend (emit (bw_WriteBit bw b) s) = fe_out pend s @ [b]" by (rule fe_out_emit [OF assms(2)])
next
  assume "n \<le> 64"
  obtain bs w where "bw_WriteBits bw u n (fe_bw s) = (bs, w)" by fastforce
  moreover from this assms(1) \<open>n \<le> 64\<close> have "bytes_bits bs @ pend w = pend (fe_bw s) @ word_bits n u"
    unfolding bitstream_ok_def by (metis fst_conv snd_conv)
  ultimately show "fe_out pend (emit (bw_WriteBits bw u n) s) = fe_out pend s @ word_bits n u" by (rule fe_out_emit [OF assms(2)])
next
  obtain bs w where "bw_Flush bw b (fe_bw s) = (bs, w)" by fastforce
  moreover from this assms(1) obtain k where "bytes_bits bs = pend (fe_bw s) @ replicate k b" unfolding bitstream_ok_def by (metis fst_conv)
  ultimately show "\<exists>k. bytes_bits (drop 1 (fe_buf (emit (bw_Flush bw b) s))) = fe_out pend s @ replicate k b"
    using assms(2) by (auto simp: emit_def fe_out_def has_header_def Suc_leI)
qed

lemma fe_Write_first:
  assumes "bitstream_ok bw pend" "has_header s" "fe_first s" "\<not> IsNaN v \<or> fe_finished s"
  shows "fe_out pend (fe_Write bw bc v s) = fe_out pend s @ word_bits 64 v" "fe_val (fe_Write bw bc v s) = v"
    "\<not> fe_first (fe_Write bw bc v s)" "fe_leading (fe_Write bw bc v s) = fe_leading s" "fe_trailing (fe_Write bw bc v s) = fe_trailing s"
  using assms by (auto simp: fe_Write_def fe_out_write)

lemma unat_sigbits: "unat l + unat t \<le> 64 \<Longrightarrow> unat (64 - l - t :: u64) = 64 - unat l - unat t"
proof -
  assume a: "unat l + unat t \<le> 64"
  then have "unat (64 - l) = 64 - unat l" by (subst unat_sub) (auto simp: word_le_nat_alt)
  moreover from this a have "unat (64 - l - t) = unat (64 - l) - unat t" by (subst unat_sub) (auto simp: word_le_nat_alt)
  ultimately show ?thesis by simp
qed

lemma fe_Write_next:
  assumes ok: "bitstream_ok bw pend" "bitcount_ok bc" and s: "has_header s" "\<not> fe_first s" "\<not> IsNaN v \<or> fe_finished s"
    and w: "gorilla bc (fe_val s) (fe_leading s, fe_trailing s) v = (bs, l, t)"
  shows "fe_out pend (fe_Write bw bc v s) = fe_out pend s @ bs \<and> fe_val (fe_Write bw bc v s) = v \<and>
    fe_leading (fe_Write bw bc v s) = l \<and> fe_trailing (fe_Write bw bc v s) = t \<and> \<not> fe_first (fe_Write bw bc v s)"
proof -
  define d where "d = v XOR fe_val s"
  have n: "d \<noteq> 0 \<Longrightarrow> unat (64 - clamped_leading bc d - of_nat (TrailingZeros64 bc d)) \<le> 64"
    using new_window(2) [OF ok(2), of d] by (simp add: unat_sigbits)
  show ?thesis using w s n unfolding fe_Write_def gorilla_def Let_def d_def [symmetric]
    by (auto simp: fe_out_write [OF ok(1)] split: if_splits)
qed

lemma fe_Write_flags [simp]:
  "has_header s \<Longrightarrow> has_header (fe_Write bw bc v s)" "fe_finished (fe_Write bw bc v s) = fe_finished s"
  "fe_err (fe_Write bw bc v s) = (fe_err s \<or> IsNaN v \<and> \<not> fe_finished s)"
  by (auto simp: fe_Write_def Let_def)

lemma fe_Flush_fold:
  assumes ok: "bitstream_ok bw pend" "bitcount_ok bc"
  shows "has_header s \<Longrightarrow> \<not> fe_first s \<Longrightarrow> \<not> fe_finished s \<Longrightarrow> \<forall>v \<in> set vs. \<not> IsNaN v \<Longrightarrow>
    \<exists>k. bytes_bits (drop 1 (fe_buf (fe_Flush bw bc (fold (fe_Write bw bc) vs s)))) =
      fe_out pend s @ gorillas bc (fe_val s) (fe_leading s, fe_trailing s) (vs @ [uvnan]) @ replicate k False"
proof (induction vs arbitrary: s)
  case Nil
  let ?s = "s\<lparr>fe_finished := True\<rparr>"
  obtain bs l t where g: "gorilla bc (fe_val s) (fe_leading s, fe_trailing s) uvnan = (bs, l, t)" by (metis prod_cases3)
  then have "fe_out pend (fe_Write bw bc uvnan ?s) = fe_out pend s @ bs"
    using fe_Write_next [OF ok, of ?s uvnan bs l t] Nil.prems by simp
  then show ?case using fe_out_write(3) [OF ok(1), of "fe_Write bw bc uvnan ?s" False] Nil.prems g by (simp add: fe_Flush_def)
next
  case (Cons v vs)
  obtain bs l t where g: "gorilla bc (fe_val s) (fe_leading s, fe_trailing s) v = (bs, l, t)" by (metis prod_cases3)
  let ?s = "fe_Write bw bc v s"
  have s: "fe_out pend ?s = fe_out pend s @ bs" "fe_val ?s = v" "fe_leading ?s = l" "fe_trailing ?s = t" "\<not> fe_first ?s"
    using fe_Write_next [OF ok _ _ _ g] Cons.prems by simp_all
  from Cons.IH [of ?s] show ?case using s Cons.prems g by simp
qed

lemma fe_err_fold: "\<forall>v \<in> set vs. \<not> IsNaN v \<Longrightarrow> fe_err (fold (fe_Write bw bc) vs s) = fe_err s"
  by (induction vs arbitrary: s) simp_all

lemma fe_finished_fold: "fe_finished (fold (fe_Write bw bc) vs s) = fe_finished s"
  by (induction vs arbitrary: s) simp_all

lemma has_header_fold: "has_header s \<Longrightarrow> has_header (fold (fe_Write bw bc) vs s)"
  by (induction vs arbitrary: s) simp_all

definition encode_floats :: "'w bitstream \<Rightarrow> bitcount \<Rightarrow> 'w floatEncoder \<Rightarrow> u64 list \<Rightarrow> string + bytes" where
  "encode_floats bw bc e vs = fe_Bytes (fe_Flush bw bc (fold (fe_Write bw bc) vs (fe_Reset bw e)))"

text \<open>The stream: the first value in full, then the bits of each value, the end mark and padding.\<close>

definition float_stream :: "bitcount \<Rightarrow> u64 list \<Rightarrow> bool list" where
  "float_stream bc vs = (case vs @ [uvnan] of v # ws \<Rightarrow> word_bits 64 v @ gorillas bc v (NOT 0, 0) ws)"

lemma encode_floats_stream:
  assumes ok: "bitstream_ok bw pend" "bitcount_ok bc" and vs: "\<forall>v \<in> set vs. \<not> IsNaN v"
  shows "\<exists>h bs k. encode_floats bw bc e vs = Inr (h # bs) \<and> bytes_bits bs = float_stream bc vs @ replicate k False"
proof -
  let ?r = "fe_Reset bw e" and ?e = "fe_Flush bw bc (fold (fe_Write bw bc) vs (fe_Reset bw e))"
  have r: "has_header ?r" "fe_first ?r" "\<not> fe_finished ?r" "\<not> fe_err ?r" "fe_leading ?r = NOT 0" "fe_trailing ?r = 0" "fe_out pend ?r = []"
    using ok(1) by (simp_all add: fe_Reset_def has_header_def fe_out_def bitstream_ok_def)
  have "\<exists>k. bytes_bits (drop 1 (fe_buf ?e)) = float_stream bc vs @ replicate k False"
  proof (cases vs)
    case Nil
    let ?s = "?r\<lparr>fe_finished := True\<rparr>"
    have "fe_out pend (fe_Write bw bc uvnan ?s) = word_bits 64 uvnan"
      using fe_Write_first(1) [OF ok(1), of ?s uvnan bc] r by simp
    then show ?thesis using fe_out_write(3) [OF ok(1), of "fe_Write bw bc uvnan ?s" False] r Nil
      by (simp add: fe_Flush_def float_stream_def)
  next
    case (Cons v ws)
    let ?s = "fe_Write bw bc v ?r"
    have "fe_out pend ?s = word_bits 64 v" "fe_val ?s = v" "\<not> fe_first ?s" "fe_leading ?s = NOT 0" "fe_trailing ?s = 0"
      using fe_Write_first [OF ok(1) r(1,2), of v bc] r vs Cons by simp_all
    then show ?thesis using fe_Flush_fold [OF ok, of ?s ws] r vs Cons by (simp add: float_stream_def)
  qed
  moreover have "fe_Bytes ?e = Inr (fe_buf ?e)" "fe_buf ?e \<noteq> []"
    using has_header_fold [OF r(1), of bw bc vs] fe_err_fold [OF vs, of bw bc ?r] r(3,4)
    by (simp_all add: fe_Bytes_def fe_Flush_def fe_finished_fold flip: has_header_def)
  ultimately show ?thesis unfolding encode_floats_def by (metis list.exhaust drop_Suc_Cons drop0 One_nat_def)
qed

subsection \<open>The decoder reads them back\<close>

lemma word_bits_inj:
  assumes "word_bits k a = word_bits k b" "\<forall>j \<ge> k. \<not> bit a j" "\<forall>j \<ge> k. \<not> bit b j"
  shows "a = b"
proof (rule bit_eqI)
  fix j
  show "bit a j \<longleftrightarrow> bit b j"
  proof (cases "j < k")
    case True
    then have "word_bits k a ! (k - 1 - j) = bit a j" "word_bits k b ! (k - 1 - j) = bit b j" by (simp_all add: nth_bits)
    then show ?thesis using assms(1) by simp
  qed (use assms in auto)
qed

lemma fd_bits_word:
  assumes "br_inv (fd_br it)" "br_bits (fd_br it) = word_bits k x @ rest" "0 < k" "k \<le> 64" "\<forall>j \<ge> k. \<not> bit x j"
  shows "\<exists>br. fd_bits k it = (Some x, it\<lparr>fd_br := br\<rparr>) \<and> br_inv br \<and> br_bits br = rest"
proof -
  have "br_bits (fd_br it) \<noteq> []" using assms(2,3) by (metis append_is_Nil_conv length_bits(3) length_greater_0_conv)
  from ReadBits_bits [OF assms(1,3,4) this] assms(2) obtain v r' where
    v: "ReadBits k (fd_br it) = (Inr v, r')" "br_inv r'" "br_bits r' = rest" "word_bits k v = word_bits k x" "\<forall>j \<ge> k. \<not> bit v j"
    by auto
  then have "v = x" using word_bits_inj assms(5) by blast
  then show ?thesis using v by (simp add: fd_bits_def) blast
qed

lemma fd_bit_next:
  assumes "br_inv (fd_br it)" "br_bits (fd_br it) = b # rest"
  shows "\<exists>br. fd_bit it = (Some b, it\<lparr>fd_br := br\<rparr>) \<and> br_inv br \<and> br_bits br = rest"
  using assms ReadBitFast_bits [OF assms(1)] ReadBit_bits [OF assms] by (auto simp: fd_bit_def) blast

lemma bit_small: "unat (x :: u64) < 2 ^ k \<Longrightarrow> k \<le> j \<Longrightarrow> \<not> bit x j"
proof
  assume "unat x < 2 ^ k" "k \<le> j" "bit x j"
  then have "bit (unat x) j" by (simp add: bit_unsigned_iff)
  moreover have "unat x < 2 ^ j" using \<open>unat x < 2 ^ k\<close> \<open>k \<le> j\<close> by (meson less_le_trans one_le_numeral power_increasing)
  ultimately show False by (simp add: bit_iff_odd)
qed

lemma small_neq_unset: "unat (l :: u64) \<le> 31 \<Longrightarrow> l \<noteq> NOT 0"
proof
  assume "unat l \<le> 31" "l = NOT 0"
  then have "\<not> bit (NOT 0 :: u64) 5" using bit_small [of l 5 5] by simp
  then show False by (simp add: bit_not_iff)
qed

lemma word_bits_6_64: "word_bits 6 (64 :: u64) = word_bits 6 0"
  by code_simp

text \<open>The six bits of the length of a window determine it, zero standing for 64.\<close>

lemma fd_bits_6:
  assumes "br_inv (fd_br it)" "br_bits (fd_br it) = word_bits 6 n @ rest" "0 < unat n" "unat n \<le> 64"
  shows "\<exists>x br. fd_bits 6 it = (Some x, it\<lparr>fd_br := br\<rparr>) \<and> br_inv br \<and> br_bits br = rest \<and> (if x = 0 then 64 else x) = n"
proof (cases "n = 64")
  case True
  then show ?thesis using fd_bits_word [of it 6 0 rest] assms by (auto simp: word_bits_6_64)
next
  case False
  then have "unat n \<noteq> unat (64 :: u64)" by (simp add: word_unat_eq_iff)
  then have n: "unat n < 2 ^ 6" using assms(4) by simp
  have "n \<noteq> 0" using assms(3) by auto
  then show ?thesis using fd_bits_word [OF assms(1,2)] bit_small [OF n] by auto
qed

lemma fd_window_new:
  assumes it: "br_inv (fd_br it)" "br_bits (fd_br it) = True # word_bits 5 l @ word_bits 6 (64 - l - t) @ rest"
    and w: "unat l \<le> 31" "unat l + unat t \<le> 63"
  shows "\<exists>br. fd_window it = (True, it\<lparr>fd_leading := l, fd_trailing := t, fd_br := br\<rparr>) \<and> br_inv br \<and> br_bits br = rest"
proof -
  obtain br1 where 1: "fd_bit it = (Some True, it\<lparr>fd_br := br1\<rparr>)" "br_inv br1" "br_bits br1 = word_bits 5 l @ word_bits 6 (64 - l - t) @ rest"
    using fd_bit_next [OF it] by blast
  obtain br2 where 2: "fd_bits 5 (it\<lparr>fd_br := br1\<rparr>) = (Some l, it\<lparr>fd_br := br2\<rparr>)" "br_inv br2" "br_bits br2 = word_bits 6 (64 - l - t) @ rest"
    using fd_bits_word [of "it\<lparr>fd_br := br1\<rparr>" 5 l] 1 bit_small [of l 5] w by auto
  obtain x br3 where 3: "fd_bits 6 (it\<lparr>fd_br := br2, fd_leading := l\<rparr>) = (Some x, it\<lparr>fd_leading := l, fd_br := br3\<rparr>)"
      "br_inv br3" "br_bits br3 = rest" "(if x = 0 then 64 else x) = 64 - l - t"
    using fd_bits_6 [of "it\<lparr>fd_br := br2, fd_leading := l\<rparr>" "64 - l - t" rest] 2 w by (auto simp: unat_sigbits)
  have "fd_window it = (True, it\<lparr>fd_leading := l, fd_br := br3, fd_trailing := 64 - l - (64 - l - t)\<rparr>)"
    using 3(4) by (simp add: fd_window_def 1(1) 2(1) 3(1) Let_def)
  then show ?thesis using 3 by (intro exI [of _ br3]) simp
qed

lemma drop_push_bit: "covers (l, t) d \<Longrightarrow> push_bit (unat t) (drop_bit (unat t) d) = d"
  by (rule bit_eqI) (auto simp: covers_def bit_push_bit_iff bit_drop_bit_eq dest: bit_imp_le_length)

lemma covers_drop: "covers (l, t) d \<Longrightarrow> unat l + unat t \<le> 63 \<Longrightarrow> 64 - unat l - unat t \<le> j \<Longrightarrow> \<not> bit (drop_bit (unat t) d) j"
  by (fastforce simp: covers_def bit_drop_bit_eq)

text \<open>A state of the decoder between two values: the window is that of the encoder once there is one.\<close>

definition fd_run :: "bitcount \<Rightarrow> floatDecoder \<Rightarrow> u64 list \<Rightarrow> bool" where
  "fd_run bc d vs \<longleftrightarrow> \<not> fd_err d \<and> \<not> fd_finished d \<and> \<not> fd_first d \<and> br_inv (fd_br d) \<and> fd_val d \<noteq> uvnan \<and> uvnan \<notin> set vs \<and>
     (\<exists>lt pad. br_bits (fd_br d) = gorillas bc (fd_val d) lt (vs @ [uvnan]) @ pad \<and> window_ok lt \<and>
        (fst lt \<noteq> NOT 0 \<longrightarrow> lt = (fd_leading d, fd_trailing d)))"

lemma fd_runI:
  "\<not> fd_err d \<Longrightarrow> \<not> fd_finished d \<Longrightarrow> \<not> fd_first d \<Longrightarrow> br_inv (fd_br d) \<Longrightarrow> fd_val d \<noteq> uvnan \<Longrightarrow> uvnan \<notin> set vs \<Longrightarrow>
   br_bits (fd_br d) = gorillas bc (fd_val d) lt (vs @ [uvnan]) @ pad \<Longrightarrow> window_ok lt \<Longrightarrow>
   (fst lt \<noteq> NOT 0 \<Longrightarrow> lt = (fd_leading d, fd_trailing d)) \<Longrightarrow> fd_run bc d vs"
  unfolding fd_run_def by blast

text \<open>Reading the control bits and the window of the next value.\<close>

lemma fd_Next_delta:
  assumes ok: "bitcount_ok bc" and d: "\<not> fd_err it" "\<not> fd_finished it" "\<not> fd_first it" "br_inv (fd_br it)"
    and bits: "br_bits (fd_br it) = bs @ rest" "gorilla bc (fd_val it) lt v = (bs, lt')" "v \<noteq> fd_val it"
    and w: "window_ok lt" "fst lt \<noteq> NOT 0 \<longrightarrow> lt = (fd_leading it, fd_trailing it)"
  shows "\<exists>br. br_inv br \<and> br_bits br = rest \<and> fst lt' \<noteq> NOT 0 \<and>
    fd_Next it = (let it' = it\<lparr>fd_leading := fst lt', fd_trailing := snd lt', fd_br := br\<rparr> in
      if v = uvnan then (False, it'\<lparr>fd_finished := True\<rparr>) else (True, it'\<lparr>fd_val := v\<rparr>))"
proof -
  obtain l t where lt': "lt' = (l, t)" by fastforce
  define x where "x = v XOR fd_val it"
  have x0: "x \<noteq> 0" using bits(3) unfolding x_def by (metis xor.right_neutral xor.assoc xor_self_eq xor.commute)
  note nw = new_window [OF ok x0]
  have win: "covers (l, t) x \<and> unat l \<le> 31 \<and> unat l + unat t \<le> 63 \<and>
    (bs = [True, False] @ word_bits (64 - unat l - unat t) (drop_bit (unat t) x) \<and> l = fd_leading it \<and> t = fd_trailing it \<or>
     bs = [True, True] @ word_bits 5 l @ word_bits 6 (64 - l - t) @ word_bits (64 - unat l - unat t) (drop_bit (unat t) x))"
    using bits(2) x0 nw w covers_widen [OF nw(3)]
    by (auto simp: gorilla_def Let_def lt' window_ok_def unat_sigbits simp flip: x_def split: prod.splits if_splits)
  let ?n = "64 - unat l - unat t"
  obtain br1 where 1: "fd_bit it = (Some True, it\<lparr>fd_br := br1\<rparr>)" "br_inv br1" "True # br_bits br1 = bs @ rest"
    using fd_bit_next [OF d(4)] bits(1) win by fastforce
  have "\<exists>br2. fd_window (it\<lparr>fd_br := br1\<rparr>) = (True, it\<lparr>fd_leading := l, fd_trailing := t, fd_br := br2\<rparr>) \<and> br_inv br2 \<and>
      br_bits br2 = word_bits ?n (drop_bit (unat t) x) @ rest"
  proof (cases "bs = [True, False] @ word_bits ?n (drop_bit (unat t) x) \<and> l = fd_leading it \<and> t = fd_trailing it")
    case True
    then show ?thesis using fd_bit_next [of "it\<lparr>fd_br := br1\<rparr>"] 1 by (fastforce simp: fd_window_def)
  next
    case False
    then show ?thesis using fd_window_new [of "it\<lparr>fd_br := br1\<rparr>" l t] 1 win by auto
  qed
  then obtain br2 where 2: "fd_window (it\<lparr>fd_br := br1\<rparr>) = (True, it\<lparr>fd_leading := l, fd_trailing := t, fd_br := br2\<rparr>)" "br_inv br2"
      "br_bits br2 = word_bits ?n (drop_bit (unat t) x) @ rest" by blast
  obtain br3 where 3: "fd_bits ?n (it\<lparr>fd_leading := l, fd_trailing := t, fd_br := br2\<rparr>) =
      (Some (drop_bit (unat t) x), it\<lparr>fd_leading := l, fd_trailing := t, fd_br := br3\<rparr>)" "br_inv br3" "br_bits br3 = rest"
    using fd_bits_word [of "it\<lparr>fd_leading := l, fd_trailing := t, fd_br := br2\<rparr>" ?n "drop_bit (unat t) x" rest] 2 win covers_drop [of l t x]
    by auto
  have "fd_val it XOR x = v" by (simp add: x_def xor.left_commute [of "fd_val it" v])
  moreover have "l \<noteq> NOT 0" using win small_neq_unset by blast
  ultimately show ?thesis using d 1(1) 2(1) 3 win drop_push_bit [of l t x] unat_sigbits [of l t]
    by (intro exI [of _ br3]) (simp add: fd_Next_def lt' Let_def)
qed

lemma fd_Next_same:
  assumes d: "\<not> fd_err it" "\<not> fd_finished it" "\<not> fd_first it" "br_inv (fd_br it)"
    and bits: "br_bits (fd_br it) = bs @ rest" "gorilla bc (fd_val it) lt (fd_val it) = (bs, lt')"
  shows "lt' = lt \<and> (\<exists>br. br_inv br \<and> br_bits br = rest \<and> fd_Next it = (True, it\<lparr>fd_br := br\<rparr>))"
proof -
  have "bs = [False]" "lt' = lt" using bits(2) by (auto simp: gorilla_def split: prod.splits)
  then show ?thesis using d bits(1) fd_bit_next [OF d(4), of False rest] by (auto simp: fd_Next_def)
qed

lemma fd_run_Cons:
  assumes ok: "bitcount_ok bc" and r: "fd_run bc it (v # vs)"
  shows "\<exists>it'. fd_Next it = (True, it') \<and> fd_val it' = v \<and> fd_run bc it' vs"
proof -
  obtain lt pad where lt: "br_bits (fd_br it) = gorillas bc (fd_val it) lt (v # vs @ [uvnan]) @ pad" "window_ok lt"
      "fst lt \<noteq> NOT 0 \<longrightarrow> lt = (fd_leading it, fd_trailing it)" using r unfolding fd_run_def append.simps by blast
  obtain bs lt' where g: "gorilla bc (fd_val it) lt v = (bs, lt')" by (metis surj_pair)
  have wf: "window_ok lt'" using window_ok_gorilla [OF ok lt(2), of "fd_val it" v] g by simp
  have d: "\<not> fd_err it" "\<not> fd_finished it" "\<not> fd_first it" "br_inv (fd_br it)" using r by (simp_all add: fd_run_def)
  have bits: "br_bits (fd_br it) = bs @ gorillas bc v lt' (vs @ [uvnan]) @ pad" using lt(1) g by simp
  have nan: "v \<noteq> uvnan" "uvnan \<notin> set vs" using r by (auto simp: fd_run_def)
  show ?thesis
  proof (cases "v = fd_val it")
    case True
    obtain br where br: "br_inv br" "br_bits br = gorillas bc v lt' (vs @ [uvnan]) @ pad" "fd_Next it = (True, it\<lparr>fd_br := br\<rparr>)" "lt' = lt"
      using fd_Next_same [OF d bits, of bc lt lt'] g True by auto
    then have "fd_run bc (it\<lparr>fd_br := br\<rparr>) vs"
      using d nan lt True by (intro fd_runI [where lt = lt and pad = pad]) simp_all
    then show ?thesis using br True by auto
  next
    case False
    from fd_Next_delta [OF ok d bits g False lt(2,3)] nan(1) obtain br where
      br: "br_inv br" "br_bits br = gorillas bc v lt' (vs @ [uvnan]) @ pad"
        "fd_Next it = (True, it\<lparr>fd_leading := fst lt', fd_trailing := snd lt', fd_br := br, fd_val := v\<rparr>)"
      unfolding Let_def by (simp only: if_False) blast
    then have "fd_run bc (it\<lparr>fd_leading := fst lt', fd_trailing := snd lt', fd_br := br, fd_val := v\<rparr>) vs"
      using d nan wf by (intro fd_runI [where lt = lt' and pad = pad]) simp_all
    then show ?thesis using br(3) by simp
  qed
qed

lemma fd_run_Nil:
  assumes ok: "bitcount_ok bc" and r: "fd_run bc it []"
  shows "\<exists>it'. fd_Next it = (False, it') \<and> \<not> fd_err it'"
proof -
  obtain lt pad where lt: "br_bits (fd_br it) = gorillas bc (fd_val it) lt [uvnan] @ pad" "window_ok lt"
      "fst lt \<noteq> NOT 0 \<longrightarrow> lt = (fd_leading it, fd_trailing it)" using r unfolding fd_run_def append.simps by blast
  obtain bs lt' where g: "gorilla bc (fd_val it) lt uvnan = (bs, lt')" by (metis surj_pair)
  have d: "\<not> fd_err it" "\<not> fd_finished it" "\<not> fd_first it" "br_inv (fd_br it)" "uvnan \<noteq> fd_val it" using r by (auto simp: fd_run_def)
  have "br_bits (fd_br it) = bs @ pad" using lt(1) g by simp
  from fd_Next_delta [OF ok d(1-4) this g d(5) lt(2,3)] d(1) show ?thesis by (auto simp: Let_def)
qed

definition fd_yields :: "bitcount \<Rightarrow> floatDecoder \<Rightarrow> u64 list \<Rightarrow> bool" where
  "fd_yields bc d vs \<longleftrightarrow> bitcount_ok bc \<and> (fd_run bc d vs \<or>
     fd_first d \<and> \<not> fd_err d \<and> \<not> fd_finished d \<and>
       (vs = [] \<and> fd_val d = uvnan \<or> vs \<noteq> [] \<and> fd_val d = hd vs \<and> fd_run bc (d\<lparr>fd_first := False\<rparr>) (tl vs)))"

interpretation float_dec: decoder fd_Next fd_Values fd_err "fd_yields bc" for bc
proof unfold_locales
  fix d v vs assume y: "fd_yields bc d (v # vs)"
  show "\<exists>d1 d2. fd_Next d = (True, d1) \<and> fd_Values d1 = (v, d2) \<and> fd_yields bc d2 vs"
  proof (cases "fd_first d")
    case True
    then have "fd_run bc (d\<lparr>fd_first := False\<rparr>) vs" "fd_val d = v" "v \<noteq> uvnan"
      using y by (auto simp: fd_yields_def fd_run_def)
    moreover from this have "fd_Next d = (True, d\<lparr>fd_first := False\<rparr>)"
      using True by (simp add: fd_Next_def fd_run_def)
    ultimately show ?thesis using y by (simp add: fd_Values_def fd_yields_def)
  next
    case False
    then show ?thesis using fd_run_Cons [of bc d v vs] y by (auto simp: fd_Values_def fd_yields_def)
  qed
next
  fix d assume y: "fd_yields bc d []"
  show "\<exists>d1. fd_Next d = (False, d1) \<and> \<not> fd_err d1"
  proof (cases "fd_first d")
    case True
    then show ?thesis using y by (auto simp: fd_yields_def fd_run_def fd_Next_def)
  next
    case False
    then show ?thesis using fd_run_Nil [of bc d] y by (auto simp: fd_yields_def)
  qed
next
  fix d vs assume "fd_yields bc d vs"
  then show "\<not> fd_err d" by (auto simp: fd_yields_def fd_run_def)
qed

lemma IsNaN_uvnan: "IsNaN uvnan"
  by (simp add: IsNaN_def uvnan_def)

lemma fd_SetBytes_encode:
  assumes ok: "bitstream_ok bw pend" "bitcount_ok bc" and vs: "\<forall>v \<in> set vs. \<not> IsNaN v"
  shows "\<exists>b d'. encode_floats bw bc e vs = Inr b \<and> fd_SetBytes b d = (Inr (), d') \<and> fd_yields bc d' vs"
proof -
  obtain h bs k where b: "encode_floats bw bc e vs = Inr (h # bs)" "bytes_bits bs = float_stream bc vs @ replicate k False"
    using encode_floats_stream [OF assms] by blast
  obtain v ws where v: "vs @ [uvnan] = v # ws" by (cases vs) auto
  let ?r = "br_Reset bs (fd_br d)" and ?d = "d\<lparr>fd_br := br_Reset bs (fd_br d)\<rparr>"
  have "br_bits ?r = word_bits 64 v @ gorillas bc v (NOT 0, 0) ws @ replicate k False"
    using b(2) v by (simp add: br_Reset_bits float_stream_def)
  moreover have v64: "\<forall>j \<ge> 64. \<not> bit v j" by (auto dest: bit_imp_le_length)
  ultimately obtain br where br: "fd_bits 64 ?d = (Some v, ?d\<lparr>fd_br := br\<rparr>)" "br_inv br" "br_bits br = gorillas bc v (NOT 0, 0) ws @ replicate k False"
    using fd_bits_word [of ?d 64 v] v64 by (auto simp: br_Reset_bits)
  let ?d' = "d\<lparr>fd_val := v, fd_leading := 0, fd_trailing := 0, fd_br := br, fd_b := h # bs, fd_first := True, fd_finished := False, fd_err := False\<rparr>"
  have "fd_SetBytes (h # bs) d = (Inr (), ?d')"
    using br(1) by (auto simp: fd_bits_def fd_SetBytes_def split: prod.splits sum.splits dest: arg_cong [of _ _ fd_br])
  moreover have "fd_yields bc ?d' vs"
  proof (cases vs)
    case Nil
    then show ?thesis using v ok by (simp add: fd_yields_def)
  next
    case (Cons u us)
    then have "u = v" "ws = us @ [uvnan]" using v by auto
    moreover have "window_ok (NOT 0, 0)" by (simp add: window_ok_def)
    moreover have "uvnan \<notin> set vs" using vs IsNaN_uvnan by auto
    ultimately have "fd_run bc (?d'\<lparr>fd_first := False\<rparr>) us"
      using Cons br(2,3) by (intro fd_runI [where lt = "(NOT 0, 0)" and pad = "replicate k False"]) auto
    then show ?thesis using Cons \<open>u = v\<close> ok by (simp add: fd_yields_def)
  qed
  ultimately show ?thesis using b(1) by blast
qed

text \<open>A value that is not a number is refused, wherever it stands.\<close>

lemma encode_floats_NaN:
  assumes "v \<in> set vs" "IsNaN v"
  shows "encode_floats bw bc e vs = Inl ''unsupported value: NaN''"
proof -
  have sticky: "fe_err (fold (fe_Write bw bc) us s)" if "fe_err s" for us and s :: "'a floatEncoder"
    using that by (induction us arbitrary: s) simp_all
  have "fe_err (fold (fe_Write bw bc) vs s)" if "\<not> fe_finished s" for s :: "'a floatEncoder"
    using assms that
  proof (induction vs arbitrary: s)
    case (Cons u us)
    then show ?case using sticky [of "fe_Write bw bc u s" us] by auto
  qed simp
  then have "fe_err (fold (fe_Write bw bc) vs (fe_Reset bw e))" by (simp add: fe_Reset_def)
  then show ?thesis by (simp add: encode_floats_def fe_Bytes_def fe_Flush_def)
qed

subsection \<open>A bit writer\<close>

text \<open>A writer that keeps the pending bits in a list meets the assumption, as does counting on the bits.\<close>

definition byte_of :: "bool list \<Rightarrow> byte" where
  "byte_of bs = horner_sum of_bool 2 (rev bs)"

fun pack :: "bool list \<Rightarrow> bytes \<times> bool list" where
  "pack bs = (if length bs < 8 then ([], bs) else case pack (drop 8 bs) of (ys, r) \<Rightarrow> (byte_of (take 8 bs) # ys, r))"

declare pack.simps [simp del]

definition plain_bitstream :: "bool list bitstream" where
  "plain_bitstream = \<lparr>bw_WriteBit = (\<lambda>b w. pack (w @ [b])), bw_WriteBits = (\<lambda>u n w. pack (w @ word_bits n u)),
     bw_Flush = (\<lambda>b w. pack (w @ replicate ((8 - length w mod 8) mod 8) b)), bw_Resume = (\<lambda>_ _ _. [])\<rparr>"

definition plain_bitcount :: bitcount where
  "plain_bitcount = \<lparr>LeadingZeros64 = (\<lambda>x. length (takeWhile Not (word_bits 64 x))),
     TrailingZeros64 = (\<lambda>x. length (takeWhile Not (rev (word_bits 64 x))))\<rparr>"

lemma byte_bits_byte_of: "length bs = 8 \<Longrightarrow> byte_bits (byte_of bs) = bs"
  by (intro nth_equalityI) (auto simp: nth_bits byte_of_def bit_horner_sum_bit_iff rev_nth)

lemma pack_bits: "bytes_bits (fst (pack bs)) @ snd (pack bs) = bs \<and> length (snd (pack bs)) = length bs mod 8"
proof (induction bs rule: pack.induct)
  case (1 bs)
  show ?case
  proof (cases "length bs < 8")
    case True
    then show ?thesis by (simp add: pack.simps [of bs])
  next
    case False
    obtain ys r where p: "pack (drop 8 bs) = (ys, r)" by fastforce
    then have "bytes_bits ys @ r = drop 8 bs" "length r = (length bs - 8) mod 8" using 1 False by auto
    then show ?thesis using False p by (simp add: pack.simps [of bs] byte_bits_byte_of mod_if [of "length bs" 8])
  qed
qed

lemma plain_bitstream_ok: "bitstream_ok plain_bitstream id"
proof -
  have "bytes_bits (fst (pack (w @ replicate ((8 - length w mod 8) mod 8) b))) = w @ replicate ((8 - length w mod 8) mod 8) b" for w b
  proof -
    let ?bs = "w @ replicate ((8 - length w mod 8) mod 8) b"
    have "8 * q + m = n \<Longrightarrow> m < 8 \<Longrightarrow> n + (8 - m) = 8 * (q + 1)" for q m n :: nat by simp
    from this [OF mult_div_mod_eq] have "length w + (8 - length w mod 8) = 8 * (length w div 8 + 1)" by simp
    then have "length ?bs mod 8 = 0" by (simp add: mod_add_right_eq)
    then show ?thesis using pack_bits [of ?bs] by (metis append_Nil2 length_0_conv)
  qed
  then show ?thesis using pack_bits by (auto simp: bitstream_ok_def plain_bitstream_def)
qed

lemma plain_bitcount_ok: "bitcount_ok plain_bitcount"
  by (simp add: bitcount_ok_def plain_bitcount_def)

subsection \<open>Properties\<close>

text \<open>C13: decoding encoded floats gives them back bit for bit, negative zero and infinities included, provided none is a NaN and the bit
  writer does what it documents.\<close>

theorem float_roundtrip:
  assumes "bitstream_ok bw pend" "bitcount_ok bc" "\<forall>v \<in> set vs. \<not> IsNaN v"
  shows "\<exists>b d1 d2. fe_Bytes (fe_Flush bw bc (fold (fe_Write bw bc) vs (fe_Reset bw e))) = Inr b \<and>
    fd_SetBytes b d = (Inr (), d1) \<and> read_all fd_Next fd_Values (length vs + 1) d1 = Some (vs, d2) \<and> \<not> fd_err d2"
proof -
  obtain b d1 where b: "encode_floats bw bc e vs = Inr b" "fd_SetBytes b d = (Inr (), d1)" "fd_yields bc d1 vs"
    using fd_SetBytes_encode [OF assms] by blast
  from float_dec.read_all_yields [OF b(3), of "length vs + 1"] b show ?thesis by (auto simp: encode_floats_def)
qed

theorem float_roundtrip_witness:
  "\<exists>b d1 d2. fe_Bytes (fe_Flush plain_bitstream plain_bitcount (fold (fe_Write plain_bitstream plain_bitcount)
      [0x3FF0000000000000, 0x8000000000000000, 0x7FF0000000000000] (fe_Reset plain_bitstream
        \<lparr>fe_val = 0, fe_err = False, fe_leading = 0, fe_trailing = 0, fe_buf = [], fe_bw = [], fe_first = False, fe_finished = True\<rparr>))) = Inr b \<and>
    fd_SetBytes b \<lparr>fd_val = 0, fd_leading = 0, fd_trailing = 0, fd_br = \<lparr>br_data = [], br_v = 0, br_n = 0\<rparr>, fd_b = [],
      fd_first = False, fd_finished = True, fd_err = True\<rparr> = (Inr (), d1) \<and>
    read_all fd_Next fd_Values (length [0x3FF0000000000000, 0x8000000000000000, 0x7FF0000000000000 :: u64] + 1) d1 =
      Some ([0x3FF0000000000000, 0x8000000000000000, 0x7FF0000000000000], d2) \<and> \<not> fd_err d2"
  by (rule float_roundtrip [where pend = id]) (simp_all add: plain_bitstream_ok plain_bitcount_ok IsNaN_def)

end
