(* ===== verification/Block.thy ===== *)
theory Block
  imports Bool_Codec Int_Codec Time_Codec String_Codec Float_Codec
begin

text \<open>
  Typed values and blocks, \<^verbatim>\<open>tsdb/engine/tsm1/encoding.go\<close>: a block is a type byte, the length of the encoded timestamps,
  the timestamps and the values. Encoders and decoders come from pools, which hand out objects in whatever state
  their last user left them: the model keeps one object of each kind in a record and returns the record updated.
  The buffers that callers pass in only save allocations and are left out. A \<^verbatim>\<open>panic\<close> is the error \<open>Panic\<close>.
  The time encoder is an interface over a pointer and the float encoder is a pointer, so the pool gets back the object
  that was written to. The integer, string and boolean encoders are structs passed by value to the \<^verbatim>\<open>Using\<close> functions:
  the pool gets back the caller's copy, which is still as \<^verbatim>\<open>getIntegerEncoder\<close> and so on reset it.
\<close>

datatype Value =
  FloatValue int u64
| IntegerValue int int
| UnsignedValue int u64
| BooleanValue int bool
| StringValue int bytes
| EmptyValue

datatype goValue = GoInt int | GoUint u64 | GoFloat u64 | GoBool bool | GoString bytes | GoOther

definition NewValue :: "int \<Rightarrow> goValue \<Rightarrow> Value" where
  "NewValue t v = (case v of GoInt x \<Rightarrow> IntegerValue t x | GoUint x \<Rightarrow> UnsignedValue t x | GoFloat x \<Rightarrow> FloatValue t x
     | GoBool x \<Rightarrow> BooleanValue t x | GoString x \<Rightarrow> StringValue t x | GoOther \<Rightarrow> EmptyValue)"

fun ValueSize :: "Value \<Rightarrow> int" where
  "ValueSize (FloatValue t v) = 16"
| "ValueSize (IntegerValue t v) = 16"
| "ValueSize (UnsignedValue t v) = 16"
| "ValueSize (BooleanValue t v) = 9"
| "ValueSize (StringValue t v) = 8 + int (length v)"
| "ValueSize EmptyValue = 0"

datatype block_error = Panic | BlockErr string

definition BlockFloat64 :: byte where "BlockFloat64 = 0"
definition BlockInteger :: byte where "BlockInteger = 1"
definition BlockBoolean :: byte where "BlockBoolean = 2"
definition BlockString :: byte where "BlockString = 3"
definition BlockUnsigned :: byte where "BlockUnsigned = 4"

lemmas block_type_defs = BlockFloat64_def BlockInteger_def BlockBoolean_def BlockString_def BlockUnsigned_def

subsection \<open>Framing\<close>

definition packBlock :: "byte \<Rightarrow> bytes \<Rightarrow> bytes \<Rightarrow> bytes" where
  "packBlock typ ts values = [typ] @ PutUvarint (of_nat (length ts)) @ ts @ values"

definition unpackBlock :: "bytes \<Rightarrow> block_error + bytes \<times> bytes" where
  "unpackBlock buf =
     (case Uvarint buf of (tsLen, i) \<Rightarrow>
        if i \<le> 0 then Inl (BlockErr ''unable to read timestamp block length'')
        else let tsIdx = i64 (i + i64_of tsLen) in
             if tsIdx > int (length buf) then Inl (BlockErr ''not enough data for timestamp'')
             else if tsIdx < i then Inl Panic
             else Inr (drop (nat i) (take (nat tsIdx) buf), drop (nat tsIdx) buf))"

definition BlockType :: "bytes \<Rightarrow> block_error + byte" where
  "BlockType block =
     (if block = [] then Inl Panic
      else let blockType = block ! 0 in
           if blockType \<in> {BlockFloat64, BlockInteger, BlockUnsigned, BlockBoolean, BlockString} then Inr blockType
           else Inl (BlockErr ''unknown block type''))"

definition BlockCount :: "simple8b \<Rightarrow> bytes \<Rightarrow> block_error + int" where
  "BlockCount s8 block =
     (if length block \<le> 1 then Inl Panic
      else case unpackBlock (drop 1 block) of Inl e \<Rightarrow> Inl Panic | Inr (tb, _) \<Rightarrow> Inr (CountTimestamps s8 tb))"

subsection \<open>Libraries and pools\<close>

record 'w codecs =
  cs_s8 :: simple8b
  cs_sn :: snappy
  cs_bw :: "'w bitstream"
  cs_bc :: bitcount

record 'w encoders =
  timeEncoderPool :: timeEncoder
  integerEncoderPool :: integerEncoder
  floatEncoderPool :: "'w floatEncoder"
  stringEncoderPool :: stringEncoder
  booleanEncoderPool :: booleanEncoder

record decoders =
  timeDecoderPool :: timeDecoder
  integerDecoderPool :: integerDecoder
  floatDecoderPool :: floatDecoder
  stringDecoderPool :: stringDecoder
  booleanDecoderPool :: booleanDecoder

subsection \<open>Encoding\<close>

text \<open>The type assertions \<^verbatim>\<open>v.(FloatValue)\<close> and so on, \<open>None\<close> where they panic.\<close>

fun as_float :: "Value \<Rightarrow> (int \<times> u64) option" where
  "as_float (FloatValue t v) = Some (t, v)" | "as_float _ = None"
fun as_integer :: "Value \<Rightarrow> (int \<times> int) option" where
  "as_integer (IntegerValue t v) = Some (t, v)" | "as_integer _ = None"
fun as_unsigned :: "Value \<Rightarrow> (int \<times> u64) option" where
  "as_unsigned (UnsignedValue t v) = Some (t, v)" | "as_unsigned _ = None"
fun as_boolean :: "Value \<Rightarrow> (int \<times> bool) option" where
  "as_boolean (BooleanValue t v) = Some (t, v)" | "as_boolean _ = None"
fun as_string :: "Value \<Rightarrow> (int \<times> bytes) option" where
  "as_string (StringValue t v) = Some (t, v)" | "as_string _ = None"

text \<open>The loop that writes timestamps and values side by side.\<close>

fun write_values :: "(Value \<Rightarrow> (int \<times> 'v) option) \<Rightarrow> ('v \<Rightarrow> 'e \<Rightarrow> 'e) \<Rightarrow> Value list \<Rightarrow> timeEncoder \<Rightarrow> 'e \<Rightarrow> (timeEncoder \<times> 'e) option" where
  "write_values as wr [] tenc venc = Some (tenc, venc)"
| "write_values as wr (v # vs) tenc venc =
     (case as v of None \<Rightarrow> None | Some (t, x) \<Rightarrow> write_values as wr vs (te_Write t tenc) (wr x venc))"

text \<open>The end of every encoder: the bytes of the timestamps, the bytes of the values, the block.\<close>

definition finish_block :: "simple8b \<Rightarrow> byte \<Rightarrow> ('e \<Rightarrow> (string + bytes) \<times> 'e) \<Rightarrow> timeEncoder \<Rightarrow> 'e \<Rightarrow> (block_error + bytes) \<times> timeEncoder \<times> 'e" where
  "finish_block s8 typ vbytes tenc venc =
     (case te_Bytes s8 tenc of
        (Inl e, tenc1) \<Rightarrow> (Inl (BlockErr e), tenc1, venc)
      | (Inr tb, tenc1) \<Rightarrow> (case vbytes venc of
          (Inl e, venc1) \<Rightarrow> (Inl (BlockErr e), tenc1, venc1)
        | (Inr vb, venc1) \<Rightarrow> (Inr (packBlock typ tb vb), tenc1, venc1)))"

definition encodeFloatBlockUsing ::
  "'w codecs \<Rightarrow> Value list \<Rightarrow> timeEncoder \<Rightarrow> 'w floatEncoder \<Rightarrow> (block_error + bytes) \<times> timeEncoder \<times> 'w floatEncoder" where
  "encodeFloatBlockUsing cs values tsenc venc =
     (case write_values as_float (fe_Write (cs_bw cs) (cs_bc cs)) values (te_Reset tsenc) (fe_Reset (cs_bw cs) venc) of
        None \<Rightarrow> (Inl Panic, tsenc, venc)
      | Some (tsenc1, venc1) \<Rightarrow>
          finish_block (cs_s8 cs) BlockFloat64 (\<lambda>e. (fe_Bytes e, e)) tsenc1 (fe_Flush (cs_bw cs) (cs_bc cs) venc1))"

definition encodeFloatBlock :: "'w codecs \<Rightarrow> 'w encoders \<Rightarrow> Value list \<Rightarrow> (block_error + bytes) \<times> 'w encoders" where
  "encodeFloatBlock cs ps values =
     (if values = [] then (Inr [], ps)
      else case encodeFloatBlockUsing cs values (te_Reset (timeEncoderPool ps)) (fe_Reset (cs_bw cs) (floatEncoderPool ps)) of
        (r, tenc, venc) \<Rightarrow> (r, ps\<lparr>timeEncoderPool := tenc, floatEncoderPool := venc\<rparr>))"

definition encodeBooleanBlockUsing ::
  "'w codecs \<Rightarrow> Value list \<Rightarrow> timeEncoder \<Rightarrow> booleanEncoder \<Rightarrow> (block_error + bytes) \<times> timeEncoder \<times> booleanEncoder" where
  "encodeBooleanBlockUsing cs values tenc venc =
     (case write_values as_boolean be_Write values (te_Reset tenc) (be_Reset venc) of
        None \<Rightarrow> (Inl Panic, tenc, venc)
      | Some (tenc1, venc1) \<Rightarrow>
          finish_block (cs_s8 cs) BlockBoolean (\<lambda>e. case be_Bytes e of (b, e1) \<Rightarrow> (Inr b, e1)) tenc1 venc1)"

definition encodeBooleanBlock :: "'w codecs \<Rightarrow> 'w encoders \<Rightarrow> Value list \<Rightarrow> (block_error + bytes) \<times> 'w encoders" where
  "encodeBooleanBlock cs ps values =
     (if values = [] then (Inr [], ps)
      else case encodeBooleanBlockUsing cs values (te_Reset (timeEncoderPool ps)) (be_Reset (booleanEncoderPool ps)) of
        (r, tenc, _) \<Rightarrow> (r, ps\<lparr>timeEncoderPool := tenc, booleanEncoderPool := be_Reset (booleanEncoderPool ps)\<rparr>))"

definition encodeIntegerBlockUsing ::
  "'w codecs \<Rightarrow> Value list \<Rightarrow> timeEncoder \<Rightarrow> integerEncoder \<Rightarrow> (block_error + bytes) \<times> timeEncoder \<times> integerEncoder" where
  "encodeIntegerBlockUsing cs values tenc venc =
     (case write_values as_integer ie_Write values (te_Reset tenc) (ie_Reset venc) of
        None \<Rightarrow> (Inl Panic, tenc, venc)
      | Some (tenc1, venc1) \<Rightarrow> finish_block (cs_s8 cs) BlockInteger (\<lambda>e. (ie_Bytes (cs_s8 cs) e, e)) tenc1 venc1)"

definition encodeIntegerBlock :: "'w codecs \<Rightarrow> 'w encoders \<Rightarrow> Value list \<Rightarrow> (block_error + bytes) \<times> 'w encoders" where
  "encodeIntegerBlock cs ps values =
     (case encodeIntegerBlockUsing cs values (te_Reset (timeEncoderPool ps)) (ie_Reset (integerEncoderPool ps)) of
        (r, tenc, _) \<Rightarrow> (r, ps\<lparr>timeEncoderPool := tenc, integerEncoderPool := ie_Reset (integerEncoderPool ps)\<rparr>))"

definition encodeUnsignedBlockUsing ::
  "'w codecs \<Rightarrow> Value list \<Rightarrow> timeEncoder \<Rightarrow> integerEncoder \<Rightarrow> (block_error + bytes) \<times> timeEncoder \<times> integerEncoder" where
  "encodeUnsignedBlockUsing cs values tenc venc =
     (case write_values as_unsigned (\<lambda>v. ie_Write (i64_of v)) values (te_Reset tenc) (ie_Reset venc) of
        None \<Rightarrow> (Inl Panic, tenc, venc)
      | Some (tenc1, venc1) \<Rightarrow> finish_block (cs_s8 cs) BlockUnsigned (\<lambda>e. (ie_Bytes (cs_s8 cs) e, e)) tenc1 venc1)"

definition encodeUnsignedBlock :: "'w codecs \<Rightarrow> 'w encoders \<Rightarrow> Value list \<Rightarrow> (block_error + bytes) \<times> 'w encoders" where
  "encodeUnsignedBlock cs ps values =
     (case encodeUnsignedBlockUsing cs values (te_Reset (timeEncoderPool ps)) (ie_Reset (integerEncoderPool ps)) of
        (r, tenc, _) \<Rightarrow> (r, ps\<lparr>timeEncoderPool := tenc, integerEncoderPool := ie_Reset (integerEncoderPool ps)\<rparr>))"

definition encodeStringBlockUsing ::
  "'w codecs \<Rightarrow> Value list \<Rightarrow> timeEncoder \<Rightarrow> stringEncoder \<Rightarrow> (block_error + bytes) \<times> timeEncoder \<times> stringEncoder" where
  "encodeStringBlockUsing cs values tenc venc =
     (case write_values as_string se_Write values (te_Reset tenc) (se_Reset venc) of
        None \<Rightarrow> (Inl Panic, tenc, venc)
      | Some (tenc1, venc1) \<Rightarrow> finish_block (cs_s8 cs) BlockString (\<lambda>e. (Inr (se_Bytes (cs_sn cs) e), e)) tenc1 venc1)"

text \<open>The size hint of the string encoder reads the first value and panics when there is none.\<close>

definition encodeStringBlock :: "'w codecs \<Rightarrow> 'w encoders \<Rightarrow> Value list \<Rightarrow> (block_error + bytes) \<times> 'w encoders" where
  "encodeStringBlock cs ps values =
     (if values = [] \<or> as_string (hd values) = None then (Inl Panic, ps)
      else case encodeStringBlockUsing cs values (te_Reset (timeEncoderPool ps)) (se_Reset (stringEncoderPool ps)) of
        (r, tenc, _) \<Rightarrow> (r, ps\<lparr>timeEncoderPool := tenc, stringEncoderPool := se_Reset (stringEncoderPool ps)\<rparr>))"

definition Values_Encode :: "'w codecs \<Rightarrow> 'w encoders \<Rightarrow> Value list \<Rightarrow> (block_error + bytes) \<times> 'w encoders" where
  "Values_Encode cs ps a = (case a of
      [] \<Rightarrow> (Inl Panic, ps)
    | FloatValue _ _ # _ \<Rightarrow> encodeFloatBlock cs ps a
    | IntegerValue _ _ # _ \<Rightarrow> encodeIntegerBlock cs ps a
    | UnsignedValue _ _ # _ \<Rightarrow> encodeUnsignedBlock cs ps a
    | BooleanValue _ _ # _ \<Rightarrow> encodeBooleanBlock cs ps a
    | StringValue _ _ # _ \<Rightarrow> encodeStringBlock cs ps a
    | EmptyValue # _ \<Rightarrow> (Inl (BlockErr ''unsupported value type''), ps))"

datatype DataType = Unknown | Float | Integer | Unsigned | Boolean | StringType

definition InfluxQLType :: "Value list \<Rightarrow> block_error + DataType" where
  "InfluxQLType a = (case a of
      [] \<Rightarrow> Inl (BlockErr ''no values to infer type'')
    | FloatValue _ _ # _ \<Rightarrow> Inr Float
    | IntegerValue _ _ # _ \<Rightarrow> Inr Integer
    | UnsignedValue _ _ # _ \<Rightarrow> Inr Unsigned
    | BooleanValue _ _ # _ \<Rightarrow> Inr Boolean
    | StringValue _ _ # _ \<Rightarrow> Inr StringType
    | EmptyValue # _ \<Rightarrow> Inl (BlockErr ''unsupported value type''))"

subsection \<open>Decoding\<close>

text \<open>
  The result of a decoder: the error, if any, and the values decoded before it. A negative count of timestamps
  makes the slice expression that sizes the result panic.
\<close>

type_synonym 'v decoded = "block_error option \<times> (int \<times> 'v) list"

definition open_block :: "simple8b \<Rightarrow> byte \<Rightarrow> bytes \<Rightarrow> block_error + bytes \<times> bytes \<times> nat" where
  "open_block s8 typ block =
     (if block = [] then Inl Panic
      else if block ! 0 \<noteq> typ then Inl (BlockErr ''invalid block type'')
      else case unpackBlock (drop 1 block) of
        Inl e \<Rightarrow> Inl e
      | Inr (tb, vb) \<Rightarrow>
          (let sz = CountTimestamps s8 tb in if sz < 0 then Inl Panic else Inr (tb, vb, nat sz)))"

definition decode_values ::
  "simple8b \<Rightarrow> (bytes \<Rightarrow> 'd \<Rightarrow> (string + unit) \<times> 'd) \<Rightarrow> ('d \<Rightarrow> bool \<times> 'd) \<Rightarrow> ('d \<Rightarrow> 'v \<times> 'd) \<Rightarrow> ('d \<Rightarrow> bool) \<Rightarrow>
   bytes \<times> bytes \<times> nat \<Rightarrow> timeDecoder \<Rightarrow> 'd \<Rightarrow> 'v decoded \<times> timeDecoder \<times> 'd" where
  "decode_values s8 setb vnext vread verr blk tdec vdec = (case blk of (tb, vb, sz) \<Rightarrow>
     (let tdec1 = td_Init s8 tb tdec in
      case setb vb vdec of
        (Inl e, vdec1) \<Rightarrow> ((Some (BlockErr e), []), tdec1, vdec1)
      | (Inr _, vdec1) \<Rightarrow> (case decode_pairs td_Next td_Read vnext vread sz tdec1 vdec1 of
          (ps, tdec2, vdec2) \<Rightarrow>
            ((if td_err tdec2 then Some (BlockErr ''timestamps'') else if verr vdec2 then Some (BlockErr ''values'') else None, ps),
             tdec2, vdec2))))"

definition DecodeFloatBlock :: "'w codecs \<Rightarrow> decoders \<Rightarrow> bytes \<Rightarrow> u64 decoded \<times> decoders" where
  "DecodeFloatBlock cs ds block = (case open_block (cs_s8 cs) BlockFloat64 block of
      Inl e \<Rightarrow> ((Some e, []), ds)
    | Inr blk \<Rightarrow> (case decode_values (cs_s8 cs) fd_SetBytes fd_Next fd_Values fd_err blk (timeDecoderPool ds) (floatDecoderPool ds) of
        (r, tdec, vdec) \<Rightarrow> (r, ds\<lparr>timeDecoderPool := tdec, floatDecoderPool := vdec\<rparr>)))"

definition DecodeBooleanBlock :: "'w codecs \<Rightarrow> decoders \<Rightarrow> bytes \<Rightarrow> bool decoded \<times> decoders" where
  "DecodeBooleanBlock cs ds block = (case open_block (cs_s8 cs) BlockBoolean block of
      Inl e \<Rightarrow> ((Some e, []), ds)
    | Inr blk \<Rightarrow> (case decode_values (cs_s8 cs) (\<lambda>b d. (Inr (), bd_SetBytes b d)) bd_Next bd_Read bd_err blk
          (timeDecoderPool ds) (booleanDecoderPool ds) of
        (r, tdec, vdec) \<Rightarrow> (r, ds\<lparr>timeDecoderPool := tdec, booleanDecoderPool := vdec\<rparr>)))"

definition DecodeIntegerBlock :: "'w codecs \<Rightarrow> decoders \<Rightarrow> bytes \<Rightarrow> int decoded \<times> decoders" where
  "DecodeIntegerBlock cs ds block = (case open_block (cs_s8 cs) BlockInteger block of
      Inl e \<Rightarrow> ((Some e, []), ds)
    | Inr blk \<Rightarrow> (case decode_values (cs_s8 cs) (\<lambda>b d. (Inr (), id_SetBytes b d)) (id_Next (cs_s8 cs)) id_Read id_err blk
          (timeDecoderPool ds) (integerDecoderPool ds) of
        (r, tdec, vdec) \<Rightarrow> (r, ds\<lparr>timeDecoderPool := tdec, integerDecoderPool := vdec\<rparr>)))"

definition read_unsigned :: "integerDecoder \<Rightarrow> u64 \<times> integerDecoder" where
  "read_unsigned d = (case id_Read d of (x, d1) \<Rightarrow> (u64_of x, d1))"

definition DecodeUnsignedBlock :: "'w codecs \<Rightarrow> decoders \<Rightarrow> bytes \<Rightarrow> u64 decoded \<times> decoders" where
  "DecodeUnsignedBlock cs ds block = (case open_block (cs_s8 cs) BlockUnsigned block of
      Inl e \<Rightarrow> ((Some e, []), ds)
    | Inr blk \<Rightarrow> (case decode_values (cs_s8 cs) (\<lambda>b d. (Inr (), id_SetBytes b d)) (id_Next (cs_s8 cs)) read_unsigned id_err blk
          (timeDecoderPool ds) (integerDecoderPool ds) of
        (r, tdec, vdec) \<Rightarrow> (r, ds\<lparr>timeDecoderPool := tdec, integerDecoderPool := vdec\<rparr>)))"

definition DecodeStringBlock :: "'w codecs \<Rightarrow> decoders \<Rightarrow> bytes \<Rightarrow> bytes decoded \<times> decoders" where
  "DecodeStringBlock cs ds block = (case open_block (cs_s8 cs) BlockString block of
      Inl e \<Rightarrow> ((Some e, []), ds)
    | Inr blk \<Rightarrow> (case decode_values (cs_s8 cs) (sd_SetBytes (cs_sn cs)) sd_Next sd_Read sd_err blk (timeDecoderPool ds) (stringDecoderPool ds) of
        (r, tdec, vdec) \<Rightarrow> (r, ds\<lparr>timeDecoderPool := tdec, stringDecoderPool := vdec\<rparr>)))"

text \<open>Wrapping decoded values into the interface type.\<close>

definition wrap :: "(int \<Rightarrow> 'v \<Rightarrow> Value) \<Rightarrow> 'v decoded \<times> decoders \<Rightarrow> (block_error option \<times> Value list) \<times> decoders" where
  "wrap con r = (case r of ((e, ps), ds) \<Rightarrow> ((e, map (\<lambda>(t, v). con t v) ps), ds))"

definition DecodeBlock :: "'w codecs \<Rightarrow> decoders \<Rightarrow> bytes \<Rightarrow> (block_error option \<times> Value list) \<times> decoders" where
  "DecodeBlock cs ds block =
     (if length block \<le> 1 then ((Some Panic, []), ds)
      else case BlockType block of
        Inl e \<Rightarrow> ((Some e, []), ds)
      | Inr blockType \<Rightarrow>
          if blockType = BlockFloat64 then wrap FloatValue (DecodeFloatBlock cs ds block)
          else if blockType = BlockInteger then wrap IntegerValue (DecodeIntegerBlock cs ds block)
          else if blockType = BlockUnsigned then wrap UnsignedValue (DecodeUnsignedBlock cs ds block)
          else if blockType = BlockBoolean then wrap BooleanValue (DecodeBooleanBlock cs ds block)
          else if blockType = BlockString then wrap StringValue (DecodeStringBlock cs ds block)
          else ((Some Panic, []), ds))"

subsection \<open>Framing lemmas\<close>

lemma unpack_packBlock:
  assumes "int (length (packBlock typ tb vb)) < 2 ^ 63"
  shows "unpackBlock (drop 1 (packBlock typ tb vb)) = Inr (tb, vb)"
proof -
  let ?p = "PutUvarint (of_nat (length tb))"
  define n where "n = length ?p"
  have len: "int n + int (length tb) + int (length vb) < 2 ^ 63" using assms by (simp add: packBlock_def n_def)
  have "int (length tb) < int (2 ^ 63)" using len by simp
  then have "length tb < 2 ^ 63" unfolding of_nat_less_iff .
  then have l: "i64_of (of_nat (length tb)) = int (length tb)" by (rule i64_of_of_nat)
  have i: "i64 (int n + int (length tb)) = int n + int (length tb)" using len by (intro i64_id) (auto simp: in_i64_def)
  have u: "Uvarint (?p @ tb @ vb) = (of_nat (length tb), int n)" unfolding n_def by (rule Uvarint_PutUvarint)
  have n: "0 < n" using length_PutUvarint_pos by (simp add: n_def)
  have d: "drop n (take (n + length tb) (?p @ tb @ vb)) = tb" "drop (n + length tb) (?p @ tb @ vb) = vb" by (simp_all add: n_def)
  have "length (?p @ tb @ vb) = n + length tb + length vb" by (simp add: n_def)
  then show ?thesis using n d by (simp add: packBlock_def unpackBlock_def u l i Let_def nat_add_distrib del: append_assoc length_append)
qed

lemma open_packBlock:
  "int (length (packBlock typ tb vb)) < 2 ^ 63 \<Longrightarrow> CountTimestamps s8 tb = int n \<Longrightarrow>
   open_block s8 typ (packBlock typ tb vb) = Inr (tb, vb, n)"
  using unpack_packBlock [of "typ" tb vb] by (simp add: open_block_def) (simp add: packBlock_def)

lemma packBlock_facts [simp]: "packBlock typ tb vb \<noteq> []" "packBlock typ tb vb ! 0 = typ" "\<not> length (packBlock typ tb vb) \<le> Suc 0"
  using length_PutUvarint_pos [of "of_nat (length tb)"] by (auto simp: packBlock_def)

lemma write_values_fold:
  "map as vs = map Some ps \<Longrightarrow> write_values as wr vs t e = Some (fold te_Write (map fst ps) t, fold wr (map snd ps) e)"
proof (induction vs arbitrary: ps t e)
  case (Cons v vs)
  then obtain p qs where "ps = p # qs" by (cases ps) auto
  then show ?case using Cons by (cases p) auto
qed simp

subsection \<open>Value codecs\<close>

text \<open>Timestamped values that a block can hold.\<close>

definition timed :: "(int \<times> 'v) list \<Rightarrow> bool" where
  "timed ps \<longleftrightarrow> ps \<noteq> [] \<and> (\<forall>p \<in> set ps. in_i64 (fst p)) \<and> length ps < 2 ^ 63"

text \<open>
  What the block functions need of the encoder and decoder of a value type: values written and taken out as bytes are what a
  decoder yields that is set to these bytes, from every state of it that is \<open>fresh\<close>.
\<close>

locale value_codec = decoder_pair td_Next td_Read td_err td_yields vnext vread vfailed vyields
  for vnext :: "'d \<Rightarrow> bool \<times> 'd" and vread :: "'d \<Rightarrow> 'v \<times> 'd" and vfailed :: "'d \<Rightarrow> bool" and vyields :: "'d \<Rightarrow> 'v list \<Rightarrow> bool" +
  fixes start :: "'e \<Rightarrow> 'e" and wr :: "'v \<Rightarrow> 'e \<Rightarrow> 'e" and vbytes :: "'e \<Rightarrow> (string + bytes) \<times> 'e"
    and setb :: "bytes \<Rightarrow> 'd \<Rightarrow> (string + unit) \<times> 'd" and good :: "'v list \<Rightarrow> bool" and fresh :: "'d \<Rightarrow> bool"
  assumes encode_decode: "good xs \<Longrightarrow> \<exists>vb e'. vbytes (fold wr xs (start e)) = (Inr vb, e') \<and>
    (\<forall>d. fresh d \<longrightarrow> (\<exists>d'. setb vb d = (Inr (), d') \<and> vyields d' xs))"
begin

lemma finish_decode:
  assumes s8: "simple8b_ok s8" and ps: "timed ps" and g: "good (map snd ps)"
  shows "\<exists>tb vb t' e'. finish_block s8 typ vbytes (fold te_Write (map fst ps) (te_Reset t)) (fold wr (map snd ps) (start e)) =
      (Inr (packBlock typ tb vb), t', e') \<and> CountTimestamps s8 tb = int (length ps) \<and>
    (\<forall>tdec vdec. fresh vdec \<longrightarrow> (\<exists>t2 d2. decode_values s8 setb vnext vread vfailed (tb, vb, length ps) tdec vdec = ((None, ps), t2, d2)))"
proof -
  obtain vb e' where v: "vbytes (fold wr (map snd ps) (start e)) = (Inr vb, e')"
      "\<forall>d. fresh d \<longrightarrow> (\<exists>d'. setb vb d = (Inr (), d') \<and> vyields d' (map snd ps))" using encode_decode [OF g] by blast
  have ts: "map fst ps \<noteq> []" "\<forall>t \<in> set (map fst ps). in_i64 t" "length (map fst ps) < 2 ^ 63" using ps by (auto simp: timed_def)
  note times = encode_times_yields [OF s8 ts, of t]
  from times obtain tb where tb: "encode_times s8 t (map fst ps) = Inr tb" "CountTimestamps s8 tb = int (length ps)" by auto
  have y: "td_yields (td_Init s8 tb tdec) (map fst ps)" for tdec using times [of tdec] tb by auto
  obtain t' where t': "te_Bytes s8 (fold te_Write (map fst ps) (te_Reset t)) = (Inr tb, t')"
    using tb(1) unfolding encode_times_def by (metis prod.collapse)
  have "\<exists>t2 d2. decode_values s8 setb vnext vread vfailed (tb, vb, length ps) tdec vdec = ((None, ps), t2, d2)" if f: "fresh vdec" for tdec vdec
  proof -
    obtain d' where d': "setb vb vdec = (Inr (), d')" "vyields d' (map snd ps)" using v(2) f by blast
    obtain t2 d2 where "decode_pairs td_Next td_Read vnext vread (length ps) (td_Init s8 tb tdec) d' = (ps, t2, d2)" "\<not> td_err t2" "\<not> vfailed d2"
      using decode_pairs_zip [OF y [of tdec] d'(2)] by (auto simp: zip_map_fst_snd)
    then show ?thesis using d'(1) by (simp add: decode_values_def Let_def)
  qed
  then show ?thesis using v(1) t' tb(2) by (simp add: finish_block_def) blast
qed

end

definition codecs_ok :: "'w codecs \<Rightarrow> ('w \<Rightarrow> bool list) \<Rightarrow> bool" where
  "codecs_ok cs pend \<longleftrightarrow> simple8b_ok (cs_s8 cs) \<and> snappy_ok (cs_sn cs) \<and> bitstream_ok (cs_bw cs) pend \<and> bitcount_ok (cs_bc cs)"

definition strings_fit :: "bytes list \<Rightarrow> bool" where
  "strings_fit ss \<longleftrightarrow> int (length (concat (map enc_string ss))) < 2 ^ 63"

interpretation float_block: value_codec fd_Next fd_Values fd_err "fd_yields (cs_bc cs)" "fe_Reset (cs_bw cs)" "fe_Write (cs_bw cs) (cs_bc cs)"
  "\<lambda>e. (fe_Bytes (fe_Flush (cs_bw cs) (cs_bc cs) e), fe_Flush (cs_bw cs) (cs_bc cs) e)" fd_SetBytes
  "\<lambda>xs. codecs_ok cs pend \<and> (\<forall>x \<in> set xs. \<not> IsNaN x)" "\<lambda>_. True" for cs :: "'w codecs" and pend
proof unfold_locales
  fix xs :: "u64 list" and e :: "'w floatEncoder"
  assume g: "codecs_ok cs pend \<and> (\<forall>x \<in> set xs. \<not> IsNaN x)"
  let ?b = "encode_floats (cs_bw cs) (cs_bc cs) e xs"
  have "\<exists>vb d'. ?b = Inr vb \<and> fd_SetBytes vb d = (Inr (), d') \<and> fd_yields (cs_bc cs) d' xs" for d
    using fd_SetBytes_encode [of "cs_bw cs" pend "cs_bc cs" xs e d] g by (auto simp: codecs_ok_def)
  then obtain vb where "?b = Inr vb" "\<forall>d. \<exists>d'. fd_SetBytes vb d = (Inr (), d') \<and> fd_yields (cs_bc cs) d' xs" by (metis Inr_inject)
  then show "\<exists>vb e'. (fe_Bytes (fe_Flush (cs_bw cs) (cs_bc cs) (fold (fe_Write (cs_bw cs) (cs_bc cs)) xs (fe_Reset (cs_bw cs) e))),
      fe_Flush (cs_bw cs) (cs_bc cs) (fold (fe_Write (cs_bw cs) (cs_bc cs)) xs (fe_Reset (cs_bw cs) e))) = (Inr vb, e') \<and>
    (\<forall>d. True \<longrightarrow> (\<exists>d'. fd_SetBytes vb d = (Inr (), d') \<and> fd_yields (cs_bc cs) d' xs))" by (auto simp: encode_floats_def)
qed

interpretation bool_block: value_codec bd_Next bd_Read bd_err bd_yields be_Reset be_Write "\<lambda>e. case be_Bytes e of (b, e1) \<Rightarrow> (Inr b, e1)"
  "\<lambda>b d. (Inr (), bd_SetBytes b d)" "\<lambda>xs. length xs < 2 ^ 63" "\<lambda>d. \<not> bd_err d"
proof unfold_locales
  fix xs :: "bool list" and e
  assume "length xs < 2 ^ 63"
  then have "\<not> bd_err d \<longrightarrow> bd_yields (bd_SetBytes (fst (be_Bytes (fold be_Write xs (be_Reset e)))) d) xs" for d
    using bd_SetBytes_encode [of xs d e] by (simp add: encode_bools_def)
  then show "\<exists>vb e'. (case be_Bytes (fold be_Write xs (be_Reset e)) of (b, e1) \<Rightarrow> (Inr b, e1)) = (Inr vb, e') \<and>
    (\<forall>d. \<not> bd_err d \<longrightarrow> (\<exists>d'. (Inr (), bd_SetBytes vb d) = (Inr (), d') \<and> bd_yields d' xs))"
    by (cases "be_Bytes (fold be_Write xs (be_Reset e))") auto
qed

interpretation int_block: value_codec "id_Next s8" id_Read id_err "id_yields s8" ie_Reset ie_Write "\<lambda>e. (ie_Bytes s8 e, e)"
  "\<lambda>b d. (Inr (), id_SetBytes b d)" "\<lambda>xs. simple8b_ok s8 \<and> (\<forall>x \<in> set xs. in_i64 x) \<and> length xs < 2 ^ 63" "\<lambda>_. True" for s8
proof unfold_locales
  fix xs :: "int list" and e
  assume g: "simple8b_ok s8 \<and> (\<forall>x \<in> set xs. in_i64 x) \<and> length xs < 2 ^ 63"
  then have "\<exists>b. encode_ints s8 e xs = Inr b \<and> id_yields s8 (id_SetBytes b d) xs" for d using id_SetBytes_encode [of s8 xs e d] by blast
  then obtain b where "encode_ints s8 e xs = Inr b" "\<forall>d. id_yields s8 (id_SetBytes b d) xs" by (metis Inr_inject)
  then show "\<exists>vb e'. (ie_Bytes s8 (fold ie_Write xs (ie_Reset e)), fold ie_Write xs (ie_Reset e)) = (Inr vb, e') \<and>
    (\<forall>d. True \<longrightarrow> (\<exists>d'. (Inr (), id_SetBytes vb d) = (Inr (), d') \<and> id_yields s8 d' xs))" by (auto simp: encode_ints_def)
qed

interpretation string_block: value_codec sd_Next sd_Read sd_err sd_yields se_Reset se_Write "\<lambda>e. (Inr (se_Bytes sn e), e)"
  "sd_SetBytes sn" "\<lambda>xs. snappy_ok sn \<and> strings_fit xs" "\<lambda>_. True" for sn
  using sd_SetBytes_encode by unfold_locales (auto simp: encode_strings_def strings_fit_def)

text \<open>Unsigned values are stored as the signed values with the same bits.\<close>

definition ud_yields :: "simple8b \<Rightarrow> integerDecoder \<Rightarrow> u64 list \<Rightarrow> bool" where
  "ud_yields s8 d us \<longleftrightarrow> id_yields s8 d (map i64_of us)"

interpretation unsigned_dec: decoder "id_Next s8" read_unsigned id_err "ud_yields s8" for s8
proof unfold_locales
  fix d u us assume "ud_yields s8 d (u # us)"
  then obtain d1 d2 where "id_Next s8 d = (True, d1)" "id_Read d1 = (i64_of u, d2)" "ud_yields s8 d2 us"
    using int_dec.yields_Cons [of s8 d "i64_of u" "map i64_of us"] by (auto simp: ud_yields_def)
  then show "\<exists>d1 d2. id_Next s8 d = (True, d1) \<and> read_unsigned d1 = (u, d2) \<and> ud_yields s8 d2 us" by (simp add: read_unsigned_def)
qed (use int_dec.yields_Nil int_dec.yields_ok in \<open>auto simp: ud_yields_def\<close>)

interpretation unsigned_block: value_codec "id_Next s8" read_unsigned id_err "ud_yields s8" ie_Reset "\<lambda>v. ie_Write (i64_of v)" "\<lambda>e. (ie_Bytes s8 e, e)"
  "\<lambda>b d. (Inr (), id_SetBytes b d)" "\<lambda>xs. simple8b_ok s8 \<and> length xs < 2 ^ 63" "\<lambda>_. True" for s8
proof unfold_locales
  fix xs :: "u64 list" and e
  assume "simple8b_ok s8 \<and> length xs < 2 ^ 63"
  then have g: "simple8b_ok s8 \<and> (\<forall>x \<in> set (map i64_of xs). in_i64 x) \<and> length (map i64_of xs) < 2 ^ 63" by auto
  have "fold (\<lambda>v. ie_Write (i64_of v)) xs s = fold ie_Write (map i64_of xs) s" for s by (simp add: fold_map comp_def)
  then show "\<exists>vb e'. (ie_Bytes s8 (fold (\<lambda>v. ie_Write (i64_of v)) xs (ie_Reset e)), fold (\<lambda>v. ie_Write (i64_of v)) xs (ie_Reset e)) = (Inr vb, e') \<and>
    (\<forall>d. True \<longrightarrow> (\<exists>d'. (Inr (), id_SetBytes vb d) = (Inr (), d') \<and> ud_yields s8 d' xs))"
    using int_block.encode_decode [OF g, of e] by (auto simp: ud_yields_def)
qed

subsection \<open>Blocks of one type\<close>

text \<open>Encoding succeeds with a block whose count is right and which decodes to the same values.\<close>

definition decodes :: "'w codecs \<Rightarrow> 'w encoders \<Rightarrow> decoders \<Rightarrow> Value list \<Rightarrow> bool" where
  "decodes cs es ds vs \<longleftrightarrow> (\<exists>ty tb vb es'. Values_Encode cs es vs = (Inr (packBlock ty tb vb), es') \<and>
     CountTimestamps (cs_s8 cs) tb = int (length vs) \<and>
     (int (length (packBlock ty tb vb)) < 2 ^ 63 \<longrightarrow> (\<exists>ds'. DecodeBlock cs ds (packBlock ty tb vb) = ((None, vs), ds'))))"

lemmas decode_defs = DecodeBlock_def BlockType_def wrap_def

lemma decodesI:
  assumes "Values_Encode cs es vs = (Inr (packBlock ty tb vb), es')" "CountTimestamps (cs_s8 cs) tb = int (length vs)"
    "open_block (cs_s8 cs) ty (packBlock ty tb vb) = Inr (tb, vb, length vs) \<Longrightarrow> \<exists>ds'. DecodeBlock cs ds (packBlock ty tb vb) = ((None, vs), ds')"
  shows "decodes cs es ds vs"
  using assms open_packBlock [of ty tb vb "cs_s8 cs" "length vs"] unfolding decodes_def by blast

lemma as_map:
  "map as_float (map (\<lambda>(t, x). FloatValue t x) ps) = map Some ps"
  "map as_integer (map (\<lambda>(t, x). IntegerValue t x) qs) = map Some qs"
  "map as_unsigned (map (\<lambda>(t, x). UnsignedValue t x) ps) = map Some ps"
  "map as_boolean (map (\<lambda>(t, x). BooleanValue t x) bs) = map Some bs"
  "map as_string (map (\<lambda>(t, x). StringValue t x) ss) = map Some ss"
  by (simp_all add: comp_def split_def)

lemma finish_block_flush:
  "finish_block s8 ty (\<lambda>e. (f (g e), g e)) t e = (Inr b, t', e') \<Longrightarrow> finish_block s8 ty (\<lambda>e. (f e, e)) t (g e) = (Inr b, t', e')"
  by (auto simp: finish_block_def split: prod.splits sum.splits)

lemma decodes_float:
  assumes ok: "codecs_ok cs pend" and ps: "timed ps" and nan: "\<forall>p \<in> set ps. \<not> IsNaN (snd p)"
  shows "decodes cs es ds (map (\<lambda>(t, x). FloatValue t x) ps)"
proof -
  let ?vs = "map (\<lambda>(t, x). FloatValue t x) ps" and ?t = "te_Reset (timeEncoderPool es)" and ?e = "fe_Reset (cs_bw cs) (floatEncoderPool es)"
  have s8: "simple8b_ok (cs_s8 cs)" using ok by (simp add: codecs_ok_def)
  have g: "codecs_ok cs pend \<and> (\<forall>x \<in> set (map snd ps). \<not> IsNaN x)"
    using ok nan ps by (auto simp: codecs_ok_def timed_def)
  from float_block.finish_decode [OF s8 ps g, of BlockFloat64 ?t ?e]  obtain tb vb t' e' t2 d2 where
    f: "finish_block (cs_s8 cs) BlockFloat64 (\<lambda>e. (fe_Bytes (fe_Flush (cs_bw cs) (cs_bc cs) e), fe_Flush (cs_bw cs) (cs_bc cs) e)) (fold te_Write (map fst ps) (te_Reset ?t)) (fold (fe_Write (cs_bw cs) (cs_bc cs)) (map snd ps) (fe_Reset (cs_bw cs) ?e)) =
        (Inr (packBlock BlockFloat64 tb vb), t', e')" "CountTimestamps (cs_s8 cs) tb = int (length ps)"
      "decode_values (cs_s8 cs) fd_SetBytes fd_Next fd_Values fd_err (tb, vb, length ps) (timeDecoderPool ds) (floatDecoderPool ds) = ((None, ps), t2, d2)" by blast
  have "encodeFloatBlockUsing cs ?vs ?t ?e = (Inr (packBlock BlockFloat64 tb vb), t', e')"
    using finish_block_flush [OF f(1)] by (simp add: encodeFloatBlockUsing_def write_values_fold [OF as_map(1)] del: map_map)
  then have "Values_Encode cs es ?vs = (Inr (packBlock BlockFloat64 tb vb), es\<lparr>timeEncoderPool := t', floatEncoderPool := e'\<rparr>)"
    using ps by (cases ps) (auto simp: timed_def Values_Encode_def encodeFloatBlock_def)
  then show ?thesis using f(2,3) by (intro decodesI) (auto simp: decode_defs DecodeFloatBlock_def block_type_defs)
qed

lemma decodes_integer:
  assumes ok: "codecs_ok cs pend" and ps: "timed ps" and range: "\<forall>p \<in> set ps. in_i64 (snd p)"
  shows "decodes cs es ds (map (\<lambda>(t, x). IntegerValue t x) ps)"
proof -
  let ?vs = "map (\<lambda>(t, x). IntegerValue t x) ps" and ?t = "te_Reset (timeEncoderPool es)" and ?e = "ie_Reset (integerEncoderPool es)"
  have s8: "simple8b_ok (cs_s8 cs)" using ok by (simp add: codecs_ok_def)
  have g: "simple8b_ok (cs_s8 cs) \<and> (\<forall>x \<in> set (map snd ps). in_i64 x) \<and> length (map snd ps) < 2 ^ 63"
    using ok range ps by (auto simp: codecs_ok_def timed_def)
  from int_block.finish_decode [OF s8 ps g, of BlockInteger ?t ?e]  obtain tb vb t' e' t2 d2 where
    f: "finish_block (cs_s8 cs) BlockInteger (\<lambda>e. (ie_Bytes (cs_s8 cs) e, e)) (fold te_Write (map fst ps) (te_Reset ?t)) (fold ie_Write (map snd ps) (ie_Reset ?e)) =
        (Inr (packBlock BlockInteger tb vb), t', e')" "CountTimestamps (cs_s8 cs) tb = int (length ps)"
      "decode_values (cs_s8 cs) (\<lambda>b d. (Inr (), id_SetBytes b d)) (id_Next (cs_s8 cs)) id_Read id_err (tb, vb, length ps) (timeDecoderPool ds) (integerDecoderPool ds) = ((None, ps), t2, d2)" by blast
  have "encodeIntegerBlockUsing cs ?vs ?t ?e = (Inr (packBlock BlockInteger tb vb), t', e')"
    using f(1) by (simp add: encodeIntegerBlockUsing_def write_values_fold [OF as_map(2)] del: map_map)
  then have "Values_Encode cs es ?vs = (Inr (packBlock BlockInteger tb vb), es\<lparr>timeEncoderPool := t', integerEncoderPool := ?e\<rparr>)"
    using ps by (cases ps) (auto simp: timed_def Values_Encode_def encodeIntegerBlock_def)
  then show ?thesis using f(2,3) by (intro decodesI) (auto simp: decode_defs DecodeIntegerBlock_def block_type_defs)
qed

lemma decodes_unsigned:
  assumes ok: "codecs_ok cs pend" and ps: "timed ps"
  shows "decodes cs es ds (map (\<lambda>(t, x). UnsignedValue t x) ps)"
proof -
  let ?vs = "map (\<lambda>(t, x). UnsignedValue t x) ps" and ?t = "te_Reset (timeEncoderPool es)" and ?e = "ie_Reset (integerEncoderPool es)"
  have s8: "simple8b_ok (cs_s8 cs)" using ok by (simp add: codecs_ok_def)
  have g: "simple8b_ok (cs_s8 cs) \<and> length (map snd ps) < 2 ^ 63"
    using ok ps by (auto simp: codecs_ok_def timed_def)
  from unsigned_block.finish_decode [OF s8 ps g, of BlockUnsigned ?t ?e]  obtain tb vb t' e' t2 d2 where
    f: "finish_block (cs_s8 cs) BlockUnsigned (\<lambda>e. (ie_Bytes (cs_s8 cs) e, e)) (fold te_Write (map fst ps) (te_Reset ?t)) (fold (\<lambda>v. ie_Write (i64_of v)) (map snd ps) (ie_Reset ?e)) =
        (Inr (packBlock BlockUnsigned tb vb), t', e')" "CountTimestamps (cs_s8 cs) tb = int (length ps)"
      "decode_values (cs_s8 cs) (\<lambda>b d. (Inr (), id_SetBytes b d)) (id_Next (cs_s8 cs)) read_unsigned id_err (tb, vb, length ps) (timeDecoderPool ds) (integerDecoderPool ds) = ((None, ps), t2, d2)" by blast
  have "encodeUnsignedBlockUsing cs ?vs ?t ?e = (Inr (packBlock BlockUnsigned tb vb), t', e')"
    using f(1) by (simp add: encodeUnsignedBlockUsing_def write_values_fold [OF as_map(3)] del: map_map)
  then have "Values_Encode cs es ?vs = (Inr (packBlock BlockUnsigned tb vb), es\<lparr>timeEncoderPool := t', integerEncoderPool := ?e\<rparr>)"
    using ps by (cases ps) (auto simp: timed_def Values_Encode_def encodeUnsignedBlock_def)
  then show ?thesis using f(2,3) by (intro decodesI) (auto simp: decode_defs DecodeUnsignedBlock_def block_type_defs)
qed

lemma decodes_boolean:
  assumes ok: "codecs_ok cs pend" and ps: "timed ps" and fresh: "\<not> bd_err (booleanDecoderPool ds)"
  shows "decodes cs es ds (map (\<lambda>(t, x). BooleanValue t x) ps)"
proof -
  let ?vs = "map (\<lambda>(t, x). BooleanValue t x) ps" and ?t = "te_Reset (timeEncoderPool es)" and ?e = "be_Reset (booleanEncoderPool es)"
  have s8: "simple8b_ok (cs_s8 cs)" using ok by (simp add: codecs_ok_def)
  have g: "length (map snd ps) < 2 ^ 63"
    using ok ps by (auto simp: codecs_ok_def timed_def)
  from bool_block.finish_decode [OF s8 ps g, of BlockBoolean ?t ?e] fresh obtain tb vb t' e' t2 d2 where
    f: "finish_block (cs_s8 cs) BlockBoolean (\<lambda>e. case be_Bytes e of (b, e1) \<Rightarrow> (Inr b, e1)) (fold te_Write (map fst ps) (te_Reset ?t)) (fold be_Write (map snd ps) (be_Reset ?e)) =
        (Inr (packBlock BlockBoolean tb vb), t', e')" "CountTimestamps (cs_s8 cs) tb = int (length ps)"
      "decode_values (cs_s8 cs) (\<lambda>b d. (Inr (), bd_SetBytes b d)) bd_Next bd_Read bd_err (tb, vb, length ps) (timeDecoderPool ds) (booleanDecoderPool ds) = ((None, ps), t2, d2)" by blast
  have "encodeBooleanBlockUsing cs ?vs ?t ?e = (Inr (packBlock BlockBoolean tb vb), t', e')"
    using f(1) by (simp add: encodeBooleanBlockUsing_def write_values_fold [OF as_map(4)] del: map_map)
  then have "Values_Encode cs es ?vs = (Inr (packBlock BlockBoolean tb vb), es\<lparr>timeEncoderPool := t', booleanEncoderPool := ?e\<rparr>)"
    using ps by (cases ps) (auto simp: timed_def Values_Encode_def encodeBooleanBlock_def)
  then show ?thesis using f(2,3) by (intro decodesI) (auto simp: decode_defs DecodeBooleanBlock_def block_type_defs)
qed

lemma decodes_string:
  assumes ok: "codecs_ok cs pend" and ps: "timed ps" and fit: "strings_fit (map snd ps)"
  shows "decodes cs es ds (map (\<lambda>(t, x). StringValue t x) ps)"
proof -
  let ?vs = "map (\<lambda>(t, x). StringValue t x) ps" and ?t = "te_Reset (timeEncoderPool es)" and ?e = "se_Reset (stringEncoderPool es)"
  have s8: "simple8b_ok (cs_s8 cs)" using ok by (simp add: codecs_ok_def)
  have g: "snappy_ok (cs_sn cs) \<and> strings_fit (map snd ps)"
    using ok fit ps by (auto simp: codecs_ok_def timed_def)
  from string_block.finish_decode [OF s8 ps g, of BlockString ?t ?e]  obtain tb vb t' e' t2 d2 where
    f: "finish_block (cs_s8 cs) BlockString (\<lambda>e. (Inr (se_Bytes (cs_sn cs) e), e)) (fold te_Write (map fst ps) (te_Reset ?t)) (fold se_Write (map snd ps) (se_Reset ?e)) =
        (Inr (packBlock BlockString tb vb), t', e')" "CountTimestamps (cs_s8 cs) tb = int (length ps)"
      "decode_values (cs_s8 cs) (sd_SetBytes (cs_sn cs)) sd_Next sd_Read sd_err (tb, vb, length ps) (timeDecoderPool ds) (stringDecoderPool ds) = ((None, ps), t2, d2)" by blast
  have "encodeStringBlockUsing cs ?vs ?t ?e = (Inr (packBlock BlockString tb vb), t', e')"
    using f(1) by (simp add: encodeStringBlockUsing_def write_values_fold [OF as_map(5)] del: map_map)
  then have "Values_Encode cs es ?vs = (Inr (packBlock BlockString tb vb), es\<lparr>timeEncoderPool := t', stringEncoderPool := ?e\<rparr>)"
    using ps by (cases ps) (auto simp: timed_def Values_Encode_def encodeStringBlock_def)
  then show ?thesis using f(2,3) by (intro decodesI) (auto simp: decode_defs DecodeStringBlock_def block_type_defs)
qed

subsection \<open>Properties\<close>

text \<open>Non-empty values of one type, with 64-bit timestamps and payloads, no NaN among floats and not too long strings.\<close>

definition all_of :: "(Value \<Rightarrow> (int \<times> 'v) option) \<Rightarrow> ('v \<Rightarrow> bool) \<Rightarrow> Value list \<Rightarrow> bool" where
  "all_of as P vs \<longleftrightarrow> list_all (\<lambda>v. case as v of None \<Rightarrow> False | Some (t, x) \<Rightarrow> in_i64 t \<and> P x) vs"

definition storable :: "Value list \<Rightarrow> bool" where
  "storable vs \<longleftrightarrow> vs \<noteq> [] \<and> length vs < 2 ^ 63 \<and>
     (all_of as_float (\<lambda>x. \<not> IsNaN x) vs \<or> all_of as_integer in_i64 vs \<or> all_of as_unsigned (\<lambda>_. True) vs \<or>
      all_of as_boolean (\<lambda>_. True) vs \<or>
      all_of as_string (\<lambda>_. True) vs \<and> strings_fit (map (\<lambda>v. snd (the (as_string v))) vs))"

lemma all_of_pairs:
  assumes "all_of as P vs" "vs \<noteq> []" "length vs < 2 ^ 63" "\<And>v t x. as v = Some (t, x) \<Longrightarrow> v = con t x"
  obtains ps where "vs = map (\<lambda>(t, x). con t x) ps" "timed ps" "\<forall>p \<in> set ps. P (snd p)" "map snd ps = map (\<lambda>v. snd (the (as v))) vs"
proof
  let ?ps = "map (\<lambda>v. the (as v)) vs"
  have "\<exists>t x. as v = Some (t, x) \<and> in_i64 t \<and> P x \<and> v = con t x" if v: "v \<in> set vs" for v
    using assms(1,4) v by (fastforce simp: all_of_def list_all_iff split: option.splits)
  then have "v = (case the (as v) of (t, x) \<Rightarrow> con t x) \<and> in_i64 (fst (the (as v))) \<and> P (snd (the (as v)))" if v: "v \<in> set vs" for v
    using v by fastforce
  then show "vs = map (\<lambda>(t, x). con t x) ?ps" "timed ?ps" "\<forall>p \<in> set ?ps. P (snd p)"
    using assms(2,3) by (auto simp: timed_def comp_def intro!: map_idI [symmetric])
  show "map snd ?ps = map (\<lambda>v. snd (the (as v))) vs" by simp
qed

lemma storable_decodes:
  assumes ok: "codecs_ok cs pend" and vs: "storable vs" and ds: "all_of as_boolean (\<lambda>_. True) vs \<Longrightarrow> \<not> bd_err (booleanDecoderPool ds)"
  shows "decodes cs es ds vs"
proof -
  have ne: "vs \<noteq> []" and len: "length vs < 2 ^ 63" using vs by (auto simp: storable_def)
  consider "all_of as_float (\<lambda>x. \<not> IsNaN x) vs" | "all_of as_integer in_i64 vs" | "all_of as_unsigned (\<lambda>_. True) vs"
    | "all_of as_boolean (\<lambda>_. True) vs" | "all_of as_string (\<lambda>_. True) vs" "strings_fit (map (\<lambda>v. snd (the (as_string v))) vs)"
    using vs by (auto simp: storable_def)
  then show ?thesis
  proof cases
    case 1
    show ?thesis by (rule all_of_pairs [OF 1 ne len]) (auto simp: decodes_float [OF ok] elim: as_float.elims)
  next
    case 2
    show ?thesis by (rule all_of_pairs [OF 2 ne len]) (auto simp: decodes_integer [OF ok] elim: as_integer.elims)
  next
    case 3
    show ?thesis by (rule all_of_pairs [OF 3 ne len]) (auto simp: decodes_unsigned [OF ok] elim: as_unsigned.elims)
  next
    case 4
    show ?thesis by (rule all_of_pairs [OF 4 ne len]) (auto simp: decodes_boolean [OF ok] ds [OF 4] elim: as_boolean.elims)
  next
    case 5
    have "\<And>v t x. as_string v = Some (t, x) \<Longrightarrow> v = StringValue t x" by (auto elim: as_string.elims)
    then obtain ps where ps: "vs = map (\<lambda>(t, x). StringValue t x) ps" "timed ps" "\<forall>p \<in> set ps. True"
      "map snd ps = map (\<lambda>v. snd (the (as_string v))) vs" by (rule all_of_pairs [OF 5(1) ne len])
    have "strings_fit (map snd ps)" unfolding ps(4) by (rule 5(2))
    then show ?thesis unfolding ps(1) by (rule decodes_string [OF ok ps(2)])
  qed
qed

text \<open>C4: a non-empty slice of values of one type, of any of the five types, is encoded into a block that decodes to exactly these
  values and whose count is their number, whatever state the pooled encoders and decoders were left in, with two
  exceptions: floats must not be NaN, which the float codec rejects, and for booleans the pooled decoder must have no
  pending error, which \<^verbatim>\<open>SetBytes\<close> does not clear. Timestamps and integers are 64-bit, the lengths written as
  counts are in range, and the libraries behave as documented.\<close>

theorem block_roundtrip:
  assumes "codecs_ok cs pend" "storable vs" "all_of as_boolean (\<lambda>_. True) vs \<Longrightarrow> \<not> bd_err (booleanDecoderPool ds)"
  shows "\<exists>b es'. Values_Encode cs es vs = (Inr b, es') \<and>
    (int (length b) < 2 ^ 63 \<longrightarrow> BlockCount (cs_s8 cs) b = Inr (int (length vs)) \<and> (\<exists>ds'. DecodeBlock cs ds b = ((None, vs), ds')))"
proof -
  from storable_decodes [OF assms, of es] obtain ty tb vb es' where
    d: "Values_Encode cs es vs = (Inr (packBlock ty tb vb), es')" "CountTimestamps (cs_s8 cs) tb = int (length vs)"
      "int (length (packBlock ty tb vb)) < 2 ^ 63 \<longrightarrow> (\<exists>ds'. DecodeBlock cs ds (packBlock ty tb vb) = ((None, vs), ds'))"
    by (auto simp: decodes_def)
  have "int (length (packBlock ty tb vb)) < 2 ^ 63 \<Longrightarrow> BlockCount (cs_s8 cs) (packBlock ty tb vb) = Inr (int (length vs))"
    using unpack_packBlock [of ty tb vb] d(2) by (simp add: BlockCount_def)
  then show ?thesis using d by blast
qed

definition fresh_encoders :: "bool list encoders" where
  "fresh_encoders = \<lparr>timeEncoderPool = \<lparr>te_ts = []\<rparr>, integerEncoderPool = NewIntegerEncoder,
     floatEncoderPool = \<lparr>fe_val = 0, fe_err = False, fe_leading = 0, fe_trailing = 0, fe_buf = [], fe_bw = [], fe_first = True, fe_finished = False\<rparr>,
     stringEncoderPool = \<lparr>se_bytes = []\<rparr>, booleanEncoderPool = NewBooleanEncoder\<rparr>"

definition fresh_decoders :: decoders where
  "fresh_decoders = \<lparr>
     timeDecoderPool = \<lparr>td_v = 0, td_i = 0, td_n = 0, td_ts = [], td_err = False, td_rleDelta = 0, td_encoding = 0\<rparr>,
     integerDecoderPool = \<lparr>id_values = [], id_bytes = [], id_i = 0, id_n = 0, id_prev = 0, id_first = False, id_rleFirst = 0,
       id_rleDelta = 0, id_encoding = 0, id_err = False\<rparr>,
     floatDecoderPool = \<lparr>fd_val = 0, fd_leading = 0, fd_trailing = 0, fd_br = \<lparr>br_data = [], br_v = 0, br_n = 0\<rparr>, fd_b = [],
       fd_first = False, fd_finished = False, fd_err = False\<rparr>,
     stringDecoderPool = \<lparr>sd_b = [], sd_l = 0, sd_i = 0, sd_err = False\<rparr>,
     booleanDecoderPool = \<lparr>bd_b = [], bd_i = 0, bd_n = 0, bd_err = False\<rparr>\<rparr>"

definition plain_codecs :: "bool list codecs" where
  "plain_codecs = \<lparr>cs_s8 = plain_simple8b, cs_sn = plain_snappy, cs_bw = plain_bitstream, cs_bc = plain_bitcount\<rparr>"

lemma plain_codecs_ok: "codecs_ok plain_codecs id"
  by (simp add: codecs_ok_def plain_codecs_def plain_simple8b_ok plain_snappy_ok plain_bitstream_ok plain_bitcount_ok)

theorem block_roundtrip_witness:
  "\<exists>b es'. Values_Encode plain_codecs fresh_encoders [FloatValue 10 0x3FF0000000000000, FloatValue 20 0x4000000000000000] = (Inr b, es') \<and>
    (int (length b) < 2 ^ 63 \<longrightarrow> BlockCount (cs_s8 plain_codecs) b =
        Inr (int (length [FloatValue 10 0x3FF0000000000000, FloatValue 20 0x4000000000000000])) \<and>
      (\<exists>ds'. DecodeBlock plain_codecs fresh_decoders b = ((None, [FloatValue 10 0x3FF0000000000000, FloatValue 20 0x4000000000000000]), ds')))"
  by (rule block_roundtrip [OF plain_codecs_ok])
    (simp_all add: fresh_decoders_def storable_def all_of_def in_i64_def IsNaN_def)

text \<open>C31: unpacking a block splits it at the recorded length and loses nothing; it panics only on a length prefix that
  is out of the range of \<^verbatim>\<open>int\<close>, where the bounds check is defeated by overflow.\<close>

theorem unpackBlock_safe:
  assumes "int (length buf) < 2 ^ 63" "Uvarint buf = (w, n)"
  shows "(case unpackBlock buf of
      Inr (ts, vs) \<Rightarrow> 0 < n \<and> buf = take (nat n) buf @ ts @ vs \<and> int (length ts) = uint w
    | Inl Panic \<Rightarrow> 2 ^ 63 - n \<le> uint w
    | Inl (BlockErr e) \<Rightarrow> n \<le> 0 \<or> int (length buf) < n + uint w)"
proof -
  have n: "n \<le> int (length buf)" using assms(2) by (rule Uvarint_le)
  have w: "0 \<le> uint w" "uint w < 2 ^ 64" using uint_lt2p [of w] by auto
  have "i64 (n + i64_of w) = i64 (n + uint w)" using i64_add_i64(2) [of n "uint w"] by (simp add: i64_of_eq_i64)
  note ix = this
  show ?thesis
  proof (cases "n + uint w < 2 ^ 63")
    case True
    have "in_i64 (n + uint w)" if "0 < n" using True that uint_ge_0 [of w] unfolding in_i64_def by linarith
    then have i: "0 < n \<Longrightarrow> i64 (n + uint w) = n + uint w" by simp
    have "buf = take (nat n) buf @ drop (nat n) (take (nat (n + uint w)) buf) @ drop (nat (n + uint w)) buf" if "0 < n"
      using that w by (metis append_assoc append_take_drop_id nat_mono le_add_same_cancel1 min.absorb2 min.commute take_take)
    moreover have "int (length (drop (nat n) (take (nat (n + uint w)) buf))) = uint w" if "0 < n" "n + uint w \<le> int (length buf)"
    proof -
      have "n = int (nat n)" "uint w = int (unat w)" using that(1) by simp_all
      then obtain m k where "uint w = int m" "n = int k" by blast
      then show ?thesis using that by (simp add: nat_int_add)
    qed
    ultimately show ?thesis using assms(2) w by (simp add: unpackBlock_def ix i Let_def del: length_drop length_take)
  next
    case False
    then have "i64 (n + uint w) = n + uint w - 2 ^ 64" using n w assms(1) by (intro i64_wrap) auto
    then show ?thesis using assms n w False by (simp add: unpackBlock_def ix Let_def)
  qed
qed

theorem unpackBlock_safe_witness:
  "case unpackBlock [2, 7, 8, 9] of
      Inr (ts, vs) \<Rightarrow> 0 < (1 :: int) \<and> [2, 7, 8, 9 :: byte] = take (nat 1) [2, 7, 8, 9] @ ts @ vs \<and> int (length ts) = uint (2 :: u64)
    | Inl Panic \<Rightarrow> 2 ^ 63 - 1 \<le> uint (2 :: u64)
    | Inl (BlockErr e) \<Rightarrow> (1 :: int) \<le> 0 \<or> int (length [2, 7, 8, 9 :: byte]) < 1 + uint (2 :: u64)"
  by (rule unpackBlock_safe) (simp_all add: Uvarint_def)

end
