(* ===== verification/Typed_Block.thy ===== *)
theory Typed_Block
  imports Block
begin

text \<open>
  The generated encoders for typed arrays, \<^verbatim>\<open>tsdb/engine/tsm1/encoding.gen.go\<close>: the same blocks as the encoders for arrays of the
  interface type, without the type assertions. An array of typed values is a list of pairs of timestamp and payload.
\<close>

fun write_typed :: "('v \<Rightarrow> 'e \<Rightarrow> 'e) \<Rightarrow> (int \<times> 'v) list \<Rightarrow> timeEncoder \<Rightarrow> 'e \<Rightarrow> timeEncoder \<times> 'e" where
  "write_typed wr [] tsenc venc = (tsenc, venc)"
| "write_typed wr ((t, x) # ps) tsenc venc = write_typed wr ps (te_Write t tsenc) (wr x venc)"

definition encodeFloatValuesBlock :: "'w codecs \<Rightarrow> 'w encoders \<Rightarrow> (int \<times> u64) list \<Rightarrow> (block_error + bytes) \<times> 'w encoders" where
  "encodeFloatValuesBlock cs es values =
     (if values = [] then (Inr [], es)
      else case write_typed (fe_Write (cs_bw cs) (cs_bc cs)) values (te_Reset (timeEncoderPool es)) (fe_Reset (cs_bw cs) (floatEncoderPool es)) of
        (tsenc, venc) \<Rightarrow> (case finish_block (cs_s8 cs) BlockFloat64 (\<lambda>e. (fe_Bytes e, e)) tsenc (fe_Flush (cs_bw cs) (cs_bc cs) venc) of
          (r, tsenc1, venc1) \<Rightarrow> (r, es\<lparr>timeEncoderPool := tsenc1, floatEncoderPool := venc1\<rparr>)))"

definition encodeIntegerValuesBlock :: "'w codecs \<Rightarrow> 'w encoders \<Rightarrow> (int \<times> int) list \<Rightarrow> (block_error + bytes) \<times> 'w encoders" where
  "encodeIntegerValuesBlock cs es values =
     (if values = [] then (Inr [], es)
      else case write_typed ie_Write values (te_Reset (timeEncoderPool es)) (ie_Reset (integerEncoderPool es)) of
        (tsenc, venc) \<Rightarrow> (case finish_block (cs_s8 cs) BlockInteger (\<lambda>e. (ie_Bytes (cs_s8 cs) e, e)) tsenc venc of
          (r, tsenc1, venc1) \<Rightarrow> (r, es\<lparr>timeEncoderPool := tsenc1, integerEncoderPool := venc1\<rparr>)))"

definition encodeUnsignedValuesBlock :: "'w codecs \<Rightarrow> 'w encoders \<Rightarrow> (int \<times> u64) list \<Rightarrow> (block_error + bytes) \<times> 'w encoders" where
  "encodeUnsignedValuesBlock cs es values =
     (if values = [] then (Inr [], es)
      else case write_typed (\<lambda>v. ie_Write (i64_of v)) values (te_Reset (timeEncoderPool es)) (ie_Reset (integerEncoderPool es)) of
        (tsenc, venc) \<Rightarrow> (case finish_block (cs_s8 cs) BlockUnsigned (\<lambda>e. (ie_Bytes (cs_s8 cs) e, e)) tsenc venc of
          (r, tsenc1, venc1) \<Rightarrow> (r, es\<lparr>timeEncoderPool := tsenc1, integerEncoderPool := venc1\<rparr>)))"

definition encodeStringValuesBlock :: "'w codecs \<Rightarrow> 'w encoders \<Rightarrow> (int \<times> bytes) list \<Rightarrow> (block_error + bytes) \<times> 'w encoders" where
  "encodeStringValuesBlock cs es values =
     (if values = [] then (Inr [], es)
      else case write_typed se_Write values (te_Reset (timeEncoderPool es)) (se_Reset (stringEncoderPool es)) of
        (tsenc, venc) \<Rightarrow> (case finish_block (cs_s8 cs) BlockString (\<lambda>e. (Inr (se_Bytes (cs_sn cs) e), e)) tsenc venc of
          (r, tsenc1, venc1) \<Rightarrow> (r, es\<lparr>timeEncoderPool := tsenc1, stringEncoderPool := venc1\<rparr>)))"

definition encodeBooleanValuesBlock :: "'w codecs \<Rightarrow> 'w encoders \<Rightarrow> (int \<times> bool) list \<Rightarrow> (block_error + bytes) \<times> 'w encoders" where
  "encodeBooleanValuesBlock cs es values =
     (if values = [] then (Inr [], es)
      else case write_typed be_Write values (te_Reset (timeEncoderPool es)) (be_Reset (booleanEncoderPool es)) of
        (tsenc, venc) \<Rightarrow> (case finish_block (cs_s8 cs) BlockBoolean (\<lambda>e. case be_Bytes e of (b, e1) \<Rightarrow> (Inr b, e1)) tsenc venc of
          (r, tsenc1, venc1) \<Rightarrow> (r, es\<lparr>timeEncoderPool := tsenc1, booleanEncoderPool := venc1\<rparr>)))"

lemma write_typed_fold: "write_typed wr ps t e = (fold te_Write (map fst ps) t, fold wr (map snd ps) e)"
  by (induction wr ps t e rule: write_typed.induct) simp_all

lemma Reset_idem [simp]:
  "te_Reset (te_Reset t) = te_Reset t" "ie_Reset (ie_Reset i) = ie_Reset i" "se_Reset (se_Reset s) = se_Reset s" "be_Reset (be_Reset b) = be_Reset b"
  by (simp_all add: te_Reset_def ie_Reset_def se_Reset_def be_Reset_def)

lemmas using_defs = encodeFloatBlockUsing_def encodeIntegerBlockUsing_def encodeUnsignedBlockUsing_def encodeStringBlockUsing_def encodeBooleanBlockUsing_def
lemmas untyped_defs = encodeFloatBlock_def encodeIntegerBlock_def encodeUnsignedBlock_def encodeStringBlock_def encodeBooleanBlock_def
lemmas typed_defs = encodeFloatValuesBlock_def encodeIntegerValuesBlock_def encodeUnsignedValuesBlock_def encodeStringValuesBlock_def
  encodeBooleanValuesBlock_def

lemmas write_as_typed = as_map [THEN write_values_fold]

lemma as_string_pair [simp]: "as_string (case p of (t, x) \<Rightarrow> StringValue t x) = Some p"
  by (cases p) simp

text \<open>What the pools hand out next: the functions \<^verbatim>\<open>getTimeEncoder\<close>, \<^verbatim>\<open>getFloatEncoder\<close> and so on reset the encoder they take
  from the pool.\<close>

definition get_encoders :: "'w codecs \<Rightarrow> 'w encoders \<Rightarrow> 'w encoders" where
  "get_encoders cs es = \<lparr>timeEncoderPool = te_Reset (timeEncoderPool es), integerEncoderPool = ie_Reset (integerEncoderPool es),
     floatEncoderPool = fe_Reset (cs_bw cs) (floatEncoderPool es), stringEncoderPool = se_Reset (stringEncoderPool es),
     booleanEncoderPool = be_Reset (booleanEncoderPool es)\<rparr>"

definition same_outcome :: "'w codecs \<Rightarrow> (block_error + bytes) \<times> 'w encoders \<Rightarrow> (block_error + bytes) \<times> 'w encoders \<Rightarrow> bool" where
  "same_outcome cs r r' \<longleftrightarrow> fst r = fst r' \<and> timeEncoderPool (snd r) = timeEncoderPool (snd r') \<and>
     floatEncoderPool (snd r) = floatEncoderPool (snd r') \<and> get_encoders cs (snd r) = get_encoders cs (snd r')"

lemma same_outcome_value:
  assumes "te_Reset (timeEncoderPool es) = t" "ie_Reset (integerEncoderPool es) = i" "se_Reset (stringEncoderPool es) = s" "be_Reset (booleanEncoderPool es) = b"
  shows "same_outcome cs
      (case finish_block s8 ty f t1 e of (r, t2, e2) \<Rightarrow> (r, es\<lparr>timeEncoderPool := t2, integerEncoderPool := e2\<rparr>))
      (case finish_block s8 ty f t1 e of (r, t2, _) \<Rightarrow> (r, es\<lparr>timeEncoderPool := t2, integerEncoderPool := i\<rparr>))"
    "same_outcome cs
      (case finish_block s8 ty g t1 e' of (r, t2, e2) \<Rightarrow> (r, es\<lparr>timeEncoderPool := t2, stringEncoderPool := e2\<rparr>))
      (case finish_block s8 ty g t1 e' of (r, t2, _) \<Rightarrow> (r, es\<lparr>timeEncoderPool := t2, stringEncoderPool := s\<rparr>))"
    "same_outcome cs
      (case finish_block s8 ty h t1 e'' of (r, t2, e2) \<Rightarrow> (r, es\<lparr>timeEncoderPool := t2, booleanEncoderPool := e2\<rparr>))
      (case finish_block s8 ty h t1 e'' of (r, t2, _) \<Rightarrow> (r, es\<lparr>timeEncoderPool := t2, booleanEncoderPool := b\<rparr>))"
  using assms by (auto simp: same_outcome_def get_encoders_def ie_Reset_def se_Reset_def be_Reset_def split: prod.split)

text \<open>C32: for non-empty arrays the typed encoders return the same block or error as the encoders for the interface type and
  leave the pools such that every encoder handed out next is the same; the pooled time and float encoders
  are even in the same state, while the typed encoders put the integer, string and boolean encoders back as written and
  the others put back a reset copy. For floats this needs that resuming the bit writer twice is resuming
  it once, since the untyped encoder resets twice.\<close>

theorem typed_encoders_agree:
  assumes "ps \<noteq> []" "qs \<noteq> []" "bs \<noteq> []" "ss \<noteq> []"
    and "\<forall>w. bw_Resume (cs_bw cs) 0 8 (bw_Resume (cs_bw cs) 0 8 w) = bw_Resume (cs_bw cs) 0 8 w"
  shows "same_outcome cs (encodeFloatValuesBlock cs es ps) (encodeFloatBlock cs es (map (\<lambda>(t, x). FloatValue t x) ps)) \<and>
    same_outcome cs (encodeIntegerValuesBlock cs es qs) (encodeIntegerBlock cs es (map (\<lambda>(t, x). IntegerValue t x) qs)) \<and>
    same_outcome cs (encodeUnsignedValuesBlock cs es ps) (encodeUnsignedBlock cs es (map (\<lambda>(t, x). UnsignedValue t x) ps)) \<and>
    same_outcome cs (encodeStringValuesBlock cs es ss) (encodeStringBlock cs es (map (\<lambda>(t, x). StringValue t x) ss)) \<and>
    same_outcome cs (encodeBooleanValuesBlock cs es bs) (encodeBooleanBlock cs es (map (\<lambda>(t, x). BooleanValue t x) bs))"
proof -
  have "encodeFloatValuesBlock cs es ps = encodeFloatBlock cs es (map (\<lambda>(t, x). FloatValue t x) ps)"
    using assms by (simp add: typed_defs untyped_defs using_defs write_typed_fold write_as_typed fe_Reset_def del: map_map)
  then show ?thesis
    using assms(1-4)
    by (simp add: typed_defs untyped_defs using_defs write_typed_fold write_as_typed hd_map same_outcome_value del: map_map)
      (simp add: same_outcome_def)
qed

theorem typed_encoders_agree_witness:
  "same_outcome plain_codecs (encodeFloatValuesBlock plain_codecs fresh_encoders [(5, 0)]) (encodeFloatBlock plain_codecs fresh_encoders (map (\<lambda>(t, x). FloatValue t x) [(5, 0)])) \<and>
    same_outcome plain_codecs (encodeIntegerValuesBlock plain_codecs fresh_encoders [(5, 1)]) (encodeIntegerBlock plain_codecs fresh_encoders (map (\<lambda>(t, x). IntegerValue t x) [(5, 1)])) \<and>
    same_outcome plain_codecs (encodeUnsignedValuesBlock plain_codecs fresh_encoders [(5, 0)]) (encodeUnsignedBlock plain_codecs fresh_encoders (map (\<lambda>(t, x). UnsignedValue t x) [(5, 0)])) \<and>
    same_outcome plain_codecs (encodeStringValuesBlock plain_codecs fresh_encoders [(5, [65])]) (encodeStringBlock plain_codecs fresh_encoders (map (\<lambda>(t, x). StringValue t x) [(5, [65])])) \<and>
    same_outcome plain_codecs (encodeBooleanValuesBlock plain_codecs fresh_encoders [(5, True)]) (encodeBooleanBlock plain_codecs fresh_encoders (map (\<lambda>(t, x). BooleanValue t x) [(5, True)]))"
  by (rule typed_encoders_agree) (simp_all add: plain_codecs_def plain_bitstream_def)

end
