(* ===== verification/Meta_Data.thy ===== *)
theory Meta_Data
  imports Prelude "HOL-Library.Multiset"
begin

text \<open>
  The cluster metadata, \<^verbatim>\<open>services/meta/data.go\<close>: databases, retention policies, shard groups and shards inside the metadata of the
  underlying single-node store (\<^verbatim>\<open>influxdb/services/meta\<close>), extended by the lists of meta and data nodes and by the read/write
  status of every replica. Operations of the underlying store are an argument (\<open>meta_lib\<close>). A pointer to a
  retention policy inside the metadata is the pair of its positions. A time is the number of nanoseconds since Go's zero time.
\<close>

datatype meta_error =
  ErrNodeExists | ErrNodeNotFound | ErrNodeIDRequired | ErrRetentionPolicyNotFound string
| ErrRetentionPolicyExists | ErrRetentionPolicyConflict | ErrOther string | MetaPanic

type_synonym time = int

record nodeInfo =
  n_ID :: u64
  n_Host :: string
  n_TCPHost :: string

record shardInfo =
  s_ID :: u64
  s_Owners :: "u64 list"

record shardGroupInfo =
  g_ID :: u64
  g_StartTime :: time
  g_EndTime :: time
  g_DeletedAt :: time
  g_TruncatedAt :: time
  g_Shards :: "shardInfo list"

record subscriptionInfo =
  sub_Name :: string
  sub_Mode :: string
  sub_Destinations :: "string list"

record retentionPolicyInfo =
  rp_Name :: string
  rp_ReplicaN :: int
  rp_Duration :: int
  rp_ShardGroupDuration :: int
  rp_ShardGroups :: "shardGroupInfo list"
  rp_Subscriptions :: "subscriptionInfo list"

record databaseInfo =
  db_Name :: string
  db_DefaultRetentionPolicy :: string
  db_RetentionPolicies :: "retentionPolicyInfo list"
  db_ContinuousQueries :: "(string \<times> string) list"

record userInfo =
  u_Name :: string
  u_Hash :: string
  u_Admin :: bool
  u_Privileges :: "(string \<times> int) list"

record metaData =
  md_Term :: u64
  md_Index :: u64
  md_ClusterID :: u64
  md_Databases :: "databaseInfo list"
  md_Users :: "userInfo list"
  md_MaxShardGroupID :: u64
  md_MaxShardID :: u64

type_synonym shardStatus = int

definition ShardWrite :: shardStatus where "ShardWrite = 1"
definition ShardRead :: shardStatus where "ShardRead = 2"
definition ShardWriteRead :: shardStatus where "ShardWriteRead = 3"

text \<open>A nil map of shard statuses behaves as the empty map: it is replaced before the first insertion.\<close>

type_synonym status = "u64 \<rightharpoonup> (u64 \<rightharpoonup> shardStatus)"

record data =
  d_Data :: metaData
  d_MetaNodes :: "nodeInfo list"
  d_DataNodes :: "nodeInfo list"
  d_ShardStatus :: status
  d_MaxNodeID :: u64

subsection \<open>The underlying store\<close>

record retentionPolicyUpdate =
  rpu_Name :: "string option"
  rpu_Duration :: "int option"
  rpu_ReplicaN :: "int option"
  rpu_ShardGroupDuration :: "int option"

record meta_lib =
  lib_RetentionPolicy :: "metaData \<Rightarrow> string \<Rightarrow> string \<Rightarrow> meta_error + (nat \<times> nat) option"
  lib_ShardGroupByTimestamp :: "retentionPolicyInfo \<Rightarrow> time \<Rightarrow> shardGroupInfo option"
  lib_sortNodes :: "nodeInfo list \<Rightarrow> nodeInfo list"
  lib_sortGroups :: "shardGroupInfo list \<Rightarrow> shardGroupInfo list"
  lib_NewRetentionPolicyInfo :: "string \<Rightarrow> retentionPolicyInfo"
  lib_CreateDatabase :: "string \<Rightarrow> metaData \<Rightarrow> meta_error + metaData"
  lib_DropDatabase :: "string \<Rightarrow> metaData \<Rightarrow> meta_error + metaData"
  lib_CreateRetentionPolicy :: "string \<Rightarrow> retentionPolicyInfo \<Rightarrow> bool \<Rightarrow> metaData \<Rightarrow> meta_error + metaData"
  lib_DropRetentionPolicy :: "string \<Rightarrow> string \<Rightarrow> metaData \<Rightarrow> meta_error + metaData"
  lib_UpdateRetentionPolicy :: "string \<Rightarrow> string \<Rightarrow> retentionPolicyUpdate \<Rightarrow> bool \<Rightarrow> metaData \<Rightarrow> meta_error + metaData"
  lib_DropShard :: "u64 \<Rightarrow> metaData \<Rightarrow> metaData"
  lib_DeleteShardGroup :: "string \<Rightarrow> string \<Rightarrow> u64 \<Rightarrow> metaData \<Rightarrow> meta_error + metaData"
  lib_CreateContinuousQuery :: "string \<Rightarrow> string \<Rightarrow> string \<Rightarrow> metaData \<Rightarrow> meta_error + metaData"
  lib_DropContinuousQuery :: "string \<Rightarrow> string \<Rightarrow> metaData \<Rightarrow> meta_error + metaData"
  lib_CreateSubscription :: "string \<Rightarrow> string \<Rightarrow> string \<Rightarrow> string \<Rightarrow> string list \<Rightarrow> metaData \<Rightarrow> meta_error + metaData"
  lib_DropSubscription :: "string \<Rightarrow> string \<Rightarrow> string \<Rightarrow> metaData \<Rightarrow> meta_error + metaData"
  lib_CreateUser :: "string \<Rightarrow> string \<Rightarrow> bool \<Rightarrow> metaData \<Rightarrow> meta_error + metaData"
  lib_DropUser :: "string \<Rightarrow> metaData \<Rightarrow> meta_error + metaData"
  lib_UpdateUser :: "string \<Rightarrow> string \<Rightarrow> metaData \<Rightarrow> meta_error + metaData"
  lib_SetPrivilege :: "string \<Rightarrow> string \<Rightarrow> int \<Rightarrow> metaData \<Rightarrow> meta_error + metaData"
  lib_SetAdminPrivilege :: "string \<Rightarrow> bool \<Rightarrow> metaData \<Rightarrow> meta_error + metaData"

text \<open>The lookup of a policy returns a pointer to a policy of that name, and sorting permutes.\<close>

definition rp_at :: "metaData \<Rightarrow> nat \<times> nat \<Rightarrow> retentionPolicyInfo" where
  "rp_at md p = (case p of (i, j) \<Rightarrow> db_RetentionPolicies (md_Databases md ! i) ! j)"

definition valid_rp :: "metaData \<Rightarrow> nat \<times> nat \<Rightarrow> bool" where
  "valid_rp md p \<longleftrightarrow> (case p of (i, j) \<Rightarrow> i < length (md_Databases md) \<and> j < length (db_RetentionPolicies (md_Databases md ! i)))"

definition lib_ok :: "meta_lib \<Rightarrow> bool" where
  "lib_ok lib \<longleftrightarrow>
     (\<forall>md db rp p. lib_RetentionPolicy lib md db rp = Inr (Some p) \<longrightarrow> valid_rp md p \<and> rp_Name (rp_at md p) = rp) \<and>
     (\<forall>ns. mset (lib_sortNodes lib ns) = mset ns) \<and>
     (\<forall>gs. mset (lib_sortGroups lib gs) = mset gs)"

subsection \<open>Operations handed to the underlying store\<close>

definition on_data :: "(metaData \<Rightarrow> meta_error + metaData) \<Rightarrow> data \<Rightarrow> meta_error option \<times> data" where
  "on_data f d = (case f (d_Data d) of Inl e \<Rightarrow> (Some e, d) | Inr md \<Rightarrow> (None, d\<lparr>d_Data := md\<rparr>))"

definition CreateDatabase :: "meta_lib \<Rightarrow> string \<Rightarrow> data \<Rightarrow> meta_error option \<times> data" where
  "CreateDatabase lib name = on_data (lib_CreateDatabase lib name)"

definition DropDatabase :: "meta_lib \<Rightarrow> string \<Rightarrow> data \<Rightarrow> meta_error option \<times> data" where
  "DropDatabase lib name = on_data (lib_DropDatabase lib name)"

definition CreateRetentionPolicy :: "meta_lib \<Rightarrow> string \<Rightarrow> retentionPolicyInfo \<Rightarrow> bool \<Rightarrow> data \<Rightarrow> meta_error option \<times> data" where
  "CreateRetentionPolicy lib database rpi makeDefault = on_data (lib_CreateRetentionPolicy lib database rpi makeDefault)"

definition DropRetentionPolicy :: "meta_lib \<Rightarrow> string \<Rightarrow> string \<Rightarrow> data \<Rightarrow> meta_error option \<times> data" where
  "DropRetentionPolicy lib database name = on_data (lib_DropRetentionPolicy lib database name)"

definition UpdateRetentionPolicy ::
  "meta_lib \<Rightarrow> string \<Rightarrow> string \<Rightarrow> retentionPolicyUpdate \<Rightarrow> bool \<Rightarrow> data \<Rightarrow> meta_error option \<times> data" where
  "UpdateRetentionPolicy lib database name rpu makeDefault = on_data (lib_UpdateRetentionPolicy lib database name rpu makeDefault)"

definition DropShard :: "meta_lib \<Rightarrow> u64 \<Rightarrow> data \<Rightarrow> data" where
  "DropShard lib ident d = d\<lparr>d_Data := lib_DropShard lib ident (d_Data d), d_ShardStatus := (d_ShardStatus d)(ident := None)\<rparr>"

definition DeleteShardGroup :: "meta_lib \<Rightarrow> string \<Rightarrow> string \<Rightarrow> u64 \<Rightarrow> data \<Rightarrow> meta_error option \<times> data" where
  "DeleteShardGroup lib database policy ident = on_data (lib_DeleteShardGroup lib database policy ident)"

definition CreateContinuousQuery :: "meta_lib \<Rightarrow> string \<Rightarrow> string \<Rightarrow> string \<Rightarrow> data \<Rightarrow> meta_error option \<times> data" where
  "CreateContinuousQuery lib database name query = on_data (lib_CreateContinuousQuery lib database name query)"

definition DropContinuousQuery :: "meta_lib \<Rightarrow> string \<Rightarrow> string \<Rightarrow> data \<Rightarrow> meta_error option \<times> data" where
  "DropContinuousQuery lib database name = on_data (lib_DropContinuousQuery lib database name)"

definition CreateSubscription :: "meta_lib \<Rightarrow> string \<Rightarrow> string \<Rightarrow> string \<Rightarrow> string \<Rightarrow> string list \<Rightarrow> data \<Rightarrow> meta_error option \<times> data" where
  "CreateSubscription lib database rp name mode destinations = on_data (lib_CreateSubscription lib database rp name mode destinations)"

definition DropSubscription :: "meta_lib \<Rightarrow> string \<Rightarrow> string \<Rightarrow> string \<Rightarrow> data \<Rightarrow> meta_error option \<times> data" where
  "DropSubscription lib database rp name = on_data (lib_DropSubscription lib database rp name)"

definition CreateUser :: "meta_lib \<Rightarrow> string \<Rightarrow> string \<Rightarrow> bool \<Rightarrow> data \<Rightarrow> meta_error option \<times> data" where
  "CreateUser lib name hash admin = on_data (lib_CreateUser lib name hash admin)"

definition DropUser :: "meta_lib \<Rightarrow> string \<Rightarrow> data \<Rightarrow> meta_error option \<times> data" where
  "DropUser lib name = on_data (lib_DropUser lib name)"

definition UpdateUser :: "meta_lib \<Rightarrow> string \<Rightarrow> string \<Rightarrow> data \<Rightarrow> meta_error option \<times> data" where
  "UpdateUser lib name hash = on_data (lib_UpdateUser lib name hash)"

definition SetPrivilege :: "meta_lib \<Rightarrow> string \<Rightarrow> string \<Rightarrow> int \<Rightarrow> data \<Rightarrow> meta_error option \<times> data" where
  "SetPrivilege lib name database p = on_data (lib_SetPrivilege lib name database p)"

definition SetAdminPrivilege :: "meta_lib \<Rightarrow> string \<Rightarrow> bool \<Rightarrow> data \<Rightarrow> meta_error option \<times> data" where
  "SetAdminPrivilege lib name admin = on_data (lib_SetAdminPrivilege lib name admin)"

definition hasAdminUser :: "data \<Rightarrow> bool" where
  "hasAdminUser d \<longleftrightarrow> list_ex u_Admin (md_Users (d_Data d))"

definition find_user :: "string \<Rightarrow> data \<Rightarrow> userInfo option" where
  "find_user username d = find (\<lambda>u. u_Name u = username) (md_Users (d_Data d))"

subsection \<open>Nodes\<close>

definition DataNode :: "u64 \<Rightarrow> data \<Rightarrow> nodeInfo option" where
  "DataNode ident d = find (\<lambda>n. n_ID n = ident) (d_DataNodes d)"

definition MetaNode :: "u64 \<Rightarrow> data \<Rightarrow> nodeInfo option" where
  "MetaNode ident d = find (\<lambda>n. n_ID n = ident) (d_MetaNodes d)"

text \<open>The ID of the first node with the given address; zero when there is none.\<close>

definition existing_id :: "string \<Rightarrow> nodeInfo list \<Rightarrow> u64" where
  "existing_id tcpHost ns = (case find (\<lambda>n. n_TCPHost n = tcpHost) ns of None \<Rightarrow> 0 | Some n \<Rightarrow> n_ID n)"

definition CreateDataNode :: "meta_lib \<Rightarrow> string \<Rightarrow> string \<Rightarrow> data \<Rightarrow> meta_error option \<times> data" where
  "CreateDataNode lib host tcpHost d =
     (if list_ex (\<lambda>n. n_TCPHost n = tcpHost) (d_DataNodes d) then (Some ErrNodeExists, d)
      else
        let existingID = existing_id tcpHost (d_MetaNodes d);
            d1 = if existingID = 0 then d\<lparr>d_MaxNodeID := d_MaxNodeID d + 1\<rparr> else d;
            nid = if existingID = 0 then d_MaxNodeID d1 else existingID
        in (None, d1\<lparr>d_DataNodes := lib_sortNodes lib (d_DataNodes d1 @ [\<lparr>n_ID = nid, n_Host = host, n_TCPHost = tcpHost\<rparr>])\<rparr>))"

definition setDataNode :: "u64 \<Rightarrow> string \<Rightarrow> string \<Rightarrow> data \<Rightarrow> meta_error option \<times> data" where
  "setDataNode nodeID host tcpHost d =
     (if list_ex (\<lambda>n. n_Host n = host) (d_DataNodes d) then (Some ErrNodeExists, d)
      else (None, d\<lparr>d_DataNodes := d_DataNodes d @ [\<lparr>n_ID = nodeID, n_Host = host, n_TCPHost = tcpHost\<rparr>]\<rparr>))"

definition CreateMetaNode :: "meta_lib \<Rightarrow> string \<Rightarrow> string \<Rightarrow> data \<Rightarrow> meta_error option \<times> data" where
  "CreateMetaNode lib httpAddr tcpAddr d =
     (if list_ex (\<lambda>n. n_Host n = httpAddr) (d_MetaNodes d) then (Some ErrNodeExists, d)
      else
        let existingID = existing_id tcpAddr (d_DataNodes d);
            d1 = if existingID = 0 then d\<lparr>d_MaxNodeID := d_MaxNodeID d + 1\<rparr> else d;
            nid = if existingID = 0 then d_MaxNodeID d1 else existingID
        in (None, d1\<lparr>d_MetaNodes := lib_sortNodes lib (d_MetaNodes d1 @ [\<lparr>n_ID = nid, n_Host = httpAddr, n_TCPHost = tcpAddr\<rparr>])\<rparr>))"

definition SetMetaNode :: "meta_lib \<Rightarrow> string \<Rightarrow> string \<Rightarrow> data \<Rightarrow> meta_error option \<times> data" where
  "SetMetaNode lib httpAddr tcpAddr d = (case d_MetaNodes d of
      [] \<Rightarrow> CreateMetaNode lib httpAddr tcpAddr d
    | [n] \<Rightarrow> (None, d\<lparr>d_MetaNodes := [n\<lparr>n_Host := httpAddr, n_TCPHost := tcpAddr\<rparr>]\<rparr>)
    | _ \<Rightarrow> (Some (ErrOther ''cannot set meta node when there are more than 1 in the metastore''), d))"

definition DeleteMetaNode :: "u64 \<Rightarrow> data \<Rightarrow> meta_error option \<times> data" where
  "DeleteMetaNode ident d =
     (if ident = 0 then (Some ErrNodeIDRequired, d)
      else let nodes = filter (\<lambda>n. n_ID n \<noteq> ident) (d_MetaNodes d) in
           if length nodes = length (d_MetaNodes d) then (Some ErrNodeNotFound, d)
           else (None, d\<lparr>d_MetaNodes := nodes\<rparr>))"


subsection \<open>Creating shard groups\<close>

definition Truncate :: "time \<Rightarrow> int \<Rightarrow> time" where
  "Truncate t d = (if d \<le> 0 then t else t - t mod d)"

text \<open>The loop that allocates shard IDs and empty status maps.\<close>

fun alloc_shards :: "nat \<Rightarrow> u64 \<Rightarrow> status \<Rightarrow> shardInfo list \<times> u64 \<times> status" where
  "alloc_shards 0 maxID st = ([], maxID, st)"
| "alloc_shards (Suc k) maxID st =
     (case alloc_shards k (maxID + 1) (st(maxID + 1 \<mapsto> Map.empty)) of
        (ss, m, st') \<Rightarrow> (\<lparr>s_ID = maxID + 1, s_Owners = []\<rparr> # ss, m, st'))"

text \<open>The loop that gives one shard its replicas, and the loop over the shards; the counter runs round the nodes.\<close>

fun assign_owners :: "nat \<Rightarrow> nodeInfo list \<Rightarrow> nat \<Rightarrow> shardInfo \<Rightarrow> status \<Rightarrow> shardInfo \<times> status" where
  "assign_owners 0 nodes nodeIndex si st = (si, st)"
| "assign_owners (Suc k) nodes nodeIndex si st =
     (let nodeID = n_ID (nodes ! (nodeIndex mod length nodes)) in
      assign_owners k nodes (Suc nodeIndex) (si\<lparr>s_Owners := s_Owners si @ [nodeID]\<rparr>)
        (st(s_ID si \<mapsto> (the (st (s_ID si)))(nodeID \<mapsto> ShardWriteRead))))"

fun assign_shards :: "nat \<Rightarrow> nodeInfo list \<Rightarrow> nat \<Rightarrow> shardInfo list \<Rightarrow> status \<Rightarrow> shardInfo list \<times> status" where
  "assign_shards replicaN nodes nodeIndex [] st = ([], st)"
| "assign_shards replicaN nodes nodeIndex (si # ss) st =
     (case assign_owners replicaN nodes nodeIndex si st of (si', st1) \<Rightarrow>
        (case assign_shards replicaN nodes (nodeIndex + replicaN) ss st1 of (ss', st2) \<Rightarrow> (si' # ss', st2)))"

definition update_rp :: "nat \<times> nat \<Rightarrow> (retentionPolicyInfo \<Rightarrow> retentionPolicyInfo) \<Rightarrow> metaData \<Rightarrow> metaData" where
  "update_rp p f md = (case p of (i, j) \<Rightarrow>
     (let db = md_Databases md ! i in
      md\<lparr>md_Databases := (md_Databases md)[i := db\<lparr>db_RetentionPolicies := (db_RetentionPolicies db)[j := f (db_RetentionPolicies db ! j)]\<rparr>]\<rparr>))"

text \<open>At least one replica and no more than there are nodes; Go's division truncates, and a negative size is a panic.\<close>

definition replicas :: "int \<Rightarrow> nat \<Rightarrow> int" where
  "replicas replicaN n = (if replicaN = 0 then 1 else if replicaN > int n then int n else replicaN)"

definition go_div :: "int \<Rightarrow> int \<Rightarrow> int" where
  "go_div a b = (if b < 0 then - (a div - b) else a div b)"

definition CreateShardGroup :: "meta_lib \<Rightarrow> string \<Rightarrow> string \<Rightarrow> time \<Rightarrow> data \<Rightarrow> meta_error option \<times> data" where
  "CreateShardGroup lib database policy timestamp d =
     (if d_DataNodes d = [] then (None, d)
      else case lib_RetentionPolicy lib (d_Data d) database policy of
        Inl e \<Rightarrow> (Some e, d)
      | Inr None \<Rightarrow> (Some (ErrRetentionPolicyNotFound policy), d)
      | Inr (Some p) \<Rightarrow>
          let rpi = rp_at (d_Data d) p; n = length (d_DataNodes d) in
          if lib_ShardGroupByTimestamp lib rpi timestamp \<noteq> None then (None, d)
          else
            let replicaN = replicas (rp_ReplicaN rpi) n; shardN = go_div (int n) replicaN in
            if shardN < 0 then (Some MetaPanic, d)
            else
              let gid = md_MaxShardGroupID (d_Data d) + 1;
                  start = Truncate timestamp (rp_ShardGroupDuration rpi)
              in case alloc_shards (nat shardN) (md_MaxShardID (d_Data d)) (d_ShardStatus d) of (shards, maxID, st) \<Rightarrow>
                 (case assign_shards (nat replicaN) (d_DataNodes d) (unat (md_Index (d_Data d)) mod n) shards st of (shards', st') \<Rightarrow>
                    let sgi = \<lparr>g_ID = gid, g_StartTime = start, g_EndTime = start + rp_ShardGroupDuration rpi, g_DeletedAt = 0,
                               g_TruncatedAt = 0, g_Shards = shards'\<rparr>;
                        md = (d_Data d)\<lparr>md_MaxShardGroupID := gid, md_MaxShardID := maxID\<rparr>
                    in (None, d\<lparr>d_Data := update_rp p (\<lambda>rp. rp\<lparr>rp_ShardGroups := lib_sortGroups lib (rp_ShardGroups rp @ [sgi])\<rparr>) md,
                                d_ShardStatus := st'\<rparr>)))"

subsection \<open>Changing the owners of a shard\<close>

text \<open>Loops over all shards, threading the status map; the last component of a result is the changed element.\<close>

fun map_state :: "('s \<Rightarrow> 'a \<Rightarrow> 'e option \<times> 's \<times> 'a) \<Rightarrow> 's \<Rightarrow> 'a list \<Rightarrow> 'e option \<times> 's \<times> 'a list" where
  "map_state f st [] = (None, st, [])"
| "map_state f st (x # xs) = (case f st x of
      (Some e, st', x') \<Rightarrow> (Some e, st', x' # xs)
    | (None, st', x') \<Rightarrow> (case map_state f st' xs of (r, st'', xs') \<Rightarrow> (r, st'', x' # xs')))"

definition on_rps :: "('s \<Rightarrow> retentionPolicyInfo \<Rightarrow> 'e option \<times> 's \<times> retentionPolicyInfo) \<Rightarrow> 's \<Rightarrow> databaseInfo \<Rightarrow> 'e option \<times> 's \<times> databaseInfo" where
  "on_rps f st db = (case map_state f st (db_RetentionPolicies db) of (r, st', rps) \<Rightarrow> (r, st', db\<lparr>db_RetentionPolicies := rps\<rparr>))"

definition on_groups :: "('s \<Rightarrow> shardGroupInfo \<Rightarrow> 'e option \<times> 's \<times> shardGroupInfo) \<Rightarrow> 's \<Rightarrow> retentionPolicyInfo \<Rightarrow> 'e option \<times> 's \<times> retentionPolicyInfo" where
  "on_groups f st rp = (case map_state f st (rp_ShardGroups rp) of (r, st', gs) \<Rightarrow> (r, st', rp\<lparr>rp_ShardGroups := gs\<rparr>))"

text \<open>The nest of loops over databases, policies and groups.\<close>

definition on_all_groups ::
  "(status \<Rightarrow> shardGroupInfo \<Rightarrow> 'e option \<times> status \<times> shardGroupInfo) \<Rightarrow> data \<Rightarrow> 'e option \<times> data" where
  "on_all_groups f d = (case map_state (on_rps (on_groups f)) (d_ShardStatus d) (md_Databases (d_Data d)) of
      (r, st, dbs) \<Rightarrow> (r, d\<lparr>d_Data := (d_Data d)\<lparr>md_Databases := dbs\<rparr>, d_ShardStatus := st\<rparr>))"

definition add_owners :: "u64 \<Rightarrow> u64 list \<Rightarrow> status \<Rightarrow> shardInfo \<Rightarrow> 'e option \<times> status \<times> shardInfo" where
  "add_owners ident newOwners st s =
     (if s_ID s = ident
      then (None, fold (\<lambda>o' st. case st ident of None \<Rightarrow> st | Some m \<Rightarrow> st(ident \<mapsto> m(o' \<mapsto> ShardWrite))) newOwners st,
            s\<lparr>s_Owners := s_Owners s @ newOwners\<rparr>)
      else (None, st, s))"

definition UpdateShard :: "u64 \<Rightarrow> u64 list \<Rightarrow> data \<Rightarrow> data" where
  "UpdateShard ident newOwners d =
     snd (on_all_groups (\<lambda>st g. case map_state (add_owners ident newOwners) st (g_Shards g) of
        (r, st', ss) \<Rightarrow> (r :: unit option, st', g\<lparr>g_Shards := ss\<rparr>)) d)"

subsection \<open>Removing a data node\<close>

text \<open>Counting owners: Go's map from node to frequency, as an association list.\<close>

fun count_owner :: "int \<Rightarrow> (int \<times> int) list \<Rightarrow> (int \<times> int) list" where
  "count_owner k [] = [(k, 1)]"
| "count_owner k ((j, f) # fs) = (if j = k then (j, f + 1) # fs else (j, f) # count_owner k fs)"

text \<open>The last position of the node among the owners is removed.\<close>

fun remove_last :: "u64 \<Rightarrow> u64 list \<Rightarrow> u64 list" where
  "remove_last ident [] = []"
| "remove_last ident (x # xs) = (if x = ident \<and> ident \<notin> set xs then xs else x # remove_last ident xs)"

definition scan_shard ::
  "u64 \<Rightarrow> status \<times> (int \<times> int) list \<Rightarrow> shardInfo \<Rightarrow> (status \<times> (int \<times> int) list) \<times> shardInfo" where
  "scan_shard ident acc s = (case acc of (st, freqs) \<Rightarrow>
     (((if ident \<in> set (s_Owners s) then (case st (s_ID s) of None \<Rightarrow> st | Some m \<Rightarrow> st(s_ID s \<mapsto> m(ident := None))) else st,
       fold (\<lambda>x. count_owner (i64_of x)) (s_Owners s) freqs),
      s\<lparr>s_Owners := remove_last ident (s_Owners s)\<rparr>)))"

fun scan_shards ::
  "u64 \<Rightarrow> status \<times> (int \<times> int) list \<Rightarrow> shardInfo list \<Rightarrow> (status \<times> (int \<times> int) list) \<times> shardInfo list" where
  "scan_shards ident acc [] = (acc, [])"
| "scan_shards ident acc (s # ss) =
     (case scan_shard ident acc s of (acc1, s') \<Rightarrow> (case scan_shards ident acc1 ss of (acc2, ss') \<Rightarrow> (acc2, s' # ss')))"

text \<open>The choice of the new owner; \<open>iter\<close> is the order in which the runtime visits a map.\<close>

fun min_owner :: "int \<Rightarrow> int \<Rightarrow> (int \<times> int) list \<Rightarrow> int" where
  "min_owner minId minFreq [] = minId"
| "min_owner minId minFreq ((k, f) # fs) = (if minId = -1 \<or> f < minFreq then min_owner k f fs else min_owner minId minFreq fs)"

definition newShardOwner :: "((int \<times> int) list \<Rightarrow> (int \<times> int) list) \<Rightarrow> (int \<times> int) list \<Rightarrow> meta_error + u64 \<times> (int \<times> int) list" where
  "newShardOwner iter freqs =
     (let minId = min_owner (-1) 0 (iter freqs) in
      if minId < 0 then Inl (ErrOther ''cannot reassign shard due to lack of data nodes'')
      else Inr (u64_of minId, count_owner minId freqs))"

fun add_owner_first :: "u64 \<Rightarrow> u64 \<Rightarrow> shardInfo list \<Rightarrow> shardInfo list" where
  "add_owner_first ident owner [] = []"
| "add_owner_first ident owner (s # ss) =
     (if s_ID s = ident then s\<lparr>s_Owners := s_Owners s @ [owner]\<rparr> # ss else s # add_owner_first ident owner ss)"

fun reassign :: "((int \<times> int) list \<Rightarrow> (int \<times> int) list) \<Rightarrow> shardInfo list \<Rightarrow> (int \<times> int) list \<Rightarrow> shardInfo list \<Rightarrow> meta_error option \<times> shardInfo list" where
  "reassign iter [] freqs ss = (None, ss)"
| "reassign iter (orphan # os) freqs ss = (case newShardOwner iter freqs of
      Inl e \<Rightarrow> (Some e, ss)
    | Inr (owner, freqs') \<Rightarrow> reassign iter os freqs' (add_owner_first (s_ID orphan) owner ss))"

definition delete_in_group ::
  "((int \<times> int) list \<Rightarrow> (int \<times> int) list) \<Rightarrow> time \<Rightarrow> u64 \<Rightarrow> status \<Rightarrow> shardGroupInfo \<Rightarrow> meta_error option \<times> status \<times> shardGroupInfo" where
  "delete_in_group iter now ident st g =
     (case scan_shards ident (st, []) (g_Shards g) of ((st', freqs), ss) \<Rightarrow>
        let orphans = filter (\<lambda>s. s_Owners s = []) ss in
        if ss = [] \<or> length orphans = length ss then (None, st', g\<lparr>g_Shards := ss, g_DeletedAt := now\<rparr>)
        else case reassign iter orphans (filter (\<lambda>(k, _). k \<noteq> i64_of ident) freqs) ss of
          (r, ss') \<Rightarrow> (r, st', g\<lparr>g_Shards := ss'\<rparr>))"

definition DeleteDataNode :: "((int \<times> int) list \<Rightarrow> (int \<times> int) list) \<Rightarrow> time \<Rightarrow> u64 \<Rightarrow> data \<Rightarrow> meta_error option \<times> data" where
  "DeleteDataNode iter now ident d =
     (let nodes = filter (\<lambda>n. n_ID n \<noteq> ident) (d_DataNodes d) in
      if length nodes = length (d_DataNodes d) then (Some ErrNodeNotFound, d)
      else on_all_groups (delete_in_group iter now ident) (d\<lparr>d_DataNodes := nodes\<rparr>))"


subsection \<open>Lemmas: shard groups\<close>

lemma alloc_shards_result:
  "alloc_shards k m st = (map (\<lambda>i. \<lparr>s_ID = m + of_nat (Suc i), s_Owners = []\<rparr>) [0..<k], m + of_nat k,
     \<lambda>x. if x \<in> (\<lambda>i. m + of_nat (Suc i)) ` {0..<k} then Some Map.empty else st x)"
proof (induction k arbitrary: m st)
  case 0
  then show ?case by simp
next
  case (Suc k)
  have "(\<lambda>i. m + of_nat (Suc i)) ` {0..<Suc k} = insert (m + 1) ((\<lambda>i. m + 1 + of_nat (Suc i)) ` {0..<k})"
    by (simp only: atLeast0_lessThan_Suc_eq_insert_0 image_insert image_image) (simp add: add.commute add.left_commute)
  moreover have "map f [0..<Suc k] = f 0 # map (\<lambda>i. f (Suc i)) [0..<k]" for f :: "nat \<Rightarrow> shardInfo"
    by (simp add: upt_conv_Cons map_Suc_upt [symmetric] comp_def del: upt_Suc)
  ultimately show ?case by (auto simp: Suc.IH fun_eq_iff add.assoc simp del: upt_Suc)
qed

definition slot :: "nodeInfo list \<Rightarrow> nat \<Rightarrow> u64" where
  "slot nodes k = n_ID (nodes ! (k mod length nodes))"

definition fresh_status :: "u64 list \<Rightarrow> (u64 \<rightharpoonup> shardStatus)" where
  "fresh_status os = (\<lambda>x. if x \<in> set os then Some ShardWriteRead else None)"

lemma assign_owners_result:
  "st (s_ID si) = Some (fresh_status (s_Owners si)) \<Longrightarrow>
   assign_owners r nodes ix si st =
     (si\<lparr>s_Owners := s_Owners si @ map (slot nodes) [ix..<ix + r]\<rparr>,
      st(s_ID si \<mapsto> fresh_status (s_Owners si @ map (slot nodes) [ix..<ix + r])))"
proof (induction r arbitrary: ix si st)
  case 0
  then show ?case by (simp add: fun_upd_idem)
next
  case (Suc r)
  let ?x = "n_ID (nodes ! (ix mod length nodes))"
  have x: "slot nodes ix = ?x" by (simp add: slot_def)
  have upd: "(the (st (s_ID si)))(?x \<mapsto> ShardWriteRead) = fresh_status (s_Owners si @ [?x])"
    using Suc.prems by (auto simp: fresh_status_def fun_eq_iff)
  have "[ix..<ix + Suc r] = ix # [Suc ix..<Suc ix + r]" by (simp add: upt_conv_Cons)
  then show ?case unfolding assign_owners.simps Let_def upd
    by (subst Suc.IH) (simp_all add: x del: upt_Suc)
qed

lemma assign_shards_result:
  assumes "distinct (map s_ID ss)" "\<forall>s \<in> set ss. s_Owners s = [] \<and> st (s_ID s) = Some Map.empty"
  shows "\<exists>ss' st'. assign_shards r nodes ix ss st = (ss', st') \<and> map s_ID ss' = map s_ID ss \<and>
    map s_Owners ss' = map (\<lambda>i. map (slot nodes) [ix + i * r..<ix + i * r + r]) [0..<length ss] \<and>
    (\<forall>s \<in> set ss'. st' (s_ID s) = Some (fresh_status (s_Owners s))) \<and> (\<forall>x. x \<notin> s_ID ` set ss \<longrightarrow> st' x = st x)"
  using assms
proof (induction ss arbitrary: ix st)
  case Nil
  then show ?case by simp
next
  case (Cons s ss)
  let ?os = "map (slot nodes) [ix..<ix + r]"
  let ?s = "s\<lparr>s_Owners := ?os\<rparr>" and ?st = "st(s_ID s \<mapsto> fresh_status ?os)"
  have "st (s_ID s) = Some (fresh_status (s_Owners s))" using Cons.prems(2) by (simp add: fresh_status_def)
  then have a: "assign_owners r nodes ix s st = (?s, ?st)" using assign_owners_result [of st s r nodes ix] Cons.prems(2) by simp
  have nid: "s_ID s \<notin> s_ID ` set ss" using Cons.prems(1) by auto
  have pre: "\<forall>sa \<in> set ss. s_Owners sa = [] \<and> ?st (s_ID sa) = Some Map.empty"
  proof
    fix sa assume sa: "sa \<in> set ss"
    then have "s_ID sa \<noteq> s_ID s" using nid by (metis imageI)
    then show "s_Owners sa = [] \<and> ?st (s_ID sa) = Some Map.empty" using Cons.prems(2) sa by simp
  qed
  obtain ss' st' where ih: "assign_shards r nodes (ix + r) ss ?st = (ss', st')" "map s_ID ss' = map s_ID ss"
      "map s_Owners ss' = map (\<lambda>i. map (slot nodes) [ix + r + i * r..<ix + r + i * r + r]) [0..<length ss]"
      "\<forall>s \<in> set ss'. st' (s_ID s) = Some (fresh_status (s_Owners s))" "\<forall>x. x \<notin> s_ID ` set ss \<longrightarrow> st' x = ?st x"
    using Cons.IH [OF _ pre, of "ix + r"] Cons.prems(1) unfolding list.map distinct.simps by blast
  have "st' (s_ID s) = Some (fresh_status ?os)" using ih(5) nid by simp
  moreover have "map f [0..<Suc (length ss)] = f 0 # map (\<lambda>i. f (Suc i)) [0..<length ss]" for f :: "nat \<Rightarrow> u64 list"
    by (simp add: upt_conv_Cons map_Suc_upt [symmetric] comp_def del: upt_Suc)
  moreover have "map s_Owners ss' = map (\<lambda>i. map (slot nodes) [ix + Suc i * r..<ix + Suc i * r + r]) [0..<length ss]"
    using ih(3) by (simp add: add.assoc)
  ultimately show ?case using ih(1,2,4,5) a by (simp del: upt_Suc mult_Suc)
qed

lemma concat_slots: "concat (map (\<lambda>i. map f [ix + i * r..<ix + i * r + r]) [0..<k]) = map f [ix..<ix + k * r]"
proof (induction k)
  case (Suc k)
  have "[ix..<ix + Suc k * r] = [ix..<ix + k * r] @ [ix + k * r..<ix + k * r + r]"
    using upt_add_eq_append [of ix "ix + k * r" r] by (simp add: add.commute add.left_commute)
  then show ?case using Suc by simp
qed simp

text \<open>Going round the nodes visits a node at most once in a full turn.\<close>

lemma distinct_slots:
  assumes "distinct (map n_ID nodes)" "k \<le> length nodes" "nodes \<noteq> []"
  shows "distinct (map (slot nodes) [ix..<ix + k])"
proof -
  have "inj_on (slot nodes) {ix..<ix + k}"
  proof (rule inj_onI)
    fix i j assume ij: "i \<in> {ix..<ix + k}" "j \<in> {ix..<ix + k}" "slot nodes i = slot nodes j"
    then have "map n_ID nodes ! (i mod length nodes) = map n_ID nodes ! (j mod length nodes)" using assms(3) by (simp add: slot_def)
    then have m: "i mod length nodes = j mod length nodes" using assms(1,3) by (metis length_greater_0_conv length_map mod_less_divisor nth_eq_iff_index_eq)
    show "i = j"
    proof (rule ccontr)
      assume "i \<noteq> j"
      then consider "i < j" | "j < i" by linarith
      then have "length nodes \<le> (if i < j then j - i else i - j)"
        using m by cases (metis mod_eq_dvd_iff_nat dvd_imp_le less_imp_le zero_less_diff, metis mod_eq_dvd_iff_nat dvd_imp_le less_imp_le not_less_iff_gr_or_eq zero_less_diff)
      then show False using ij assms(2) by (auto split: if_splits)
    qed
  qed
  then show ?thesis by (simp add: distinct_map)
qed

lemma slot_in_nodes: "nodes \<noteq> [] \<Longrightarrow> slot nodes k \<in> n_ID ` set nodes"
  by (simp add: slot_def)

lemma rp_at_update_rp [simp]: "valid_rp md p \<Longrightarrow> rp_at (update_rp p f md) p = f (rp_at md p)"
  by (auto simp: valid_rp_def rp_at_def update_rp_def Let_def split: prod.split)

lemma rp_at_update_counters [simp]:
  "rp_at (md\<lparr>md_MaxShardGroupID := a, md_MaxShardID := b\<rparr>) p = rp_at md p"
  "valid_rp (md\<lparr>md_MaxShardGroupID := a, md_MaxShardID := b\<rparr>) p = valid_rp md p"
  by (simp_all add: rp_at_def valid_rp_def)

lemma distinct_shard_ids: "k < 2 ^ 64 \<Longrightarrow> distinct (map (\<lambda>i. (m :: u64) + of_nat (Suc i)) [0..<k])"
proof -
  assume k: "k < 2 ^ 64"
  have "inj_on (\<lambda>i. m + of_nat (Suc i)) {0..<k}"
  proof (rule inj_onI)
    fix i j assume ij: "i \<in> {0..<k}" "j \<in> {0..<k}" "m + of_nat (Suc i) = m + of_nat (Suc j)"
    then have "(of_nat (Suc i) :: u64) = of_nat (Suc j)" by (simp only: add_left_cancel)
    moreover have "unat (of_nat (Suc i) :: u64) = Suc i" "unat (of_nat (Suc j) :: u64) = Suc j"
      using ij(1,2) k by (simp_all add: unat_of_nat del: of_nat_Suc)
    ultimately have "Suc i = Suc j" by metis
    then show "i = j" by simp
  qed
  then show ?thesis by (simp add: distinct_map)
qed

lemma replicas_bounds: "0 \<le> a \<Longrightarrow> 0 < n \<Longrightarrow> 0 < replicas a n \<and> replicas a n \<le> int n"
  by (auto simp: replicas_def)

text \<open>The shards of a new group: their number, owners and statuses.\<close>

lemma new_shards:
  assumes nodes: "nodes \<noteq> []" "distinct (map n_ID nodes)" "length nodes < 2 ^ 64" and r: "0 < r" "r \<le> length nodes"
  obtains ss st1 ss' st' where "alloc_shards (length nodes div r) m st = (ss, m + of_nat (length nodes div r), st1)"
    "assign_shards r nodes ix ss st1 = (ss', st')" "length ss' = length nodes div r" "distinct (map s_ID ss')"
    "map s_ID ss' = map (\<lambda>i. m + of_nat (Suc i)) [0..<length nodes div r]" "distinct (concat (map s_Owners ss'))"
    "\<forall>s \<in> set ss'. length (s_Owners s) = r \<and> set (s_Owners s) \<subseteq> n_ID ` set nodes \<and> st' (s_ID s) = Some (fresh_status (s_Owners s))"
proof -
  let ?k = "length nodes div r"
  have k: "?k < 2 ^ 64" using nodes(3) div_le_dividend [of "length nodes" r] by linarith
  define ss where "ss = map (\<lambda>i. \<lparr>s_ID = m + of_nat (Suc i), s_Owners = []\<rparr>) [0..<?k]"
  obtain st1 where a: "alloc_shards ?k m st = (ss, m + of_nat ?k, st1)" "\<forall>s \<in> set ss. s_Owners s = [] \<and> st1 (s_ID s) = Some Map.empty"
    unfolding alloc_shards_result ss_def by force
  have d: "distinct (map s_ID ss)" using distinct_shard_ids [OF k, of m] by (simp add: ss_def comp_def)
  obtain ss' st' where b: "assign_shards r nodes ix ss st1 = (ss', st')" "map s_ID ss' = map s_ID ss"
      "map s_Owners ss' = map (\<lambda>i. map (slot nodes) [ix + i * r..<ix + i * r + r]) [0..<length ss]"
      "\<forall>s \<in> set ss'. st' (s_ID s) = Some (fresh_status (s_Owners s))" using assign_shards_result [OF d a(2)] by blast
  have len: "length ss' = ?k" using b(2) by (metis length_map ss_def length_upt minus_nat.diff_0)
  have "concat (map s_Owners ss') = map (slot nodes) [ix..<ix + ?k * r]" unfolding b(3) concat_slots by (simp add: ss_def)
  then have "distinct (concat (map s_Owners ss'))" using distinct_slots [OF nodes(2) _ nodes(1), of "?k * r" ix] by simp
  moreover have "length (s_Owners s) = r \<and> set (s_Owners s) \<subseteq> n_ID ` set nodes" if "s \<in> set ss'" for s
  proof -
    from that have "s_Owners s \<in> set (map s_Owners ss')" by simp
    then obtain i where "s_Owners s = map (slot nodes) [ix + i * r..<ix + i * r + r]" unfolding b(3) by auto
    then show ?thesis using slot_in_nodes [OF nodes(1)] by auto
  qed
  moreover have "map s_ID ss' = map (\<lambda>i. m + of_nat (Suc i)) [0..<?k]" using b(2) by (simp add: ss_def)
  ultimately show thesis using that [OF a(1) b(1) len] d b(2,4) by simp
qed

text \<open>Counting up from a counter that does not wrap around gives new values.\<close>

lemma fresh_ids:
  fixes m :: "'a :: len word"
  assumes "x \<in> set (map (\<lambda>i. m + of_nat (Suc i)) [0..<k])" "unat m + k < 2 ^ LENGTH('a)"
  shows "m < x \<and> x \<le> m + of_nat k"
proof -
  have add: "unat (m + of_nat j) = unat m + j" if "j \<le> k" for j
    using assms(2) that unsigned_less [of m] by (simp add: unat_word_ariths unat_of_nat)
  obtain i where "i < k" "x = m + of_nat (Suc i)" using assms(1) by auto
  then show ?thesis using add [of "Suc i"] add [of k] unfolding word_less_nat_alt word_le_nat_alt by simp
qed

lemma Truncate_bounds: "0 < dur \<Longrightarrow> Truncate t dur \<le> t \<and> t < Truncate t dur + dur"
  by (simp add: Truncate_def)

subsection \<open>Properties: shard groups\<close>


subsection \<open>Lemmas: removing a node\<close>

lemma map_state_all:
  "\<forall>x \<in> set xs. \<forall>st. \<exists>st' x'. f st x = (None, st', x') \<and> P x x' \<Longrightarrow>
   \<exists>st' xs'. map_state f st xs = (None, st', xs') \<and> list_all2 P xs xs'"
proof (induction xs arbitrary: st)
  case (Cons x xs)
  then obtain st1 x' where 1: "f st x = (None, st1, x')" "P x x'" by fastforce
  obtain st2 xs' where "map_state f st1 xs = (None, st2, xs')" "list_all2 P xs xs'" using Cons.IH [of st1] Cons.prems by auto
  then show ?case using 1 by simp
qed simp

definition all_groups :: "data \<Rightarrow> shardGroupInfo list" where
  "all_groups d = concat (map (\<lambda>db. concat (map rp_ShardGroups (db_RetentionPolicies db))) (md_Databases (d_Data d)))"

lemma list_all2_concat_map:
  "list_all2 Q xs ys \<Longrightarrow> (\<And>x y. Q x y \<Longrightarrow> list_all2 P (f x) (f y)) \<Longrightarrow> list_all2 P (concat (map f xs)) (concat (map f ys))"
  by (induction rule: list_all2_induct) (auto intro: list_all2_appendI)

lemma on_all_groups_all:
  assumes "\<forall>g \<in> set (all_groups d). \<forall>st. \<exists>st' g'. f st g = (None, st', g') \<and> P g g'"
  shows "\<exists>d'. on_all_groups f d = (None, d') \<and> list_all2 P (all_groups d) (all_groups d') \<and>
    d_DataNodes d' = d_DataNodes d \<and> d_MetaNodes d' = d_MetaNodes d \<and> d_MaxNodeID d' = d_MaxNodeID d"
proof -
  let ?R = "\<lambda>rp rp'. list_all2 P (rp_ShardGroups rp) (rp_ShardGroups rp')"
  let ?D = "\<lambda>db db'. list_all2 ?R (db_RetentionPolicies db) (db_RetentionPolicies db')"
  have groups: "\<exists>st' rp'. on_groups f st rp = (None, st', rp') \<and> ?R rp rp'"
    if g: "\<forall>g \<in> set (rp_ShardGroups rp). g \<in> set (all_groups d)" for st rp
  proof -
    obtain st' gs' where "map_state f st (rp_ShardGroups rp) = (None, st', gs')" "list_all2 P (rp_ShardGroups rp) gs'"
      using map_state_all [of "rp_ShardGroups rp" f P st] assms g by auto
    then show ?thesis by (simp add: on_groups_def)
  qed
  have policies: "\<exists>st' db'. on_rps (on_groups f) st db = (None, st', db') \<and> ?D db db'" if db: "db \<in> set (md_Databases (d_Data d))" for st db
  proof -
    have "\<forall>rp \<in> set (db_RetentionPolicies db). \<forall>st. \<exists>st' rp'. on_groups f st rp = (None, st', rp') \<and> ?R rp rp'"
    proof (intro ballI allI)
      fix rp st assume "rp \<in> set (db_RetentionPolicies db)"
      then have "\<forall>g \<in> set (rp_ShardGroups rp). g \<in> set (all_groups d)" using db by (auto simp: all_groups_def)
      then show "\<exists>st' rp'. on_groups f st rp = (None, st', rp') \<and> ?R rp rp'" by (rule groups)
    qed
    from map_state_all [OF this, of st] show ?thesis by (auto simp: on_rps_def)
  qed
  then obtain st' dbs' where m: "map_state (on_rps (on_groups f)) (d_ShardStatus d) (md_Databases (d_Data d)) = (None, st', dbs')"
    "list_all2 ?D (md_Databases (d_Data d)) dbs'" using map_state_all [of "md_Databases (d_Data d)" "on_rps (on_groups f)" ?D] by blast
  have "list_all2 P (all_groups d) (concat (map (\<lambda>db. concat (map rp_ShardGroups (db_RetentionPolicies db))) dbs'))"
    unfolding all_groups_def by (rule list_all2_concat_map [OF m(2)]) (rule list_all2_concat_map)
  then show ?thesis using m(1) by (simp add: on_all_groups_def all_groups_def)
qed

lemma set_remove_last: "distinct xs \<Longrightarrow> set (remove_last i xs) = set xs - {i}"
  by (induction xs) auto

definition keys :: "(int \<times> int) list \<Rightarrow> int set" where
  "keys fs = fst ` set fs"

lemma keys_Nil: "keys [] = {}"
  by (simp add: keys_def)

lemma keys_count_owner [simp]: "keys (count_owner k fs) = insert k (keys fs)"
  by (induction k fs rule: count_owner.induct) (auto simp: keys_def)

lemma keys_count_owners: "keys (fold (\<lambda>x. count_owner (i64_of x)) os fs) = i64_of ` set os \<union> keys fs"
  by (induction os arbitrary: fs) auto

lemma scan_shards_result:
  "\<exists>st' fs'. scan_shards i (st, fs) ss = ((st', fs'), map (\<lambda>s. s\<lparr>s_Owners := remove_last i (s_Owners s)\<rparr>) ss) \<and>
     keys fs' = (\<Union>s \<in> set ss. i64_of ` set (s_Owners s)) \<union> keys fs"
proof (induction ss arbitrary: st fs)
  case (Cons s ss)
  obtain st1 where "scan_shard i (st, fs) s =
      ((st1, fold (\<lambda>x. count_owner (i64_of x)) (s_Owners s) fs), s\<lparr>s_Owners := remove_last i (s_Owners s)\<rparr>)"
    by (simp add: scan_shard_def)
  then show ?case using Cons.IH [of st1 "fold (\<lambda>x. count_owner (i64_of x)) (s_Owners s) fs"] by (auto simp: keys_count_owners)
qed simp

definition iter_ok :: "((int \<times> int) list \<Rightarrow> (int \<times> int) list) \<Rightarrow> bool" where
  "iter_ok iter \<longleftrightarrow> (\<forall>fs. set (iter fs) = set fs)"

lemma min_owner_in: "minId \<noteq> -1 \<Longrightarrow> -1 \<notin> fst ` set fs \<Longrightarrow> min_owner minId f fs \<in> insert minId (fst ` set fs)"
  by (induction minId f fs rule: min_owner.induct) auto

lemma newShardOwner_ok:
  assumes "iter_ok iter" "keys fs \<noteq> {}" "\<forall>k \<in> keys fs. 0 \<le> k"
  shows "\<exists>k. k \<in> keys fs \<and> newShardOwner iter fs = Inr (u64_of k, count_owner k fs)"
proof -
  have set: "set (iter fs) = set fs" using assms(1) by (simp add: iter_ok_def)
  then obtain k f gs where c: "iter fs = (k, f) # gs" using assms(2) by (cases "iter fs") (auto simp: keys_def)
  have k: "k \<in> keys fs" "fst ` set gs \<subseteq> keys fs" using c set by (auto simp: keys_def simp flip: set)
  have "k \<noteq> -1" using k(1) assms(3) by auto
  moreover have "-1 \<notin> keys fs" using assms(3) by auto
  then have "-1 \<notin> fst ` set gs" using k(2) by blast
  ultimately have "min_owner k f gs \<in> insert k (fst ` set gs)" by (rule min_owner_in)
  then have "min_owner (-1) 0 (iter fs) \<in> keys fs" using k c by auto
  then show ?thesis using assms(3) by (intro exI [of _ "min_owner (-1) 0 (iter fs)"]) (simp add: newShardOwner_def Let_def not_less)
qed

lemma add_owner_first_map:
  "distinct (map s_ID ss) \<Longrightarrow> add_owner_first i x ss = map (\<lambda>s. if s_ID s = i then s\<lparr>s_Owners := s_Owners s @ [x]\<rparr> else s) ss"
proof (induction ss)
  case (Cons s ss)
  have "\<forall>t \<in> set ss. s_ID t \<noteq> s_ID s" using Cons.prems by (metis distinct.simps(2) image_eqI list.simps(9) set_map)
  then show ?case using Cons by (auto intro!: map_idI [symmetric])
qed simp

text \<open>Every orphan gets one new owner, the other shards keep theirs.\<close>

lemma reassign_ok:
  assumes "iter_ok iter"
  shows "keys fs \<noteq> {} \<Longrightarrow> \<forall>k \<in> keys fs. 0 \<le> k \<Longrightarrow> distinct (map s_ID ss) \<Longrightarrow> distinct (map s_ID os) \<Longrightarrow>
    \<exists>ss'. reassign iter os fs ss = (None, ss') \<and>
      list_all2 (\<lambda>s s'. s_ID s' = s_ID s \<and>
        (if s_ID s \<in> s_ID ` set os then \<exists>k \<in> keys fs. s_Owners s' = s_Owners s @ [u64_of k] else s' = s)) ss ss'"
proof (induction os arbitrary: fs ss)
  case Nil
  then show ?case by (simp add: list_all2_refl)
next
  case (Cons o' os)
  obtain k where k: "k \<in> keys fs" "newShardOwner iter fs = Inr (u64_of k, count_owner k fs)"
    using newShardOwner_ok [OF assms Cons.prems(1,2)] by blast
  let ?h = "\<lambda>s. if s_ID s = s_ID o' then s\<lparr>s_Owners := s_Owners s @ [u64_of k]\<rparr> else s"
  have f: "add_owner_first (s_ID o') (u64_of k) ss = map ?h ss" using add_owner_first_map Cons.prems(3) by blast
  have ids: "map s_ID (map ?h ss) = map s_ID ss" by simp
  have keys: "keys (count_owner k fs) = keys fs" using k(1) by auto
  obtain ss' where ss': "reassign iter os (count_owner k fs) (map ?h ss) = (None, ss')"
      "list_all2 (\<lambda>s s'. s_ID s' = s_ID s \<and>
        (if s_ID s \<in> s_ID ` set os then \<exists>k \<in> keys fs. s_Owners s' = s_Owners s @ [u64_of k] else s' = s)) (map ?h ss) ss'"
    using Cons.IH [of "count_owner k fs" "map ?h ss", unfolded keys, OF Cons.prems(1,2)] Cons.prems(3,4) unfolding ids by auto
  have "s_ID o' \<notin> s_ID ` set os" using Cons.prems(4) by auto
  then have "list_all2 (\<lambda>s s'. s_ID s' = s_ID s \<and> (if s_ID s \<in> s_ID ` set (o' # os) then \<exists>k \<in> keys fs. s_Owners s' = s_Owners s @ [u64_of k] else s' = s)) ss ss'"
    using ss'(2) k(1) unfolding list_all2_map1 by (elim list_all2_mono) (auto split: if_splits)
  then show ?case using ss'(1) k(2) f by simp
qed

text \<open>A group whose shards have distinct IDs and distinct owners with IDs in the range of \<^verbatim>\<open>int\<close>.\<close>

definition group_ok :: "shardGroupInfo \<Rightarrow> bool" where
  "group_ok g \<longleftrightarrow> distinct (map s_ID (g_Shards g)) \<and> (\<forall>s \<in> set (g_Shards g). distinct (s_Owners s) \<and> (\<forall>x \<in> set (s_Owners s). unat x < 2 ^ 63))"

definition group_owners :: "shardGroupInfo \<Rightarrow> u64 set" where
  "group_owners g = (\<Union>s \<in> set (g_Shards g). set (s_Owners s))"

text \<open>What removing a node does to a group: the node owns nothing, no owner comes from outside the group, the remaining owners of
  a shard stay, and unless the group is marked as deleted every shard has an owner.\<close>

definition node_removed :: "time \<Rightarrow> u64 \<Rightarrow> shardGroupInfo \<Rightarrow> shardGroupInfo \<Rightarrow> bool" where
  "node_removed now i g g' \<longleftrightarrow>
     list_all2 (\<lambda>s s'. s_ID s' = s_ID s \<and> i \<notin> set (s_Owners s') \<and> set (s_Owners s) - {i} \<subseteq> set (s_Owners s') \<and>
       set (s_Owners s') \<subseteq> group_owners g) (g_Shards g) (g_Shards g') \<and>
     (g_DeletedAt g' = now \<or> (\<forall>s \<in> set (g_Shards g'). s_Owners s \<noteq> []))"

lemma i64_of_nonneg: "unat x < 2 ^ 63 \<Longrightarrow> 0 \<le> i64_of x"
  using i64_of_of_nat [of "unat x"] by simp

lemma i64_of_inj: "i64_of x = i64_of y \<longleftrightarrow> x = y"
  by (metis u64_of_i64_of)

lemma list_all2_elems:
  "list_all2 R xs ys \<Longrightarrow> (\<And>x y. x \<in> set xs \<Longrightarrow> R x y \<Longrightarrow> P x y) \<Longrightarrow> list_all2 P xs ys"
  by (auto simp: list_all2_conv_all_nth)

lemma delete_in_group_removes:
  assumes "iter_ok iter" "group_ok g"
  shows "\<exists>st' g'. delete_in_group iter now i st g = (None, st', g') \<and> node_removed now i g g'"
proof -
  let ?h = "\<lambda>s. s\<lparr>s_Owners := remove_last i (s_Owners s)\<rparr>" and ?ss = "g_Shards g"
  let ?orphans = "filter (\<lambda>s. s_Owners s = []) (map ?h ?ss)"
  let ?P = "\<lambda>s s'. s_ID s' = s_ID s \<and> i \<notin> set (s_Owners s') \<and> set (s_Owners s) - {i} \<subseteq> set (s_Owners s') \<and> set (s_Owners s') \<subseteq> group_owners g"
  have own: "set (remove_last i (s_Owners s)) = set (s_Owners s) - {i}" "set (s_Owners s) \<subseteq> group_owners g" if "s \<in> set ?ss" for s
    using assms(2) that by (auto simp: group_ok_def set_remove_last group_owners_def)
  obtain st' fs where sc: "scan_shards i (st, []) ?ss = ((st', fs), map ?h ?ss)" and fs: "keys fs = (\<Union>s \<in> set ?ss. i64_of ` set (s_Owners s)) \<union> keys []"
    using scan_shards_result [of i st "[]" ?ss] by (elim exE conjE)
  have ks: "keys fs = i64_of ` group_owners g" unfolding fs by (auto simp: group_owners_def keys_Nil)
  show ?thesis
  proof (cases "map ?h ?ss = [] \<or> length ?orphans = length (map ?h ?ss)")
    case True
    have "list_all2 (\<lambda>s s'. s' = ?h s) ?ss (map ?h ?ss)" by (simp add: list_all2_map2 list_all2_same)
    then have "list_all2 ?P ?ss (map ?h ?ss)" by (rule list_all2_elems) (use own in auto)
    then show ?thesis using True sc unfolding delete_in_group_def node_removed_def Let_def by simp
  next
    case False
    let ?fs = "filter (\<lambda>(k, _). k \<noteq> i64_of i) fs"
    have "keys ?fs = keys fs - {i64_of i}" by (auto simp: keys_def)
    moreover have "inj i64_of" by (simp add: inj_def i64_of_inj)
    ultimately have keys: "keys ?fs = i64_of ` (group_owners g - {i})" using ks by (simp add: image_set_diff)
    have "\<exists>s \<in> set (map ?h ?ss). s_Owners s \<noteq> []" using False by (metis (mono_tags, lifting) filter_True)
    then obtain s where s: "s \<in> set ?ss" "remove_last i (s_Owners s) \<noteq> []" by auto
    then have "set (s_Owners s) - {i} \<noteq> {}" using own(1) [of s] by (metis set_empty)
    then have ne: "keys ?fs \<noteq> {}" using own(2) [OF s(1)] unfolding keys by blast
    have pos: "\<forall>k \<in> keys ?fs. 0 \<le> k" using assms(2) unfolding keys by (auto simp: group_ok_def group_owners_def i64_of_nonneg)
    have ids: "distinct (map s_ID (map ?h ?ss))" using assms(2) by (simp add: group_ok_def comp_def)
    then have "distinct (map s_ID ?orphans)" by (rule distinct_map_filter)
    from reassign_ok [OF assms(1) ne pos ids this] obtain ss' where r: "reassign iter ?orphans ?fs (map ?h ?ss) = (None, ss')"
      "list_all2 (\<lambda>s s'. s_ID s' = s_ID (?h s) \<and> (if s_ID (?h s) \<in> s_ID ` set ?orphans
         then \<exists>k \<in> keys ?fs. s_Owners s' = s_Owners (?h s) @ [u64_of k] else s' = ?h s)) ?ss ss'"
      unfolding list_all2_map1 by blast
    from r(2) have "list_all2 (\<lambda>s s'. ?P s s' \<and> s_Owners s' \<noteq> []) ?ss ss'"
    proof (rule list_all2_elems)
      fix s s' assume s: "s \<in> set ?ss" and e: "s_ID s' = s_ID (?h s) \<and> (if s_ID (?h s) \<in> s_ID ` set ?orphans
         then \<exists>k \<in> keys ?fs. s_Owners s' = s_Owners (?h s) @ [u64_of k] else s' = ?h s)"
      show "?P s s' \<and> s_Owners s' \<noteq> []"
      proof (cases "s_ID (?h s) \<in> s_ID ` set ?orphans")
        case True
        then obtain x where "x \<in> group_owners g - {i}" "s_Owners s' = s_Owners (?h s) @ [x]" using e unfolding keys by auto
        then show ?thesis using own [OF s] e by auto
      next
        case False
        then have "?h s \<notin> set ?orphans" by blast
        then show ?thesis using own [OF s] e False s by auto
      qed
    qed
    then have "node_removed now i g (g\<lparr>g_Shards := ss'\<rparr>)"
      unfolding node_removed_def by (auto simp: list_all2_conv_all_nth in_set_conv_nth)
    moreover have "delete_in_group iter now i st g = (None, st', g\<lparr>g_Shards := ss'\<rparr>)"
      using False sc r(1) unfolding delete_in_group_def Let_def by simp
    ultimately show ?thesis by blast
  qed
qed

subsection \<open>Lemmas: node identities\<close>

text \<open>Nodes have non-zero IDs up to the counter, unique among the data nodes and among the meta nodes, and a data node and a meta node
  share their ID exactly if they share their address.\<close>

definition nodes_ok :: "data \<Rightarrow> bool" where
  "nodes_ok d \<longleftrightarrow>
     distinct (map n_ID (d_DataNodes d)) \<and> distinct (map n_TCPHost (d_DataNodes d)) \<and>
     distinct (map n_ID (d_MetaNodes d)) \<and> distinct (map n_TCPHost (d_MetaNodes d)) \<and>
     (\<forall>n \<in> set (d_DataNodes d) \<union> set (d_MetaNodes d). n_ID n \<noteq> 0 \<and> n_ID n \<le> d_MaxNodeID d) \<and>
     (\<forall>n \<in> set (d_DataNodes d). \<forall>m \<in> set (d_MetaNodes d). n_ID n = n_ID m \<longleftrightarrow> n_TCPHost n = n_TCPHost m)"

lemma sortNodes_facts:
  assumes "lib_ok lib"
  shows "set (lib_sortNodes lib ns) = set ns" "distinct (map f (lib_sortNodes lib ns)) = distinct (map f ns)"
proof -
  have m: "mset (lib_sortNodes lib ns) = mset ns" using assms by (simp add: lib_ok_def)
  then show "set (lib_sortNodes lib ns) = set ns" by (rule mset_eq_setD)
  have "mset (map f (lib_sortNodes lib ns)) = mset (map f ns)" using m by simp
  then show "distinct (map f (lib_sortNodes lib ns)) = distinct (map f ns)" by (rule mset_eq_imp_distinct_iff)
qed

lemma existing_id_cases:
  "(\<exists>n \<in> set ns. n_TCPHost n = t \<and> existing_id t ns = n_ID n) \<or> (\<forall>n \<in> set ns. n_TCPHost n \<noteq> t) \<and> existing_id t ns = 0"
proof (cases "find (\<lambda>n. n_TCPHost n = t) ns")
  case None
  then have "\<forall>n \<in> set ns. n_TCPHost n \<noteq> t" by (simp add: find_None_iff)
  then show ?thesis using None by (simp add: existing_id_def)
next
  case (Some n)
  then have "n \<in> set ns" "n_TCPHost n = t" by (auto simp: find_Some_iff)
  then show ?thesis using Some by (auto simp: existing_id_def)
qed

lemma word_next:
  fixes M x :: u64
  assumes "M \<noteq> - 1" "x \<le> M"
  shows "M + 1 \<noteq> 0" "x \<noteq> M + 1" "x \<le> M + 1" "M \<le> M + 1"
proof -
  have "M + 1 \<noteq> 0" using assms(1) by (metis add_eq_0_iff2)
  then have "unat (M + 1) = unat M + 1" using unatSuc [of M] by (simp add: add.commute)
  then show "M + 1 \<noteq> 0" "x \<noteq> M + 1" "x \<le> M + 1" "M \<le> M + 1" using assms \<open>M + 1 \<noteq> 0\<close> by (auto simp: word_le_nat_alt)
qed

lemma nodes_ok_bound: "nodes_ok d \<Longrightarrow> n \<in> set (d_DataNodes d) \<or> n \<in> set (d_MetaNodes d) \<Longrightarrow> n_ID n \<noteq> 0 \<and> n_ID n \<le> d_MaxNodeID d"
  unfolding nodes_ok_def by blast

lemma nodes_ok_cross: "nodes_ok d \<Longrightarrow> n \<in> set (d_DataNodes d) \<Longrightarrow> m \<in> set (d_MetaNodes d) \<Longrightarrow> n_ID n = n_ID m \<longleftrightarrow> n_TCPHost n = n_TCPHost m"
  unfolding nodes_ok_def by blast

lemma nodes_ok_same:
  "nodes_ok d \<Longrightarrow> m \<in> set (d_MetaNodes d) \<Longrightarrow> k \<in> set (d_MetaNodes d) \<Longrightarrow> n_ID k = n_ID m \<longleftrightarrow> n_TCPHost k = n_TCPHost m"
  "nodes_ok d \<Longrightarrow> n \<in> set (d_DataNodes d) \<Longrightarrow> j \<in> set (d_DataNodes d) \<Longrightarrow> n_ID j = n_ID n \<longleftrightarrow> n_TCPHost j = n_TCPHost n"
  unfolding nodes_ok_def distinct_map by (metis inj_onD)+

text \<open>Adding a data node, or a meta node, that is consistent with the other nodes.\<close>

lemma nodes_ok_add:
  assumes lib: "lib_ok lib" and d: "nodes_ok d" and M: "d_MaxNodeID d \<le> M" "n_ID x \<noteq> 0" "n_ID x \<le> M"
    and new: "\<And>n. n \<in> set (d_DataNodes d) \<Longrightarrow> n_ID n \<noteq> n_ID x \<and> n_TCPHost n \<noteq> n_TCPHost x"
    and cross: "\<And>m. m \<in> set (d_MetaNodes d) \<Longrightarrow> n_ID x = n_ID m \<longleftrightarrow> n_TCPHost x = n_TCPHost m"
  shows "nodes_ok (d\<lparr>d_MaxNodeID := M, d_DataNodes := lib_sortNodes lib (d_DataNodes d @ [x])\<rparr>)"
proof -
  have "\<And>n. n \<in> set (d_DataNodes d) \<or> n \<in> set (d_MetaNodes d) \<Longrightarrow> n_ID n \<le> M"
    using nodes_ok_bound [OF d] M(1) by (meson order_trans)
  then show ?thesis using d M new cross unfolding nodes_ok_def
    by (simp add: sortNodes_facts [OF lib] image_iff) (metis)
qed

lemma nodes_ok_add_meta:
  assumes lib: "lib_ok lib" and d: "nodes_ok d" and M: "d_MaxNodeID d \<le> M" "n_ID x \<noteq> 0" "n_ID x \<le> M"
    and new: "\<And>m. m \<in> set (d_MetaNodes d) \<Longrightarrow> n_ID m \<noteq> n_ID x \<and> n_TCPHost m \<noteq> n_TCPHost x"
    and cross: "\<And>n. n \<in> set (d_DataNodes d) \<Longrightarrow> n_ID n = n_ID x \<longleftrightarrow> n_TCPHost n = n_TCPHost x"
  shows "nodes_ok (d\<lparr>d_MaxNodeID := M, d_MetaNodes := lib_sortNodes lib (d_MetaNodes d @ [x])\<rparr>)"
proof -
  have "\<And>n. n \<in> set (d_DataNodes d) \<or> n \<in> set (d_MetaNodes d) \<Longrightarrow> n_ID n \<le> M"
    using nodes_ok_bound [OF d] M(1) by (meson order_trans)
  then show ?thesis using d M new cross unfolding nodes_ok_def
    by (simp add: sortNodes_facts [OF lib] image_iff) (metis)
qed

lemma nodes_ok_CreateDataNode:
  assumes lib: "lib_ok lib" and d: "nodes_ok d" "d_MaxNodeID d \<noteq> - 1"
  shows "nodes_ok (snd (CreateDataNode lib host tcp d))"
proof (cases "list_ex (\<lambda>n. n_TCPHost n = tcp) (d_DataNodes d)")
  case True
  then show ?thesis using d by (simp add: CreateDataNode_def)
next
  case False
  then have new: "n_TCPHost n \<noteq> tcp" if "n \<in> set (d_DataNodes d)" for n using that by (auto simp: list_ex_iff)
  note nxt = word_next [OF d(2)]
  let ?x = "\<lambda>i. \<lparr>n_ID = i, n_Host = host, n_TCPHost = tcp\<rparr>"
  from existing_id_cases [of "d_MetaNodes d" tcp] show ?thesis
  proof (elim disjE bexE conjE)
    fix m assume m: "m \<in> set (d_MetaNodes d)" "n_TCPHost m = tcp" "existing_id tcp (d_MetaNodes d) = n_ID m"
    have "nodes_ok (d\<lparr>d_MaxNodeID := d_MaxNodeID d, d_DataNodes := lib_sortNodes lib (d_DataNodes d @ [?x (n_ID m)])\<rparr>)"
    proof (rule nodes_ok_add [OF lib d(1)])
      show "n_ID (?x (n_ID m)) \<noteq> 0" "n_ID (?x (n_ID m)) \<le> d_MaxNodeID d" using nodes_ok_bound [OF d(1)] m(1) by auto
      show "\<And>n. n \<in> set (d_DataNodes d) \<Longrightarrow> n_ID n \<noteq> n_ID (?x (n_ID m)) \<and> n_TCPHost n \<noteq> n_TCPHost (?x (n_ID m))"
        using nodes_ok_cross [OF d(1) _ m(1)] new m(2) by simp
      show "\<And>k. k \<in> set (d_MetaNodes d) \<Longrightarrow> n_ID (?x (n_ID m)) = n_ID k \<longleftrightarrow> n_TCPHost (?x (n_ID m)) = n_TCPHost k"
        using nodes_ok_same(1) [OF d(1) m(1)] m(2) by (metis nodeInfo.select_convs(1,3))
    qed simp
    then show ?thesis using False m(3) nodes_ok_bound [OF d(1), of m] m(1) by (simp add: CreateDataNode_def Let_def)
  next
    assume m: "\<forall>n \<in> set (d_MetaNodes d). n_TCPHost n \<noteq> tcp" "existing_id tcp (d_MetaNodes d) = 0"
    have "nodes_ok (d\<lparr>d_MaxNodeID := d_MaxNodeID d + 1, d_DataNodes := lib_sortNodes lib (d_DataNodes d @ [?x (d_MaxNodeID d + 1)])\<rparr>)"
    proof (rule nodes_ok_add [OF lib d(1)])
      show "n_ID (?x (d_MaxNodeID d + 1)) \<noteq> 0" "d_MaxNodeID d \<le> d_MaxNodeID d + 1" using nxt by auto
      show "\<And>n. n \<in> set (d_DataNodes d) \<Longrightarrow> n_ID n \<noteq> n_ID (?x (d_MaxNodeID d + 1)) \<and> n_TCPHost n \<noteq> n_TCPHost (?x (d_MaxNodeID d + 1))"
        using nodes_ok_bound [OF d(1)] nxt(2) new by simp
      show "\<And>k. k \<in> set (d_MetaNodes d) \<Longrightarrow> n_ID (?x (d_MaxNodeID d + 1)) = n_ID k \<longleftrightarrow> n_TCPHost (?x (d_MaxNodeID d + 1)) = n_TCPHost k"
        using nodes_ok_bound [OF d(1)] nxt(2) m(1) by (metis nodeInfo.select_convs(1,3))
    qed simp
    then show ?thesis using False m(2) by (simp add: CreateDataNode_def Let_def)
  qed
qed

lemma nodes_ok_CreateMetaNode:
  assumes lib: "lib_ok lib" and d: "nodes_ok d" "d_MaxNodeID d \<noteq> - 1" and new: "\<forall>m \<in> set (d_MetaNodes d). n_TCPHost m \<noteq> tcp"
  shows "nodes_ok (snd (CreateMetaNode lib http tcp d))"
proof (cases "list_ex (\<lambda>n. n_Host n = http) (d_MetaNodes d)")
  case True
  then show ?thesis using d by (simp add: CreateMetaNode_def)
next
  case False
  note nxt = word_next [OF d(2)]
  let ?x = "\<lambda>i. \<lparr>n_ID = i, n_Host = http, n_TCPHost = tcp\<rparr>"
  from existing_id_cases [of "d_DataNodes d" tcp] show ?thesis
  proof (elim disjE bexE conjE)
    fix n assume n: "n \<in> set (d_DataNodes d)" "n_TCPHost n = tcp" "existing_id tcp (d_DataNodes d) = n_ID n"
    have "nodes_ok (d\<lparr>d_MaxNodeID := d_MaxNodeID d, d_MetaNodes := lib_sortNodes lib (d_MetaNodes d @ [?x (n_ID n)])\<rparr>)"
    proof (rule nodes_ok_add_meta [OF lib d(1)])
      show "n_ID (?x (n_ID n)) \<noteq> 0" "n_ID (?x (n_ID n)) \<le> d_MaxNodeID d" using nodes_ok_bound [OF d(1)] n(1) by auto
      show "\<And>m. m \<in> set (d_MetaNodes d) \<Longrightarrow> n_ID m \<noteq> n_ID (?x (n_ID n)) \<and> n_TCPHost m \<noteq> n_TCPHost (?x (n_ID n))"
        using nodes_ok_cross [OF d(1) n(1)] new n(2) by (metis nodeInfo.select_convs(1,3))
      show "\<And>k. k \<in> set (d_DataNodes d) \<Longrightarrow> n_ID k = n_ID (?x (n_ID n)) \<longleftrightarrow> n_TCPHost k = n_TCPHost (?x (n_ID n))"
        using nodes_ok_same(2) [OF d(1) n(1)] n(2) by simp
    qed simp
    then show ?thesis using False n(3) nodes_ok_bound [OF d(1), of n] n(1) by (simp add: CreateMetaNode_def Let_def)
  next
    assume n: "\<forall>n \<in> set (d_DataNodes d). n_TCPHost n \<noteq> tcp" "existing_id tcp (d_DataNodes d) = 0"
    have "nodes_ok (d\<lparr>d_MaxNodeID := d_MaxNodeID d + 1, d_MetaNodes := lib_sortNodes lib (d_MetaNodes d @ [?x (d_MaxNodeID d + 1)])\<rparr>)"
    proof (rule nodes_ok_add_meta [OF lib d(1)])
      show "n_ID (?x (d_MaxNodeID d + 1)) \<noteq> 0" "d_MaxNodeID d \<le> d_MaxNodeID d + 1" using nxt by auto
      show "\<And>m. m \<in> set (d_MetaNodes d) \<Longrightarrow> n_ID m \<noteq> n_ID (?x (d_MaxNodeID d + 1)) \<and> n_TCPHost m \<noteq> n_TCPHost (?x (d_MaxNodeID d + 1))"
        using nodes_ok_bound [OF d(1)] nxt(2) new by simp
      show "\<And>k. k \<in> set (d_DataNodes d) \<Longrightarrow> n_ID k = n_ID (?x (d_MaxNodeID d + 1)) \<longleftrightarrow> n_TCPHost k = n_TCPHost (?x (d_MaxNodeID d + 1))"
        using nodes_ok_bound [OF d(1)] nxt(2) n(1) by (metis nodeInfo.select_convs(1,3))
    qed simp
    then show ?thesis using False n(2) by (simp add: CreateMetaNode_def Let_def)
  qed
qed

subsection \<open>A store\<close>

text \<open>A small store that meets the assumptions: lookup by name, insertion sort, and no support for the other operations.\<close>

fun position :: "('a \<Rightarrow> bool) \<Rightarrow> 'a list \<Rightarrow> nat option" where
  "position P [] = None"
| "position P (x # xs) = (if P x then Some 0 else map_option Suc (position P xs))"

lemma position_Some: "position P xs = Some i \<Longrightarrow> i < length xs \<and> P (xs ! i)"
  by (induction xs arbitrary: i) (auto split: if_splits)

definition plain_lookup :: "metaData \<Rightarrow> string \<Rightarrow> string \<Rightarrow> meta_error + (nat \<times> nat) option" where
  "plain_lookup md database policy = (case position (\<lambda>db. db_Name db = database) (md_Databases md) of
      None \<Rightarrow> Inl (ErrOther ''database not found'')
    | Some i \<Rightarrow> Inr (map_option (Pair i) (position (\<lambda>rp. rp_Name rp = policy) (db_RetentionPolicies (md_Databases md ! i)))))"

definition unsupported :: "metaData \<Rightarrow> meta_error + metaData" where
  "unsupported md = Inl (ErrOther ''unsupported'')"

definition plain_lib :: meta_lib where
  "plain_lib = \<lparr>lib_RetentionPolicy = plain_lookup,
     lib_ShardGroupByTimestamp = (\<lambda>rp t. find (\<lambda>g. g_StartTime g \<le> t \<and> t < g_EndTime g \<and> g_DeletedAt g = 0) (rp_ShardGroups rp)),
     lib_sortNodes = sort_key n_ID, lib_sortGroups = sort_key g_EndTime,
     lib_NewRetentionPolicyInfo = (\<lambda>name. \<lparr>rp_Name = name, rp_ReplicaN = 1, rp_Duration = 0, rp_ShardGroupDuration = 0, rp_ShardGroups = [], rp_Subscriptions = []\<rparr>),
     lib_CreateDatabase = (\<lambda>name md. if list_ex (\<lambda>db. db_Name db = name) (md_Databases md) then Inr md
        else Inr (md\<lparr>md_Databases := md_Databases md @ [\<lparr>db_Name = name, db_DefaultRetentionPolicy = [], db_RetentionPolicies = [], db_ContinuousQueries = []\<rparr>]\<rparr>)),
     lib_DropDatabase = (\<lambda>name md. Inr (md\<lparr>md_Databases := filter (\<lambda>db. db_Name db \<noteq> name) (md_Databases md)\<rparr>)),
     lib_CreateRetentionPolicy = (\<lambda>_ _ _. unsupported), lib_DropRetentionPolicy = (\<lambda>_ _. unsupported),
     lib_UpdateRetentionPolicy = (\<lambda>_ _ _ _. unsupported), lib_DropShard = (\<lambda>_ md. md), lib_DeleteShardGroup = (\<lambda>_ _ _. unsupported),
     lib_CreateContinuousQuery = (\<lambda>_ _ _. unsupported), lib_DropContinuousQuery = (\<lambda>_ _. unsupported),
     lib_CreateSubscription = (\<lambda>_ _ _ _ _. unsupported), lib_DropSubscription = (\<lambda>_ _ _. unsupported),
     lib_CreateUser = (\<lambda>_ _ _. unsupported), lib_DropUser = (\<lambda>_. unsupported), lib_UpdateUser = (\<lambda>_ _. unsupported),
     lib_SetPrivilege = (\<lambda>_ _ _. unsupported), lib_SetAdminPrivilege = (\<lambda>_ _. unsupported)\<rparr>"

lemma plain_lib_ok: "lib_ok plain_lib"
  by (auto simp: lib_ok_def plain_lib_def plain_lookup_def valid_rp_def rp_at_def dest: position_Some split: option.splits)

text \<open>Three nodes and a database with a policy that keeps two replicas.\<close>

definition sample :: "shardGroupInfo list \<Rightarrow> data" where
  "sample gs = \<lparr>d_Data = \<lparr>md_Term = 1, md_Index = 7, md_ClusterID = 1,
       md_Databases = [\<lparr>db_Name = ''db'', db_DefaultRetentionPolicy = ''rp'',
         db_RetentionPolicies = [\<lparr>rp_Name = ''rp'', rp_ReplicaN = 2, rp_Duration = 0, rp_ShardGroupDuration = 100, rp_ShardGroups = gs, rp_Subscriptions = []\<rparr>],
         db_ContinuousQueries = []\<rparr>],
       md_Users = [], md_MaxShardGroupID = 4, md_MaxShardID = 9\<rparr>,
     d_MetaNodes = [], d_DataNodes = map (\<lambda>i. \<lparr>n_ID = i, n_Host = [], n_TCPHost = []\<rparr>) [1, 2, 3],
     d_ShardStatus = Map.empty, d_MaxNodeID = 3\<rparr>"


subsection \<open>Properties: nodes\<close>

lemma DeleteDataNode_removes:
  assumes "iter_ok iter" "i \<in> n_ID ` set (d_DataNodes d)" "\<forall>g \<in> set (all_groups d). group_ok g"
  shows "\<exists>d'. DeleteDataNode iter now i d = (None, d') \<and> d_DataNodes d' = filter (\<lambda>n. n_ID n \<noteq> i) (d_DataNodes d) \<and>
    list_all2 (node_removed now i) (all_groups d) (all_groups d')"
proof -
  let ?nodes = "filter (\<lambda>n. n_ID n \<noteq> i) (d_DataNodes d)" and ?d = "d\<lparr>d_DataNodes := filter (\<lambda>n. n_ID n \<noteq> i) (d_DataNodes d)\<rparr>"
  have g: "all_groups ?d = all_groups d" by (simp add: all_groups_def)
  have "length ?nodes \<noteq> length (d_DataNodes d)"
    using assms(2) by (metis (mono_tags, lifting) filter_id_conv imageE le_neq_implies_less length_filter_le length_filter_less less_irrefl)
  then have "DeleteDataNode iter now i d = on_all_groups (delete_in_group iter now i) ?d" by (simp add: DeleteDataNode_def Let_def)
  moreover have "\<forall>g \<in> set (all_groups ?d). \<forall>st. \<exists>st' g'. delete_in_group iter now i st g = (None, st', g') \<and> node_removed now i g g'"
    using delete_in_group_removes [OF assms(1)] assms(3) unfolding g by blast
  from on_all_groups_all [OF this] obtain d' where "on_all_groups (delete_in_group iter now i) ?d = (None, d')"
    "list_all2 (node_removed now i) (all_groups d) (all_groups d')" "d_DataNodes d' = ?nodes" unfolding g by auto
  ultimately show ?thesis by auto
qed



end
