(* ===== verification/Meta_Codec.thy ===== *)
theory Meta_Codec
  imports Meta_Data
begin

text \<open>
  Converting the metadata to and from its protobuf messages, \<^verbatim>\<open>services/meta/data.go\<close> (\<^verbatim>\<open>marshal\<close>, \<^verbatim>\<open>unmarshal\<close> and the functions for
  the nested messages). The messages are those of \<^verbatim>\<open>services/meta/internal/meta.proto\<close>, without the fields that the code never sets.
  The conversion of times belongs to the underlying store and is an argument. The order in which the runtime visits a map is an
  argument too: a list of the shards and, for every shard, a list of its nodes.
\<close>

record time_lib =
  MarshalTime :: "time \<Rightarrow> int"
  UnmarshalTime :: "int \<Rightarrow> time"

text \<open>The Unix epoch, counted from Go's zero time.\<close>

definition unixEpoch :: time where "unixEpoch = 62135596800 * 10 ^ 9"

text \<open>Times are marshalled as nanoseconds since the epoch, the zero time as 0.\<close>

definition time_ok :: "time_lib \<Rightarrow> bool" where
  "time_ok tm \<longleftrightarrow> (\<forall>t. t \<noteq> 0 \<and> in_i64 (t - unixEpoch) \<longrightarrow> MarshalTime tm t = t - unixEpoch) \<and> MarshalTime tm 0 = 0 \<and>
     (\<forall>v. v \<noteq> 0 \<longrightarrow> UnmarshalTime tm v = v + unixEpoch) \<and> UnmarshalTime tm 0 = 0"

subsection \<open>Messages\<close>

record pbNodeInfo =
  pn_ID :: u64
  pn_Host :: string
  pn_TCPHost :: "string option"

record pbShardInfo =
  ps_ID :: u64
  ps_OwnerIDs :: "u64 list"
  ps_Owners :: "u64 list"

record pbShardGroupInfo =
  pg_ID :: u64
  pg_StartTime :: int
  pg_EndTime :: int
  pg_DeletedAt :: int
  pg_TruncatedAt :: "int option"
  pg_Shards :: "pbShardInfo list"

record pbRetentionPolicyInfo =
  pr_Name :: string
  pr_ReplicaN :: "32 word"
  pr_Duration :: int
  pr_ShardGroupDuration :: int
  pr_ShardGroups :: "pbShardGroupInfo list"

record pbDatabaseInfo =
  pd_Name :: string
  pd_DefaultRetentionPolicy :: string
  pd_RetentionPolicies :: "pbRetentionPolicyInfo list"

record pbData =
  pb_Term :: u64
  pb_Index :: u64
  pb_ClusterID :: u64
  pb_Databases :: "pbDatabaseInfo list"
  pb_MaxNodeID :: u64
  pb_MaxShardGroupID :: u64
  pb_MaxShardID :: u64
  pb_DataNodes :: "pbNodeInfo list"
  pb_MetaNodes :: "pbNodeInfo list"
  pb_ShardRWStatus :: "(u64 \<times> (u64 \<times> int) list) list"

subsection \<open>Conversions\<close>

definition marshalNodeInfo :: "nodeInfo \<Rightarrow> pbNodeInfo" where
  "marshalNodeInfo so = \<lparr>pn_ID = n_ID so, pn_Host = n_Host so, pn_TCPHost = Some (n_TCPHost so)\<rparr>"

definition unmarshalNodeInfo :: "pbNodeInfo \<Rightarrow> nodeInfo" where
  "unmarshalNodeInfo pb = \<lparr>n_ID = pn_ID pb, n_Host = pn_Host pb, n_TCPHost = (case pn_TCPHost pb of None \<Rightarrow> [] | Some h \<Rightarrow> h)\<rparr>"

definition marshalShardInfo :: "shardInfo \<Rightarrow> pbShardInfo" where
  "marshalShardInfo si = \<lparr>ps_ID = s_ID si, ps_OwnerIDs = [], ps_Owners = s_Owners si\<rparr>"

definition unmarshalShardInfo :: "pbShardInfo \<Rightarrow> shardInfo" where
  "unmarshalShardInfo pb = \<lparr>s_ID = ps_ID pb, s_Owners = (if ps_OwnerIDs pb \<noteq> [] then ps_OwnerIDs pb else ps_Owners pb)\<rparr>"

definition marshalShardGroupInfo :: "time_lib \<Rightarrow> shardGroupInfo \<Rightarrow> pbShardGroupInfo" where
  "marshalShardGroupInfo tm sgi = \<lparr>pg_ID = g_ID sgi, pg_StartTime = MarshalTime tm (g_StartTime sgi), pg_EndTime = MarshalTime tm (g_EndTime sgi),
     pg_DeletedAt = MarshalTime tm (g_DeletedAt sgi),
     pg_TruncatedAt = (if g_TruncatedAt sgi \<noteq> 0 then Some (MarshalTime tm (g_TruncatedAt sgi)) else None),
     pg_Shards = map marshalShardInfo (g_Shards sgi)\<rparr>"

definition unmarshalShardGroupInfo :: "time_lib \<Rightarrow> pbShardGroupInfo \<Rightarrow> shardGroupInfo" where
  "unmarshalShardGroupInfo tm pb = \<lparr>g_ID = pg_ID pb,
     g_StartTime = (if pg_StartTime pb = 0 then unixEpoch else UnmarshalTime tm (pg_StartTime pb)),
     g_EndTime = (if pg_EndTime pb = 0 then unixEpoch else UnmarshalTime tm (pg_EndTime pb)),
     g_DeletedAt = UnmarshalTime tm (pg_DeletedAt pb),
     g_TruncatedAt = (case pg_TruncatedAt pb of None \<Rightarrow> 0 | Some v \<Rightarrow> UnmarshalTime tm v),
     g_Shards = map unmarshalShardInfo (pg_Shards pb)\<rparr>"

definition marshalRetentionPolicyInfo :: "time_lib \<Rightarrow> retentionPolicyInfo \<Rightarrow> pbRetentionPolicyInfo" where
  "marshalRetentionPolicyInfo tm rpi = \<lparr>pr_Name = rp_Name rpi, pr_ReplicaN = word_of_int (rp_ReplicaN rpi), pr_Duration = rp_Duration rpi,
     pr_ShardGroupDuration = rp_ShardGroupDuration rpi, pr_ShardGroups = map (marshalShardGroupInfo tm) (rp_ShardGroups rpi)\<rparr>"

definition unmarshalRetentionPolicyInfo :: "time_lib \<Rightarrow> pbRetentionPolicyInfo \<Rightarrow> retentionPolicyInfo" where
  "unmarshalRetentionPolicyInfo tm pb = \<lparr>rp_Name = pr_Name pb, rp_ReplicaN = uint (pr_ReplicaN pb), rp_Duration = pr_Duration pb,
     rp_ShardGroupDuration = pr_ShardGroupDuration pb, rp_ShardGroups = map (unmarshalShardGroupInfo tm) (pr_ShardGroups pb), rp_Subscriptions = []\<rparr>"

definition marshalDatabaseInfo :: "time_lib \<Rightarrow> databaseInfo \<Rightarrow> pbDatabaseInfo" where
  "marshalDatabaseInfo tm di = \<lparr>pd_Name = db_Name di, pd_DefaultRetentionPolicy = db_DefaultRetentionPolicy di,
     pd_RetentionPolicies = map (marshalRetentionPolicyInfo tm) (db_RetentionPolicies di)\<rparr>"

definition unmarshalDatabaseInfo :: "time_lib \<Rightarrow> pbDatabaseInfo \<Rightarrow> databaseInfo" where
  "unmarshalDatabaseInfo tm pb = \<lparr>db_Name = pd_Name pb, db_DefaultRetentionPolicy = pd_DefaultRetentionPolicy pb,
     db_RetentionPolicies = map (unmarshalRetentionPolicyInfo tm) (pd_RetentionPolicies pb), db_ContinuousQueries = []\<rparr>"

text \<open>\<open>shards\<close> and \<open>owners\<close> list the keys of the status maps in the order of iteration.\<close>

definition marshal :: "time_lib \<Rightarrow> u64 list \<Rightarrow> (u64 \<Rightarrow> u64 list) \<Rightarrow> data \<Rightarrow> pbData" where
  "marshal tm shards owners d = \<lparr>pb_Term = md_Term (d_Data d), pb_Index = md_Index (d_Data d), pb_ClusterID = md_ClusterID (d_Data d),
     pb_Databases = map (marshalDatabaseInfo tm) (md_Databases (d_Data d)), pb_MaxNodeID = d_MaxNodeID d,
     pb_MaxShardGroupID = md_MaxShardGroupID (d_Data d), pb_MaxShardID = md_MaxShardID (d_Data d),
     pb_DataNodes = map marshalNodeInfo (d_DataNodes d), pb_MetaNodes = map marshalNodeInfo (d_MetaNodes d),
     pb_ShardRWStatus = map (\<lambda>s. (s, map (\<lambda>n. (n, the (the (d_ShardStatus d s) n))) (owners s))) shards\<rparr>"

definition put_status :: "u64 \<Rightarrow> u64 \<times> int \<Rightarrow> status \<Rightarrow> status" where
  "put_status s y st = (let m = (case st s of None \<Rightarrow> Map.empty | Some m \<Rightarrow> m) in st(s \<mapsto> m(fst y \<mapsto> snd y)))"

definition unmarshal :: "time_lib \<Rightarrow> pbData \<Rightarrow> data" where
  "unmarshal tm pb = \<lparr>
     d_Data = \<lparr>md_Term = pb_Term pb, md_Index = pb_Index pb, md_ClusterID = pb_ClusterID pb,
       md_Databases = map (unmarshalDatabaseInfo tm) (pb_Databases pb), md_Users = [],
       md_MaxShardGroupID = pb_MaxShardGroupID pb, md_MaxShardID = pb_MaxShardID pb\<rparr>,
     d_MetaNodes = map unmarshalNodeInfo (pb_MetaNodes pb), d_DataNodes = map unmarshalNodeInfo (pb_DataNodes pb),
     d_ShardStatus = fold (\<lambda>(s, ys). fold (put_status s) ys) (pb_ShardRWStatus pb) Map.empty,
     d_MaxNodeID = pb_MaxNodeID pb\<rparr>"

subsection \<open>What survives\<close>

text \<open>The part of the metadata that the messages carry: no users, continuous queries and subscriptions, and no shards without replicas.\<close>

definition persisted_rp :: "retentionPolicyInfo \<Rightarrow> retentionPolicyInfo" where
  "persisted_rp rp = rp\<lparr>rp_Subscriptions := []\<rparr>"

definition persisted_db :: "databaseInfo \<Rightarrow> databaseInfo" where
  "persisted_db db = db\<lparr>db_RetentionPolicies := map persisted_rp (db_RetentionPolicies db), db_ContinuousQueries := []\<rparr>"

definition persisted :: "data \<Rightarrow> data" where
  "persisted d = d\<lparr>d_Data := (d_Data d)\<lparr>md_Databases := map persisted_db (md_Databases (d_Data d)), md_Users := []\<rparr>,
     d_ShardStatus := (\<lambda>s. if d_ShardStatus d s = Some Map.empty then None else d_ShardStatus d s)\<rparr>"

text \<open>Times that fit, the zero time only where it means an absent time, and replication factors that fit 32 bits.\<close>

definition time_fits :: "time \<Rightarrow> bool" where
  "time_fits t \<longleftrightarrow> t \<noteq> 0 \<and> in_i64 (t - unixEpoch)"

definition opt_time_fits :: "time \<Rightarrow> bool" where
  "opt_time_fits t \<longleftrightarrow> t = 0 \<or> time_fits t \<and> t \<noteq> unixEpoch"

definition group_fits :: "shardGroupInfo \<Rightarrow> bool" where
  "group_fits g \<longleftrightarrow> time_fits (g_StartTime g) \<and> time_fits (g_EndTime g) \<and> opt_time_fits (g_DeletedAt g) \<and> opt_time_fits (g_TruncatedAt g)"

definition rp_fits :: "retentionPolicyInfo \<Rightarrow> bool" where
  "rp_fits rp \<longleftrightarrow> 0 \<le> rp_ReplicaN rp \<and> rp_ReplicaN rp < 2 ^ 32 \<and> (\<forall>g \<in> set (rp_ShardGroups rp). group_fits g)"

definition data_fits :: "data \<Rightarrow> bool" where
  "data_fits d \<longleftrightarrow> (\<forall>db \<in> set (md_Databases (d_Data d)). \<forall>rp \<in> set (db_RetentionPolicies db). rp_fits rp)"

definition iteration_ok :: "status \<Rightarrow> u64 list \<Rightarrow> (u64 \<Rightarrow> u64 list) \<Rightarrow> bool" where
  "iteration_ok st shards owners \<longleftrightarrow> distinct shards \<and> set shards = dom st \<and>
     (\<forall>s \<in> set shards. distinct (owners s) \<and> set (owners s) = dom (the (st s)))"

lemma node_roundtrip [simp]: "unmarshalNodeInfo (marshalNodeInfo n) = n"
  by (simp add: unmarshalNodeInfo_def marshalNodeInfo_def)

lemma shard_roundtrip [simp]: "unmarshalShardInfo (marshalShardInfo s) = s"
  by (simp add: unmarshalShardInfo_def marshalShardInfo_def)

lemma time_roundtrips:
  assumes "time_ok tm"
  shows "time_fits t \<Longrightarrow> (if MarshalTime tm t = 0 then unixEpoch else UnmarshalTime tm (MarshalTime tm t)) = t"
    "opt_time_fits t \<Longrightarrow> UnmarshalTime tm (MarshalTime tm t) = t"
    "opt_time_fits t \<Longrightarrow> (case (if t \<noteq> 0 then Some (MarshalTime tm t) else None) of None \<Rightarrow> 0 | Some v \<Rightarrow> UnmarshalTime tm v) = t"
  using assms by (auto simp: time_ok_def time_fits_def opt_time_fits_def)

lemma group_roundtrip:
  assumes "time_ok tm" "group_fits g"
  shows "unmarshalShardGroupInfo tm (marshalShardGroupInfo tm g) = g"
proof -
  have f: "time_fits (g_StartTime g)" "time_fits (g_EndTime g)" "opt_time_fits (g_DeletedAt g)" "opt_time_fits (g_TruncatedAt g)"
    using assms(2) by (simp_all add: group_fits_def)
  note r = time_roundtrips [OF assms(1)]
  show ?thesis unfolding unmarshalShardGroupInfo_def marshalShardGroupInfo_def pbShardGroupInfo.simps r(1) [OF f(1)] r(1) [OF f(2)] r(2) [OF f(3)] r(3) [OF f(4)]
    by (simp add: comp_def)
qed

lemma rp_roundtrip: "time_ok tm \<Longrightarrow> rp_fits rp \<Longrightarrow> unmarshalRetentionPolicyInfo tm (marshalRetentionPolicyInfo tm rp) = persisted_rp rp"
  by (cases rp) (auto simp: unmarshalRetentionPolicyInfo_def marshalRetentionPolicyInfo_def persisted_rp_def rp_fits_def group_roundtrip
      uint_word_of_int_eq take_bit_int_eq_self intro!: map_idI)

lemma db_roundtrip:
  "time_ok tm \<Longrightarrow> \<forall>rp \<in> set (db_RetentionPolicies db). rp_fits rp \<Longrightarrow> unmarshalDatabaseInfo tm (marshalDatabaseInfo tm db) = persisted_db db"
  by (simp add: unmarshalDatabaseInfo_def marshalDatabaseInfo_def persisted_db_def rp_roundtrip)

lemma put_status_fold:
  "fold (put_status s) ys st = (if ys = [] then st else st(s \<mapsto> (case st s of None \<Rightarrow> Map.empty | Some m \<Rightarrow> m) ++ map_of (rev ys)))"
proof (induction ys arbitrary: st)
  case (Cons y ys)
  then show ?case by (cases y) (auto simp: put_status_def Let_def map_add_def fun_eq_iff split: option.splits)
qed simp

lemma status_fold:
  assumes "distinct shards" "\<forall>s \<in> set shards. acc s = None \<and> set (owners s) = dom (the (st s))"
  shows "fold (\<lambda>(s, ys). fold (put_status s) ys) (map (\<lambda>s. (s, map (\<lambda>n. (n, the (the (st s) n))) (owners s))) shards) acc =
    (\<lambda>x. if x \<in> set shards \<and> the (st x) \<noteq> Map.empty then Some (the (st x)) else acc x)"
  using assms
proof (induction shards arbitrary: acc)
  case (Cons s shards)
  let ?ys = "map (\<lambda>n. (n, the (the (st s) n))) (owners s)"
  have dom: "set (rev (owners s)) = dom (the (st s))" using Cons.prems(2) by simp
  have "map_of (rev ?ys) = the (st s)" using map_of_map_keys [OF dom] by (simp add: rev_map)
  moreover have "owners s = [] \<longleftrightarrow> the (st s) = Map.empty" using dom by (metis dom_eq_empty_conv set_empty set_rev)
  ultimately have h: "fold (put_status s) ?ys acc = (if the (st s) = Map.empty then acc else acc(s \<mapsto> the (st s)))"
    using Cons.prems(2) by (simp add: put_status_fold)
  have nin: "s \<notin> set shards" using Cons.prems(1) by simp
  have "\<forall>x \<in> set shards. (if the (st s) = Map.empty then acc else acc(s \<mapsto> the (st s))) x = None \<and> set (owners x) = dom (the (st x))"
    using Cons.prems(2) nin by auto
  from Cons.IH [OF _ this] Cons.prems(1) show ?case using nin by (auto simp: h fun_eq_iff)
qed simp

lemma unmarshal_marshal:
  assumes "time_ok tm" "data_fits d" "iteration_ok (d_ShardStatus d) shards owners"
  shows "unmarshal tm (marshal tm shards owners d) = persisted d"
proof -
  have dbs: "map (unmarshalDatabaseInfo tm) (map (marshalDatabaseInfo tm) (md_Databases (d_Data d))) = map persisted_db (md_Databases (d_Data d))"
    using assms(1,2) by (simp add: data_fits_def db_roundtrip)
  have "fold (\<lambda>(s, ys). fold (put_status s) ys) (map (\<lambda>s. (s, map (\<lambda>n. (n, the (the (d_ShardStatus d s) n))) (owners s))) shards) Map.empty =
      (\<lambda>x. if x \<in> set shards \<and> the (d_ShardStatus d x) \<noteq> Map.empty then Some (the (d_ShardStatus d x)) else None)"
    using assms(3) status_fold [of shards Map.empty owners "d_ShardStatus d"] by (simp add: iteration_ok_def)
  also have "\<dots> = (\<lambda>s. if d_ShardStatus d s = Some Map.empty then None else d_ShardStatus d s)"
  proof
    fix x
    show "(if x \<in> set shards \<and> the (d_ShardStatus d x) \<noteq> Map.empty then Some (the (d_ShardStatus d x)) else None) =
        (if d_ShardStatus d x = Some Map.empty then None else d_ShardStatus d x)"
      using assms(3) by (cases "d_ShardStatus d x") (auto simp: iteration_ok_def)
  qed
  finally have st: "fold (\<lambda>(s, ys). fold (put_status s) ys) (map (\<lambda>s. (s, map (\<lambda>n. (n, the (the (d_ShardStatus d s) n))) (owners s))) shards) Map.empty =
      (\<lambda>s. if d_ShardStatus d s = Some Map.empty then None else d_ShardStatus d s)" .
  have "map unmarshalNodeInfo (map marshalNodeInfo ns) = ns" for ns by (simp add: comp_def)
  then show ?thesis unfolding unmarshal_def marshal_def persisted_def pbData.simps dbs st by simp
qed

definition plain_time :: time_lib where
  "plain_time = \<lparr>MarshalTime = (\<lambda>t. if t = 0 then 0 else t - unixEpoch), UnmarshalTime = (\<lambda>v. if v = 0 then 0 else v + unixEpoch)\<rparr>"

lemma plain_time_ok: "time_ok plain_time"
  by (simp add: time_ok_def plain_time_def)

end
