(* ===== verification/Meta_Fsm.thy ===== *)
theory Meta_Fsm
  imports Meta_Codec
begin

text \<open>
  The replicated state machine of the meta nodes, \<^verbatim>\<open>services/meta/store_fsm.go\<close>: committed log entries are applied to the metadata.
  A handler works on a clone and installs it when it succeeds; the clone shares the map of shard statuses with the original, so that a
  failed handler keeps what it did to that map. The raft library, the clock and the order of map iteration are arguments (\<open>env\<close>).
\<close>

record rpSpec =
  spec_Name :: string
  spec_ReplicaN :: "32 word"
  spec_Duration :: int
  spec_ShardGroupDuration :: int

datatype command =
  RemovePeerCommand string
| CreateNodeCommand string u64
| DeleteNodeCommand
| CreateDatabaseCommand string "rpSpec option"
| DropDatabaseCommand string
| CreateRetentionPolicyCommand string rpSpec bool
| DropRetentionPolicyCommand string string
| SetDefaultRetentionPolicyCommand string string
| UpdateRetentionPolicyCommand string string "string option" "int option" "32 word option" "int option" "bool option"
| CreateShardGroupCommand string string int
| DeleteShardGroupCommand string string u64
| CreateContinuousQueryCommand string string string
| DropContinuousQueryCommand string string
| CreateSubscriptionCommand string string string string "string list"
| DropSubscriptionCommand string string string
| CreateUserCommand string string bool
| DropUserCommand string
| UpdateUserCommand string string
| SetPrivilegeCommand string string int
| SetAdminPrivilegeCommand string bool
| SetDataCommand pbData
| UpdateNodeCommand u64 string
| CreateMetaNodeCommand string string u64
| DeleteMetaNodeCommand u64
| SetMetaNodeCommand string string u64
| CreateDataNodeCommand string string
| UpdateDataNodeCommand u64 string string
| DeleteDataNodeCommand u64
| DropShardCommand u64
| UpdateShardCommand u64 "u64 list" "(u64 \<times> int) option"

record fsm =
  f_data :: data
  f_RetentionAutoCreate :: bool

record env =
  e_lib :: meta_lib
  e_time :: time_lib
  e_peers :: "meta_error + string list"
  e_removePeer :: "string \<Rightarrow> meta_error option"
  e_ErrNotLeader :: meta_error
  e_now :: time
  e_iter :: "(int \<times> int) list \<Rightarrow> (int \<times> int) list"

text \<open>Clone, change, and install the clone unless there was an error.\<close>

definition with_clone :: "(data \<Rightarrow> meta_error option \<times> data) \<Rightarrow> fsm \<Rightarrow> meta_error option \<times> fsm" where
  "with_clone op s = (case op (f_data s) of
      (Some e, other) \<Rightarrow> (Some e, s\<lparr>f_data := (f_data s)\<lparr>d_ShardStatus := d_ShardStatus other\<rparr>\<rparr>)
    | (None, other) \<Rightarrow> (None, s\<lparr>f_data := other\<rparr>))"

definition set_cluster_id :: "u64 \<Rightarrow> data \<Rightarrow> data" where
  "set_cluster_id rand d = (if md_ClusterID (d_Data d) = 0 then d\<lparr>d_Data := (d_Data d)\<lparr>md_ClusterID := rand\<rparr>\<rparr> else d)"

subsection \<open>Handlers\<close>

definition applyUpdateShardCommand :: "u64 \<Rightarrow> u64 list \<Rightarrow> (u64 \<times> int) option \<Rightarrow> fsm \<Rightarrow> meta_error option \<times> fsm" where
  "applyUpdateShardCommand ident newOwners newStatus s =
     (let other = if newOwners \<noteq> [] then UpdateShard ident newOwners (f_data s) else f_data s in
      case newStatus of
        None \<Rightarrow> (None, s\<lparr>f_data := other\<rparr>)
      | Some (node, st) \<Rightarrow> (case d_ShardStatus other ident of
          None \<Rightarrow> (Some MetaPanic, s)
        | Some m \<Rightarrow> (None, s\<lparr>f_data := other\<lparr>d_ShardStatus := (d_ShardStatus other)(ident \<mapsto> m(node \<mapsto> st))\<rparr>\<rparr>)))"

definition applyCreateNodeCommand :: "env \<Rightarrow> string \<Rightarrow> u64 \<Rightarrow> string list \<Rightarrow> fsm \<Rightarrow> meta_error option \<times> fsm" where
  "applyCreateNodeCommand env host rand peers = with_clone (\<lambda>d.
     case (if host \<in> set peers then CreateMetaNode (e_lib env) host host d else (None, d)) of
       (Some e, d1) \<Rightarrow> (Some e, d1)
     | (None, d1) \<Rightarrow> (case (case d_MetaNodes d1 of [n] \<Rightarrow> setDataNode (n_ID n) host host d1 | _ \<Rightarrow> CreateDataNode (e_lib env) host host d1) of
         (Some e, d2) \<Rightarrow> (Some e, d2)
       | (None, d2) \<Rightarrow> (None, set_cluster_id rand d2)))"

definition applyUpdateNodeCommand :: "fsm \<Rightarrow> meta_error option \<times> fsm" where
  "applyUpdateNodeCommand s = (None, s)"

definition applyDeleteNodeCommand :: "fsm \<Rightarrow> meta_error option \<times> fsm" where
  "applyDeleteNodeCommand s = (None, s)"

definition applyRemovePeerCommand :: "string \<Rightarrow> fsm \<Rightarrow> meta_error option \<times> fsm" where
  "applyRemovePeerCommand addr s = (None, s)"

definition rp_of_spec :: "rpSpec \<Rightarrow> retentionPolicyInfo" where
  "rp_of_spec r = \<lparr>rp_Name = spec_Name r, rp_ReplicaN = uint (spec_ReplicaN r), rp_Duration = spec_Duration r,
     rp_ShardGroupDuration = spec_ShardGroupDuration r, rp_ShardGroups = [], rp_Subscriptions = []\<rparr>"

definition auto_replicas :: "nat \<Rightarrow> int" where
  "auto_replicas n = (if n > 2 then 2 else if n < 1 then 1 else int n)"

definition applyCreateDatabaseCommand :: "env \<Rightarrow> string \<Rightarrow> rpSpec option \<Rightarrow> fsm \<Rightarrow> meta_error option \<times> fsm" where
  "applyCreateDatabaseCommand env name rpi s = with_clone (\<lambda>d.
     case CreateDatabase (e_lib env) name d of
       (Some e, d1) \<Rightarrow> (Some e, d1)
     | (None, d1) \<Rightarrow> (case rpi of
         Some r \<Rightarrow> (case CreateRetentionPolicy (e_lib env) name (rp_of_spec r) True d1 of
             (Some e, d2) \<Rightarrow> (Some (if e = ErrRetentionPolicyExists then ErrRetentionPolicyConflict else e), d2)
           | (None, d2) \<Rightarrow> (None, d2))
       | None \<Rightarrow>
           if f_RetentionAutoCreate s
           then CreateRetentionPolicy (e_lib env) name ((lib_NewRetentionPolicyInfo (e_lib env) ''default'')
                  \<lparr>rp_ReplicaN := auto_replicas (length (d_DataNodes d1)), rp_Duration := 0\<rparr>) True d1
           else (None, d1))) s"

definition applyDropDatabaseCommand :: "env \<Rightarrow> string \<Rightarrow> fsm \<Rightarrow> meta_error option \<times> fsm" where
  "applyDropDatabaseCommand env name = with_clone (DropDatabase (e_lib env) name)"

definition applyCreateRetentionPolicyCommand :: "env \<Rightarrow> string \<Rightarrow> rpSpec \<Rightarrow> bool \<Rightarrow> fsm \<Rightarrow> meta_error option \<times> fsm" where
  "applyCreateRetentionPolicyCommand env database r makeDefault = with_clone (CreateRetentionPolicy (e_lib env) database (rp_of_spec r) makeDefault)"

definition applyDropRetentionPolicyCommand :: "env \<Rightarrow> string \<Rightarrow> string \<Rightarrow> fsm \<Rightarrow> meta_error option \<times> fsm" where
  "applyDropRetentionPolicyCommand env database name = with_clone (DropRetentionPolicy (e_lib env) database name)"

text \<open>The handler dereferences the optional flag \<^verbatim>\<open>MakeDefault\<close>.\<close>

definition applyUpdateRetentionPolicyCommand ::
  "env \<Rightarrow> string \<Rightarrow> string \<Rightarrow> string option \<Rightarrow> int option \<Rightarrow> 32 word option \<Rightarrow> int option \<Rightarrow> bool option \<Rightarrow> fsm \<Rightarrow> meta_error option \<times> fsm" where
  "applyUpdateRetentionPolicyCommand env database name newName duration replicaN shardDuration makeDefault s = (case makeDefault of
      None \<Rightarrow> (Some MetaPanic, s)
    | Some md \<Rightarrow> with_clone (UpdateRetentionPolicy (e_lib env) database name
        \<lparr>rpu_Name = newName, rpu_Duration = duration, rpu_ReplicaN = map_option uint replicaN, rpu_ShardGroupDuration = shardDuration\<rparr> md) s)"

definition applyCreateShardGroupCommand :: "env \<Rightarrow> string \<Rightarrow> string \<Rightarrow> int \<Rightarrow> fsm \<Rightarrow> meta_error option \<times> fsm" where
  "applyCreateShardGroupCommand env database policy timestamp = with_clone (CreateShardGroup (e_lib env) database policy (unixEpoch + timestamp))"

definition applyDeleteShardGroupCommand :: "env \<Rightarrow> string \<Rightarrow> string \<Rightarrow> u64 \<Rightarrow> fsm \<Rightarrow> meta_error option \<times> fsm" where
  "applyDeleteShardGroupCommand env database policy ident = with_clone (DeleteShardGroup (e_lib env) database policy ident)"

definition applyCreateContinuousQueryCommand :: "env \<Rightarrow> string \<Rightarrow> string \<Rightarrow> string \<Rightarrow> fsm \<Rightarrow> meta_error option \<times> fsm" where
  "applyCreateContinuousQueryCommand env database name query = with_clone (CreateContinuousQuery (e_lib env) database name query)"

definition applyDropContinuousQueryCommand :: "env \<Rightarrow> string \<Rightarrow> string \<Rightarrow> fsm \<Rightarrow> meta_error option \<times> fsm" where
  "applyDropContinuousQueryCommand env database name = with_clone (DropContinuousQuery (e_lib env) database name)"

definition applyCreateSubscriptionCommand :: "env \<Rightarrow> string \<Rightarrow> string \<Rightarrow> string \<Rightarrow> string \<Rightarrow> string list \<Rightarrow> fsm \<Rightarrow> meta_error option \<times> fsm" where
  "applyCreateSubscriptionCommand env database rp name mode ds = with_clone (CreateSubscription (e_lib env) database rp name mode ds)"

definition applyDropSubscriptionCommand :: "env \<Rightarrow> string \<Rightarrow> string \<Rightarrow> string \<Rightarrow> fsm \<Rightarrow> meta_error option \<times> fsm" where
  "applyDropSubscriptionCommand env database rp name = with_clone (DropSubscription (e_lib env) database rp name)"

definition applyCreateUserCommand :: "env \<Rightarrow> string \<Rightarrow> string \<Rightarrow> bool \<Rightarrow> fsm \<Rightarrow> meta_error option \<times> fsm" where
  "applyCreateUserCommand env name hash admin = with_clone (CreateUser (e_lib env) name hash admin)"

definition applyDropUserCommand :: "env \<Rightarrow> string \<Rightarrow> fsm \<Rightarrow> meta_error option \<times> fsm" where
  "applyDropUserCommand env name = with_clone (DropUser (e_lib env) name)"

definition applyUpdateUserCommand :: "env \<Rightarrow> string \<Rightarrow> string \<Rightarrow> fsm \<Rightarrow> meta_error option \<times> fsm" where
  "applyUpdateUserCommand env name hash = with_clone (UpdateUser (e_lib env) name hash)"

definition applySetPrivilegeCommand :: "env \<Rightarrow> string \<Rightarrow> string \<Rightarrow> int \<Rightarrow> fsm \<Rightarrow> meta_error option \<times> fsm" where
  "applySetPrivilegeCommand env username database p = with_clone (SetPrivilege (e_lib env) username database p)"

definition applySetAdminPrivilegeCommand :: "env \<Rightarrow> string \<Rightarrow> bool \<Rightarrow> fsm \<Rightarrow> meta_error option \<times> fsm" where
  "applySetAdminPrivilegeCommand env username admin = with_clone (SetAdminPrivilege (e_lib env) username admin)"

definition applySetDataCommand :: "env \<Rightarrow> pbData \<Rightarrow> fsm \<Rightarrow> meta_error option \<times> fsm" where
  "applySetDataCommand env pb s = (None, s\<lparr>f_data := unmarshal (e_time env) pb\<rparr>)"

text \<open>The results of creating and setting a meta node are ignored.\<close>

definition applyCreateMetaNodeCommand :: "env \<Rightarrow> string \<Rightarrow> string \<Rightarrow> u64 \<Rightarrow> fsm \<Rightarrow> meta_error option \<times> fsm" where
  "applyCreateMetaNodeCommand env http tcp rand s =
     (None, s\<lparr>f_data := set_cluster_id rand (snd (CreateMetaNode (e_lib env) http tcp (f_data s)))\<rparr>)"

definition applySetMetaNodeCommand :: "env \<Rightarrow> string \<Rightarrow> string \<Rightarrow> u64 \<Rightarrow> fsm \<Rightarrow> meta_error option \<times> fsm" where
  "applySetMetaNodeCommand env http tcp rand s =
     (None, s\<lparr>f_data := set_cluster_id rand (snd (SetMetaNode (e_lib env) http tcp (f_data s)))\<rparr>)"

definition applyDeleteMetaNodeCommand :: "env \<Rightarrow> u64 \<Rightarrow> fsm \<Rightarrow> meta_error option \<times> fsm" where
  "applyDeleteMetaNodeCommand env ident s = (case MetaNode ident (f_data s) of
      None \<Rightarrow> (Some ErrNodeNotFound, s)
    | Some node \<Rightarrow> (case e_removePeer env (n_TCPHost node) of
        Some e \<Rightarrow> if e \<noteq> e_ErrNotLeader env then (Some e, s) else with_clone (DeleteMetaNode ident) s
      | None \<Rightarrow> with_clone (DeleteMetaNode ident) s))"

definition applyCreateDataNodeCommand :: "env \<Rightarrow> string \<Rightarrow> string \<Rightarrow> fsm \<Rightarrow> meta_error option \<times> fsm" where
  "applyCreateDataNodeCommand env http tcp s = (case (d_MetaNodes (f_data s), d_DataNodes (f_data s)) of
      ([n], []) \<Rightarrow> with_clone (setDataNode (n_ID n) http tcp) s
    | _ \<Rightarrow> (None, s\<lparr>f_data := snd (CreateDataNode (e_lib env) http tcp (f_data s))\<rparr>))"

definition applyDeleteDataNodeCommand :: "env \<Rightarrow> u64 \<Rightarrow> fsm \<Rightarrow> meta_error option \<times> fsm" where
  "applyDeleteDataNodeCommand env ident = with_clone (DeleteDataNode (e_iter env) (e_now env) ident)"

text \<open>The dispatch; commands without a case make the process panic.\<close>

definition apply_command :: "env \<Rightarrow> command \<Rightarrow> fsm \<Rightarrow> meta_error option \<times> fsm" where
  "apply_command env cmd s = (case cmd of
      RemovePeerCommand addr \<Rightarrow> applyRemovePeerCommand addr s
    | CreateNodeCommand host rand \<Rightarrow> (case e_peers env of Inl e \<Rightarrow> (Some e, s) | Inr peers \<Rightarrow> applyCreateNodeCommand env host rand peers s)
    | DeleteNodeCommand \<Rightarrow> applyDeleteNodeCommand s
    | CreateDatabaseCommand name rp \<Rightarrow> applyCreateDatabaseCommand env name rp s
    | DropDatabaseCommand name \<Rightarrow> applyDropDatabaseCommand env name s
    | CreateRetentionPolicyCommand db r def \<Rightarrow> applyCreateRetentionPolicyCommand env db r def s
    | DropRetentionPolicyCommand db name \<Rightarrow> applyDropRetentionPolicyCommand env db name s
    | UpdateRetentionPolicyCommand db name n dur rep sd def \<Rightarrow> applyUpdateRetentionPolicyCommand env db name n dur rep sd def s
    | CreateShardGroupCommand db policy t \<Rightarrow> applyCreateShardGroupCommand env db policy t s
    | DeleteShardGroupCommand db policy i \<Rightarrow> applyDeleteShardGroupCommand env db policy i s
    | CreateContinuousQueryCommand db name q \<Rightarrow> applyCreateContinuousQueryCommand env db name q s
    | DropContinuousQueryCommand db name \<Rightarrow> applyDropContinuousQueryCommand env db name s
    | CreateSubscriptionCommand db rp name mode dests \<Rightarrow> applyCreateSubscriptionCommand env db rp name mode dests s
    | DropSubscriptionCommand db rp name \<Rightarrow> applyDropSubscriptionCommand env db rp name s
    | CreateUserCommand name hash admin \<Rightarrow> applyCreateUserCommand env name hash admin s
    | DropUserCommand name \<Rightarrow> applyDropUserCommand env name s
    | UpdateUserCommand name hash \<Rightarrow> applyUpdateUserCommand env name hash s
    | SetPrivilegeCommand name db p \<Rightarrow> applySetPrivilegeCommand env name db p s
    | SetAdminPrivilegeCommand name admin \<Rightarrow> applySetAdminPrivilegeCommand env name admin s
    | SetDataCommand pb \<Rightarrow> applySetDataCommand env pb s
    | UpdateNodeCommand i host \<Rightarrow> applyUpdateNodeCommand s
    | CreateMetaNodeCommand http tcp rand \<Rightarrow> applyCreateMetaNodeCommand env http tcp rand s
    | DeleteMetaNodeCommand i \<Rightarrow> applyDeleteMetaNodeCommand env i s
    | SetMetaNodeCommand http tcp rand \<Rightarrow> applySetMetaNodeCommand env http tcp rand s
    | CreateDataNodeCommand http tcp \<Rightarrow> applyCreateDataNodeCommand env http tcp s
    | DeleteDataNodeCommand i \<Rightarrow> applyDeleteDataNodeCommand env i s
    | UpdateShardCommand i owners st \<Rightarrow> applyUpdateShardCommand i owners st s
    | _ \<Rightarrow> (Some MetaPanic, s))"

definition stamp :: "u64 \<Rightarrow> u64 \<Rightarrow> fsm \<Rightarrow> fsm" where
  "stamp term index s = s\<lparr>f_data := (f_data s)\<lparr>d_Data := (d_Data (f_data s))\<lparr>md_Term := term, md_Index := index\<rparr>\<rparr>\<rparr>"

definition Apply :: "env \<Rightarrow> u64 \<Rightarrow> u64 \<Rightarrow> command \<Rightarrow> fsm \<Rightarrow> meta_error option \<times> fsm" where
  "Apply env term index cmd s = (case apply_command env cmd s of
      (Some MetaPanic, _) \<Rightarrow> (Some MetaPanic, s)
    | (r, s') \<Rightarrow> (r, stamp term index s'))"

subsection \<open>Snapshots\<close>

text \<open>The message library, and the sink that the raft library hands out.\<close>

record proto_lib =
  proto_Marshal :: "pbData \<Rightarrow> meta_error + bytes"
  proto_Unmarshal :: "bytes \<Rightarrow> meta_error + pbData"

record 'k snapshotSink =
  sink_Write :: "bytes \<Rightarrow> 'k \<Rightarrow> meta_error option \<times> 'k"
  sink_Close :: "'k \<Rightarrow> meta_error option \<times> 'k"
  sink_Cancel :: "'k \<Rightarrow> 'k"

definition MarshalBinary :: "proto_lib \<Rightarrow> time_lib \<Rightarrow> u64 list \<Rightarrow> (u64 \<Rightarrow> u64 list) \<Rightarrow> data \<Rightarrow> meta_error + bytes" where
  "MarshalBinary pl tm shards owners d = proto_Marshal pl (marshal tm shards owners d)"

definition UnmarshalBinary :: "proto_lib \<Rightarrow> time_lib \<Rightarrow> bytes \<Rightarrow> meta_error + data" where
  "UnmarshalBinary pl tm buf = (case proto_Unmarshal pl buf of Inl e \<Rightarrow> Inl e | Inr pb \<Rightarrow> Inr (unmarshal tm pb))"

text \<open>
  A snapshot holds a pointer to the live metadata, and the raft library applies further commands before the snapshot is persisted. The model
  follows the object that the pointer refers to: its content now, whether the store still uses this object, and whether
  the store's metadata share its map of statuses. Shared are all maps but a nil one, which the first shard group replaces.
\<close>

record storeFSMSnapshot =
  sn_data :: data
  sn_live :: bool
  sn_shared :: bool

definition Snapshot :: "bool \<Rightarrow> fsm \<Rightarrow> storeFSMSnapshot" where
  "Snapshot allocated s = \<lparr>sn_data = f_data s, sn_live = True, sn_shared = allocated\<rparr>"

text \<open>A command installs a new object if it succeeds, except for those whose handlers do nothing. Otherwise the changes are
  made in place; in every case a shared map of statuses is the store's.\<close>

definition replaces :: "command \<Rightarrow> meta_error option \<Rightarrow> bool" where
  "replaces cmd r \<longleftrightarrow> r = None \<and> (case cmd of RemovePeerCommand _ \<Rightarrow> False | DeleteNodeCommand \<Rightarrow> False | UpdateNodeCommand _ _ \<Rightarrow> False | _ \<Rightarrow> True)"

definition set_data :: "command \<Rightarrow> bool" where
  "set_data cmd = (case cmd of SetDataCommand _ \<Rightarrow> True | _ \<Rightarrow> False)"

definition observe :: "env \<Rightarrow> u64 \<Rightarrow> u64 \<Rightarrow> command \<Rightarrow> fsm \<Rightarrow> storeFSMSnapshot \<Rightarrow> storeFSMSnapshot" where
  "observe env term index cmd s sn = (case Apply env term index cmd s of (r, s') \<Rightarrow>
     let live = (sn_live sn \<and> \<not> replaces cmd r); shared = (sn_shared sn \<and> \<not> set_data cmd) in
     \<lparr>sn_data = (if live then f_data s' else if shared then (sn_data sn)\<lparr>d_ShardStatus := d_ShardStatus (f_data s')\<rparr> else sn_data sn),
      sn_live = live, sn_shared = shared\<rparr>)"

text \<open>The commands applied between \<^verbatim>\<open>Snapshot\<close> and \<^verbatim>\<open>Persist\<close>, each with its term and index.\<close>

fun applies_meanwhile :: "(env \<times> u64 \<times> u64 \<times> command) list \<Rightarrow> fsm \<times> storeFSMSnapshot \<Rightarrow> fsm \<times> storeFSMSnapshot" where
  "applies_meanwhile [] x = x"
| "applies_meanwhile ((env, term, index, cmd) # cs) (s, sn) = applies_meanwhile cs (snd (Apply env term index cmd s), observe env term index cmd s sn)"

definition Persist :: "proto_lib \<Rightarrow> time_lib \<Rightarrow> u64 list \<Rightarrow> (u64 \<Rightarrow> u64 list) \<Rightarrow> 'k snapshotSink \<Rightarrow> storeFSMSnapshot \<Rightarrow> 'k \<Rightarrow> meta_error option \<times> 'k" where
  "Persist pl tm shards owners sink sn k = (case MarshalBinary pl tm shards owners (sn_data sn) of
      Inl e \<Rightarrow> (Some e, sink_Cancel sink k)
    | Inr p \<Rightarrow> (case sink_Write sink p k of
        (Some e, k1) \<Rightarrow> (Some e, sink_Cancel sink k1)
      | (None, k1) \<Rightarrow> (case sink_Close sink k1 of
          (Some e, k2) \<Rightarrow> (Some e, sink_Cancel sink k2)
        | (None, k2) \<Rightarrow> (None, k2))))"

definition Restore :: "proto_lib \<Rightarrow> time_lib \<Rightarrow> meta_error + bytes \<Rightarrow> fsm \<Rightarrow> meta_error option \<times> fsm" where
  "Restore pl tm r s = (case r of
      Inl e \<Rightarrow> (Some e, s)
    | Inr b \<Rightarrow> (case UnmarshalBinary pl tm b of Inl e \<Rightarrow> (Some e, s) | Inr d \<Rightarrow> (None, s\<lparr>f_data := d\<rparr>)))"

definition proto_ok :: "proto_lib \<Rightarrow> bool" where
  "proto_ok pl \<longleftrightarrow> (\<forall>pb b. proto_Marshal pl pb = Inr b \<longrightarrow> proto_Unmarshal pl b = Inr pb)"

definition sink_ok :: "('k \<Rightarrow> bytes) \<Rightarrow> 'k snapshotSink \<Rightarrow> bool" where
  "sink_ok content sink \<longleftrightarrow> (\<forall>p k k'. sink_Write sink p k = (None, k') \<longrightarrow> content k' = content k @ p) \<and>
     (\<forall>k k'. sink_Close sink k = (None, k') \<longrightarrow> content k' = content k)"

lemma Persist_content:
  "sink_ok content sink \<Longrightarrow> Persist pl tm shards owners sink sn k = (None, k') \<Longrightarrow>
     \<exists>p. MarshalBinary pl tm shards owners (sn_data sn) = Inr p \<and> content k' = content k @ p"
  by (auto simp: Persist_def sink_ok_def split: sum.splits prod.splits option.splits)

subsection \<open>Errors\<close>

text \<open>An operation that leaves the shared map of statuses alone when it fails.\<close>

definition quiet :: "(data \<Rightarrow> meta_error option \<times> data) \<Rightarrow> data \<Rightarrow> bool" where
  "quiet op d \<longleftrightarrow> (\<forall>e d'. op d = (Some e, d') \<longrightarrow> e = MetaPanic \<or> d_ShardStatus d' = d_ShardStatus d)"

lemma with_clone_quiet: "with_clone op s = (Some e, s') \<Longrightarrow> quiet op (f_data s) \<Longrightarrow> e \<noteq> MetaPanic \<Longrightarrow> s' = s"
  by (auto simp: with_clone_def quiet_def split: prod.splits option.splits)

lemma on_data_status: "on_data f d = (r, d') \<Longrightarrow> d_ShardStatus d' = d_ShardStatus d"
  by (auto simp: on_data_def split: sum.splits)

lemmas store_ops = CreateDatabase_def DropDatabase_def CreateRetentionPolicy_def DropRetentionPolicy_def UpdateRetentionPolicy_def
  DeleteShardGroup_def CreateContinuousQuery_def DropContinuousQuery_def CreateSubscription_def DropSubscription_def CreateUser_def
  DropUser_def UpdateUser_def SetPrivilege_def SetAdminPrivilege_def

lemma quiet_on_data [simp]: "quiet (on_data f) d"
  using on_data_status by (auto simp: quiet_def)

lemma node_op_status:
  "d_ShardStatus (snd (CreateMetaNode lib http tcp d)) = d_ShardStatus d"
  "d_ShardStatus (snd (CreateDataNode lib http tcp d)) = d_ShardStatus d"
  "d_ShardStatus (snd (setDataNode i http tcp d)) = d_ShardStatus d"
  "d_ShardStatus (snd (DeleteMetaNode i d)) = d_ShardStatus d"
  by (simp_all add: CreateMetaNode_def CreateDataNode_def setDataNode_def DeleteMetaNode_def Let_def)

lemma quiet_DeleteMetaNode [simp]: "quiet (DeleteMetaNode i) d"
  unfolding quiet_def by (metis node_op_status(4) snd_conv)

lemma quiet_setDataNode [simp]: "quiet (setDataNode i http tcp) d"
  unfolding quiet_def by (metis node_op_status(3) snd_conv)

lemma quiet_CreateShardGroup [simp]: "quiet (CreateShardGroup lib db rp t) d"
  by (auto simp: quiet_def CreateShardGroup_def Let_def split: sum.splits option.splits prod.splits if_splits)

lemma quiet_DeleteDataNode:
  assumes "iter_ok iter" "\<forall>g \<in> set (all_groups d). group_ok g"
  shows "quiet (DeleteDataNode iter now i) d"
proof (cases "i \<in> n_ID ` set (d_DataNodes d)")
  case True
  from DeleteDataNode_removes [OF assms(1) True assms(2), of now] show ?thesis by (auto simp: quiet_def)
next
  case False
  then have "filter (\<lambda>n. n_ID n \<noteq> i) (d_DataNodes d) = d_DataNodes d" by (auto intro: filter_True)
  then show ?thesis by (simp add: quiet_def DeleteDataNode_def)
qed

lemma quiet_create_node:
  "quiet (\<lambda>d. case (if b then CreateMetaNode lib h h d else (None, d)) of
       (Some e, d1) \<Rightarrow> (Some e, d1)
     | (None, d1) \<Rightarrow> (case (case d_MetaNodes d1 of [n] \<Rightarrow> setDataNode (n_ID n) h h d1 | _ \<Rightarrow> CreateDataNode lib h h d1) of
         (Some e, d2) \<Rightarrow> (Some e, d2)
       | (None, d2) \<Rightarrow> (None, set_cluster_id rand d2))) d"
  by (auto simp: quiet_def CreateMetaNode_def CreateDataNode_def setDataNode_def Let_def split: prod.splits option.splits if_splits list.splits)

lemma quiet_create_database:
  "quiet (\<lambda>d. case CreateDatabase lib name d of
       (Some e, d1) \<Rightarrow> (Some e, d1)
     | (None, d1) \<Rightarrow> (case rpi of
         Some r \<Rightarrow> (case CreateRetentionPolicy lib name (rp_of_spec r) True d1 of
             (Some e, d2) \<Rightarrow> (Some (if e = ErrRetentionPolicyExists then ErrRetentionPolicyConflict else e), d2)
           | (None, d2) \<Rightarrow> (None, d2))
       | None \<Rightarrow> if auto then CreateRetentionPolicy lib name (rp d1) True d1 else (None, d1))) d"
  unfolding quiet_def store_ops
  by (auto simp: on_data_def split: prod.splits option.splits if_splits sum.splits)

lemmas handler_defs = applyUpdateShardCommand_def applyUpdateNodeCommand_def applyDeleteNodeCommand_def applyRemovePeerCommand_def
  applyDropDatabaseCommand_def applyCreateRetentionPolicyCommand_def applyDropRetentionPolicyCommand_def applyUpdateRetentionPolicyCommand_def
  applyCreateShardGroupCommand_def applyDeleteShardGroupCommand_def applyCreateContinuousQueryCommand_def applyDropContinuousQueryCommand_def
  applyCreateSubscriptionCommand_def applyDropSubscriptionCommand_def applyCreateUserCommand_def applyDropUserCommand_def
  applyUpdateUserCommand_def applySetPrivilegeCommand_def applySetAdminPrivilegeCommand_def applySetDataCommand_def
  applyCreateMetaNodeCommand_def applySetMetaNodeCommand_def applyDeleteMetaNodeCommand_def applyCreateDataNodeCommand_def
  applyDeleteDataNodeCommand_def

lemma apply_command_error:
  assumes "iter_ok (e_iter env)" "\<forall>g \<in> set (all_groups (f_data s)). group_ok g"
    and a: "apply_command env cmd s = (Some e, s')" and e: "e \<noteq> MetaPanic"
  shows "s' = s"
proof -
  note q = with_clone_quiet [OF _ _ e]
  note dd = q [OF _ quiet_DeleteDataNode [OF assms(1,2)]]
  show ?thesis
  proof (cases cmd)
    case (CreateNodeCommand host rand)
    then show ?thesis using a
      by (auto simp: apply_command_def applyCreateNodeCommand_def split: sum.splits intro: q [OF _ quiet_create_node])
  next
    case (CreateDatabaseCommand name rp)
    then show ?thesis using a
      by (auto simp: apply_command_def applyCreateDatabaseCommand_def intro: q [OF _ quiet_create_database])
  next
    case (DeleteDataNodeCommand i)
    then show ?thesis using a dd by (simp add: apply_command_def handler_defs)
  qed (use a e in \<open>auto simp: apply_command_def handler_defs store_ops Let_def dest: q split: option.splits prod.splits if_splits list.splits\<close>)
qed


subsection \<open>Snapshots under further commands\<close>

text \<open>The metadata without term, index and shard statuses.\<close>

definition meta_part :: "data \<Rightarrow> data" where
  "meta_part d = d\<lparr>d_Data := (d_Data d)\<lparr>md_Term := 0, md_Index := 0\<rparr>, d_ShardStatus := Map.empty\<rparr>"

lemma meta_part_status [simp]: "meta_part (d\<lparr>d_ShardStatus := st\<rparr>) = meta_part d"
  by (simp add: meta_part_def)

lemma meta_part_stamp [simp]: "meta_part (f_data (stamp t i s)) = meta_part (f_data s)"
  by (simp add: meta_part_def stamp_def)

lemma data_fits_meta_part: "meta_part d = meta_part d' \<Longrightarrow> data_fits d = data_fits d'"
  by (drule arg_cong [where f = "\<lambda>d. md_Databases (d_Data d)"]) (simp add: meta_part_def data_fits_def)

lemma with_clone_meta_part: "with_clone op s = (Some e, s') \<Longrightarrow> meta_part (f_data s') = meta_part (f_data s)"
  by (auto simp: with_clone_def split: prod.splits option.splits)

lemma apply_command_in_place:
  assumes "apply_command env cmd s = (r, s')" "\<not> replaces cmd r"
  shows "meta_part (f_data s') = meta_part (f_data s)"
  using assms
  by (cases cmd) (auto simp: apply_command_def handler_defs applyCreateNodeCommand_def applyCreateDatabaseCommand_def replaces_def Let_def
      dest!: with_clone_meta_part split: option.splits sum.splits prod.splits if_splits list.splits)

lemma Apply_in_place:
  assumes "Apply env t i cmd s = (r, s')" "\<not> replaces cmd r"
  shows "meta_part (f_data s') = meta_part (f_data s)"
proof -
  obtain r1 s1 where a: "apply_command env cmd s = (r1, s1)" by (metis surj_pair)
  then consider "s' = s" | "r = r1" "s' = stamp t i s1"
    using assms(1) by (auto simp: Apply_def split: option.splits meta_error.splits)
  then show ?thesis using apply_command_in_place [OF a] assms(2) by cases auto
qed

text \<open>What holds of the object behind the pointer while commands are applied.\<close>

definition snapshot_inv :: "data \<Rightarrow> fsm \<times> storeFSMSnapshot \<Rightarrow> bool" where
  "snapshot_inv d = (\<lambda>(s, sn). meta_part (sn_data sn) = meta_part d \<and> (sn_live sn \<longrightarrow> sn_data sn = f_data s) \<and>
     (sn_shared sn \<longrightarrow> d_ShardStatus (sn_data sn) = d_ShardStatus (f_data s)))"

lemma observe_inv:
  assumes "snapshot_inv d (s, sn)"
  shows "snapshot_inv d (snd (Apply env t i cmd s), observe env t i cmd s sn)"
proof -
  obtain r s' where a: "Apply env t i cmd s = (r, s')" by (metis surj_pair)
  then show ?thesis using assms Apply_in_place [OF a] by (auto simp: snapshot_inv_def observe_def Let_def)
qed

lemma applies_meanwhile_inv:
  "snapshot_inv d x \<Longrightarrow> snapshot_inv d (applies_meanwhile cs x)"
  by (induction cs x rule: applies_meanwhile.induct) (auto intro: observe_inv)

lemma applies_meanwhile_shared:
  "\<forall>(env, t, i, cmd) \<in> set cs. \<not> set_data cmd \<Longrightarrow> sn_shared (snd (applies_meanwhile cs x)) = sn_shared (snd x)"
  by (induction cs x rule: applies_meanwhile.induct) (auto simp: observe_def Let_def split: prod.splits)

text \<open>C35: a snapshot that is persisted without an error, after any commands that were applied since it was taken, restores on any node and over any
  earlier state the persisted part of the object that the snapshot points to. All of that object but term, index and shard
  statuses is as it was when the snapshot was taken; without commands in between so is everything. Its statuses are not
  those of that time but those of the store when it is persisted, if the map of statuses was allocated and
  no command in between replaced all metadata. Users, continuous queries and subscriptions are lost. Times and
  replication factors have to fit the message, and the maps are iterated over completely.\<close>

theorem snapshot_restore:
  assumes "time_ok tm" "proto_ok pl" "sink_ok content sink"
    and "applies_meanwhile cs (s, Snapshot allocated s) = (s1, sn)"
    and "data_fits (f_data s)" "iteration_ok (d_ShardStatus (sn_data sn)) shards owners"
    and "content k = []" "Persist pl tm shards owners sink sn k = (None, k')"
  shows "Restore pl tm (Inr (content k')) s0 = (None, s0\<lparr>f_data := persisted (sn_data sn)\<rparr>) \<and>
    meta_part (sn_data sn) = meta_part (f_data s) \<and> (cs = [] \<longrightarrow> sn_data sn = f_data s) \<and>
    (allocated \<and> (\<forall>(env, t, i, cmd) \<in> set cs. \<not> set_data cmd) \<longrightarrow> d_ShardStatus (sn_data sn) = d_ShardStatus (f_data s1))"
proof -
  have "snapshot_inv (f_data s) (s, Snapshot allocated s)" by (simp add: snapshot_inv_def Snapshot_def)
  then have inv: "snapshot_inv (f_data s) (s1, sn)" using applies_meanwhile_inv assms(4) by metis
  then have m: "meta_part (sn_data sn) = meta_part (f_data s)" by (simp add: snapshot_inv_def)
  have "data_fits (sn_data sn)" using data_fits_meta_part [OF m] assms(5) by simp
  then have "Restore pl tm (Inr (content k')) s0 = (None, s0\<lparr>f_data := persisted (sn_data sn)\<rparr>)"
    using Persist_content [OF assms(3,8)] assms(2,7) unmarshal_marshal [OF assms(1) _ assms(6)]
    by (auto simp: Restore_def UnmarshalBinary_def MarshalBinary_def proto_ok_def)
  moreover have "cs = [] \<Longrightarrow> sn_data sn = f_data s" using assms(4) by (auto simp: Snapshot_def)
  moreover have "d_ShardStatus (sn_data sn) = d_ShardStatus (f_data s1)" if "allocated" "\<forall>(env, t, i, cmd) \<in> set cs. \<not> set_data cmd"
    using applies_meanwhile_shared [OF that(2), of "(s, Snapshot allocated s)"] assms(4) inv that(1) by (simp add: snapshot_inv_def Snapshot_def)
  ultimately show ?thesis using m by blast
qed

subsection \<open>Node identities over the life of the cluster\<close>

definition newStore :: "bool \<Rightarrow> fsm" where
  "newStore auto = \<lparr>f_data = \<lparr>d_Data = \<lparr>md_Term = 0, md_Index = 1, md_ClusterID = 0, md_Databases = [], md_Users = [],
       md_MaxShardGroupID = 0, md_MaxShardID = 0\<rparr>, d_MetaNodes = [], d_DataNodes = [], d_ShardStatus = Map.empty, d_MaxNodeID = 0\<rparr>,
     f_RetentionAutoCreate = auto\<rparr>"

text \<open>The addresses that commands may carry. The first data node of a cluster with one meta node has to be that node; a meta node
  comes with a new address. The command of old versions that creates both kinds of nodes and the one that replaces all
  metadata are excluded.\<close>

definition joins_ok :: "command \<Rightarrow> data \<Rightarrow> bool" where
  "joins_ok cmd d = (case cmd of
      CreateMetaNodeCommand http tcp rand \<Rightarrow> (\<forall>m \<in> set (d_MetaNodes d). n_TCPHost m \<noteq> tcp)
    | SetMetaNodeCommand http tcp rand \<Rightarrow> (case d_MetaNodes d of
        [n] \<Rightarrow> (\<forall>x \<in> set (d_DataNodes d). n_ID x = n_ID n \<longleftrightarrow> n_TCPHost x = tcp) | _ \<Rightarrow> True)
    | CreateDataNodeCommand http tcp \<Rightarrow> (case (d_MetaNodes d, d_DataNodes d) of ([n], []) \<Rightarrow> tcp = n_TCPHost n | _ \<Rightarrow> True)
    | CreateNodeCommand host rand \<Rightarrow> False
    | SetDataCommand pb \<Rightarrow> False
    | _ \<Rightarrow> True)"

text \<open>States a meta node goes through: it starts empty, applies commands while IDs last, and may be restarted from a snapshot.\<close>

inductive reachable :: "meta_lib \<Rightarrow> fsm \<Rightarrow> bool" for lib where
  start: "reachable lib (newStore auto)"
| applies: "reachable lib s \<Longrightarrow> e_lib env = lib \<Longrightarrow> joins_ok cmd (f_data s) \<Longrightarrow> d_MaxNodeID (f_data s) \<noteq> - 1 \<Longrightarrow>
    Apply env tm ix cmd s = (r, s') \<Longrightarrow> r \<noteq> Some MetaPanic \<Longrightarrow> reachable lib s'"
| restarts: "reachable lib s \<Longrightarrow> reachable lib (s0\<lparr>f_data := persisted (f_data s)\<rparr>)"

text \<open>What the invariant looks at.\<close>

lemma nodes_ok_cong:
  "d_MetaNodes d' = d_MetaNodes d \<Longrightarrow> d_DataNodes d' = d_DataNodes d \<Longrightarrow> d_MaxNodeID d' = d_MaxNodeID d \<Longrightarrow> nodes_ok d' = nodes_ok d"
  by (simp add: nodes_ok_def)

definition same_nodes :: "data \<Rightarrow> data \<Rightarrow> bool" where
  "same_nodes d d' \<longleftrightarrow> d_MetaNodes d' = d_MetaNodes d \<and> d_DataNodes d' = d_DataNodes d \<and> d_MaxNodeID d' = d_MaxNodeID d"

lemma same_nodes_ok: "same_nodes d d' \<Longrightarrow> nodes_ok d \<Longrightarrow> nodes_ok d'"
  by (simp add: same_nodes_def nodes_ok_def)

lemma same_nodes_refl [simp]: "same_nodes d d"
  by (simp add: same_nodes_def)

lemma same_nodes_update [simp]: "same_nodes d (d\<lparr>d_Data := x, d_ShardStatus := st\<rparr>)"
  by (simp add: same_nodes_def)

lemma nodes_ok_set_cluster_id [simp]: "nodes_ok (set_cluster_id r d) = nodes_ok d"
  by (rule nodes_ok_cong) (simp_all add: set_cluster_id_def)

lemma nodes_ok_stamp [simp]: "nodes_ok (f_data (stamp t i s)) = nodes_ok (f_data s)"
  by (rule nodes_ok_cong) (simp_all add: stamp_def)

lemma nodes_ok_persisted [simp]: "nodes_ok (persisted d) = nodes_ok d"
  by (rule nodes_ok_cong) (simp_all add: persisted_def)

lemma nodes_ok_status [simp]: "nodes_ok (d\<lparr>d_ShardStatus := st\<rparr>) = nodes_ok d"
  by (rule nodes_ok_cong) simp_all

lemma on_data_same [simp]: "same_nodes d (snd (on_data f d))"
  by (simp add: same_nodes_def on_data_def split: sum.splits)

lemma on_all_groups_same: "same_nodes d (snd (on_all_groups f d))"
  by (simp add: same_nodes_def on_all_groups_def split: prod.splits)

lemma UpdateShard_same [simp]: "same_nodes d (UpdateShard i os d)"
  unfolding UpdateShard_def by (rule on_all_groups_same)

lemma CreateShardGroup_same [simp]: "same_nodes d (snd (CreateShardGroup lib db rp t d))"
  by (auto simp: CreateShardGroup_def Let_def split: sum.splits option.splits prod.splits if_splits)

lemma with_clone_nodes: "nodes_ok (f_data s) \<Longrightarrow> nodes_ok (snd (op (f_data s))) \<Longrightarrow> nodes_ok (f_data (snd (with_clone op s)))"
  by (auto simp: with_clone_def split: prod.splits option.splits)

lemma with_clone_same: "nodes_ok (f_data s) \<Longrightarrow> same_nodes (f_data s) (snd (op (f_data s))) \<Longrightarrow> nodes_ok (f_data (snd (with_clone op s)))"
  by (rule with_clone_nodes) (simp_all add: same_nodes_ok)

lemma nodes_ok_subset:
  assumes "nodes_ok d"
  shows "nodes_ok (d\<lparr>d_MetaNodes := filter P (d_MetaNodes d)\<rparr>)" "nodes_ok (d\<lparr>d_DataNodes := filter P (d_DataNodes d)\<rparr>)"
  using assms by (auto simp: nodes_ok_def distinct_map_filter)

lemma nodes_ok_DeleteMetaNode: "nodes_ok d \<Longrightarrow> nodes_ok (snd (DeleteMetaNode i d))"
  by (simp add: DeleteMetaNode_def Let_def nodes_ok_subset)

lemma nodes_ok_DeleteDataNode: "nodes_ok d \<Longrightarrow> nodes_ok (snd (DeleteDataNode iter now i d))"
  by (simp add: DeleteDataNode_def Let_def nodes_ok_subset same_nodes_ok [OF on_all_groups_same])

lemma nodes_ok_SetMetaNode:
  assumes "lib_ok lib" "nodes_ok d" "d_MaxNodeID d \<noteq> - 1" "joins_ok (SetMetaNodeCommand http tcp rand) d"
  shows "nodes_ok (snd (SetMetaNode lib http tcp d))"
proof (cases "d_MetaNodes d")
  case Nil
  then show ?thesis using nodes_ok_CreateMetaNode [OF assms(1-3)] by (simp add: SetMetaNode_def)
next
  case (Cons n ns)
  then show ?thesis using assms(2,4) by (cases ns) (auto simp: SetMetaNode_def nodes_ok_def joins_ok_def)
qed

lemma nodes_ok_first_data_node:
  "nodes_ok d \<Longrightarrow> d_MetaNodes d = [n] \<Longrightarrow> d_DataNodes d = [] \<Longrightarrow> nodes_ok (snd (setDataNode (n_ID n) http (n_TCPHost n) d))"
  by (auto simp: setDataNode_def nodes_ok_def)

lemma nodes_ok_applyCreateDataNode:
  assumes "lib_ok (e_lib env)" "nodes_ok (f_data s)" "d_MaxNodeID (f_data s) \<noteq> - 1" "joins_ok (CreateDataNodeCommand http tcp) (f_data s)"
  shows "nodes_ok (f_data (snd (applyCreateDataNodeCommand env http tcp s)))"
proof (cases "\<exists>n. d_MetaNodes (f_data s) = [n] \<and> d_DataNodes (f_data s) = []")
  case True
  then obtain n where n: "d_MetaNodes (f_data s) = [n]" "d_DataNodes (f_data s) = []" by auto
  then have "tcp = n_TCPHost n" using assms(4) by (simp add: joins_ok_def)
  then show ?thesis using with_clone_nodes [where op = "setDataNode (n_ID n) http (n_TCPHost n)", OF assms(2) nodes_ok_first_data_node [OF assms(2) n]] n by (simp add: applyCreateDataNodeCommand_def)
next
  case False
  then have "applyCreateDataNodeCommand env http tcp s = (None, s\<lparr>f_data := snd (CreateDataNode (e_lib env) http tcp (f_data s))\<rparr>)"
    by (auto simp: applyCreateDataNodeCommand_def split: list.splits)
  then show ?thesis using nodes_ok_CreateDataNode [OF assms(1-3)] by simp
qed

lemma nodes_ok_applyCreateDatabase:
  "nodes_ok (f_data s) \<Longrightarrow> nodes_ok (f_data (snd (applyCreateDatabaseCommand env name rp s)))"
  unfolding applyCreateDatabaseCommand_def store_ops
  by (rule with_clone_same) (auto simp: same_nodes_def on_data_def split: prod.splits option.splits sum.splits)

lemma nodes_ok_applyUpdateShard:
  assumes "nodes_ok (f_data s)"
  shows "nodes_ok (f_data (snd (applyUpdateShardCommand i os st s)))"
proof -
  have "nodes_ok (UpdateShard i os (f_data s))" using same_nodes_ok [OF UpdateShard_same assms] .
  then show ?thesis using assms
    by (simp add: applyUpdateShardCommand_def Let_def split: option.splits)
qed

lemma nodes_ok_apply_command:
  assumes "lib_ok (e_lib env)" "nodes_ok (f_data s)" "d_MaxNodeID (f_data s) \<noteq> - 1" "joins_ok cmd (f_data s)"
  shows "nodes_ok (f_data (snd (apply_command env cmd s)))"
proof (cases cmd)
  case (CreateMetaNodeCommand http tcp rand)
  then show ?thesis using nodes_ok_CreateMetaNode [OF assms(1-3)] assms(4) by (simp add: apply_command_def handler_defs joins_ok_def)
next
  case (SetMetaNodeCommand http tcp rand)
  then show ?thesis using nodes_ok_SetMetaNode [OF assms(1-3)] assms(4) by (simp add: apply_command_def handler_defs)
next
  case (CreateDataNodeCommand http tcp)
  then show ?thesis using nodes_ok_applyCreateDataNode [OF assms(1-3)] assms(4) by (simp add: apply_command_def)
next
  case (DeleteMetaNodeCommand i)
  then show ?thesis using with_clone_nodes [where op = "DeleteMetaNode i", OF assms(2) nodes_ok_DeleteMetaNode [OF assms(2)]] assms(2)
    by (simp add: apply_command_def handler_defs split: option.splits)
next
  case (DeleteDataNodeCommand i)
  then show ?thesis using with_clone_nodes [where op = "DeleteDataNode (e_iter env) (e_now env) i", OF assms(2) nodes_ok_DeleteDataNode [OF assms(2)]] by (simp add: apply_command_def handler_defs)
next
  case (CreateDatabaseCommand name rp)
  then show ?thesis using nodes_ok_applyCreateDatabase [OF assms(2)] by (simp add: apply_command_def)
next
  case (UpdateShardCommand i os st)
  then show ?thesis using nodes_ok_applyUpdateShard [OF assms(2)] by (simp add: apply_command_def)
qed (use assms(2,4) in \<open>simp_all add: apply_command_def handler_defs store_ops joins_ok_def with_clone_same split: option.splits\<close>)

lemma Apply_state: "Apply env t i cmd s = (r, s') \<Longrightarrow> s' = s \<or> s' = stamp t i (snd (apply_command env cmd s))"
  by (simp add: Apply_def split: prod.splits option.splits meta_error.splits)

text \<open>C7: node IDs stay sound over the life of a cluster, through commands, failures and restarts from snapshots: data nodes have
  distinct IDs and addresses, so have meta nodes, and a data node and a meta node share their ID exactly if they share their
  address. The commands are restricted as in \<open>joins_ok\<close>: a meta node is created on an address that no meta node has; a meta
  node is set without breaking the correspondence with the data nodes; the first data node of a cluster with one meta node
  is on the address of that meta node; the legacy command \<^verbatim>\<open>CreateNode\<close> and the command \<^verbatim>\<open>SetData\<close> are not used; and the counter
  of node IDs is not exhausted.\<close>

theorem reachable_nodes_ok:
  assumes "reachable lib s" "lib_ok lib"
  shows "nodes_ok (f_data s)"
  using assms(1)
proof induction
  case (start auto)
  then show ?case by (simp add: newStore_def nodes_ok_def)
next
  case (applies s env cmd t i r s')
  then have "nodes_ok (f_data (snd (apply_command env cmd s)))"
    by (intro nodes_ok_apply_command) (simp_all add: assms(2))
  then show ?case using Apply_state [OF applies.hyps(5)] applies.IH by auto
qed simp

text \<open>C36: without the condition on the first data node IDs clash. In a cluster whose only meta node has address \<open>a\<close>, the first data node, on another address
  \<open>b\<close>, takes over the ID of the meta node; a data node that then joins on \<open>a\<close> gets the same ID again.\<close>

theorem first_data_node_clash:
  assumes "lib_ok (e_lib env)" "a \<noteq> b"
    and "s1 = snd (Apply env 1 2 (CreateMetaNodeCommand h a r) (newStore auto))"
    and "s2 = snd (Apply env 1 3 (CreateDataNodeCommand h' b) s1)"
    and "s3 = snd (Apply env 1 4 (CreateDataNodeCommand h a) s2)"
  shows "map n_ID (d_DataNodes (f_data s3)) = [1, 1] \<and> set (map n_TCPHost (d_DataNodes (f_data s3))) = {a, b}"
proof -
  have mset: "mset (lib_sortNodes (e_lib env) ns) = mset ns" for ns using assms(1) by (simp add: lib_ok_def)
  then have one: "lib_sortNodes (e_lib env) [n] = [n]" for n by (metis mset_single_iff_right mset.simps(1) mset.simps(2))
  let ?m = "\<lparr>n_ID = 1, n_Host = h, n_TCPHost = a\<rparr>" and ?d = "\<lparr>n_ID = 1, n_Host = h', n_TCPHost = b\<rparr>"
  have s1: "d_MetaNodes (f_data s1) = [?m] \<and> d_DataNodes (f_data s1) = []"
    unfolding assms(3)
    by (simp add: Apply_def apply_command_def applyCreateMetaNodeCommand_def stamp_def newStore_def CreateMetaNode_def existing_id_def set_cluster_id_def one)
  then have s2: "d_MetaNodes (f_data s2) = [?m] \<and> d_DataNodes (f_data s2) = [?d]"
    unfolding assms(4) by (simp add: Apply_def apply_command_def applyCreateDataNodeCommand_def with_clone_def setDataNode_def stamp_def)
  then have "d_DataNodes (f_data s3) = lib_sortNodes (e_lib env) [?d, ?m]"
    unfolding assms(5) using assms(2)
    by (simp add: Apply_def apply_command_def applyCreateDataNodeCommand_def CreateDataNode_def existing_id_def stamp_def)
  then have m: "mset (d_DataNodes (f_data s3)) = mset [?d, ?m]" using mset by simp
  have set: "set (d_DataNodes (f_data s3)) = {?d, ?m}" using mset_eq_setD [OF m] by simp
  have "length (d_DataNodes (f_data s3)) = 2" by (metis m size_mset length_Cons list.size(3) numeral_2_eq_2)
  moreover have "\<forall>n \<in> set (d_DataNodes (f_data s3)). n_ID n = 1" using set by simp
  ultimately have "map n_ID (d_DataNodes (f_data s3)) = [1, 1]"
    by (auto simp: numeral_2_eq_2 length_Suc_conv)
  then show ?thesis using set by auto
qed

subsection \<open>Witnesses\<close>

definition plain_env :: env where
  "plain_env = \<lparr>e_lib = plain_lib, e_time = plain_time, e_peers = Inr [], e_removePeer = (\<lambda>_. None), e_ErrNotLeader = ErrOther ''not leader'',
     e_now = 500, e_iter = rev\<rparr>"

theorem first_data_node_clash_witness:
  "map n_ID (d_DataNodes (f_data (snd (Apply plain_env 1 4 (CreateDataNodeCommand ''h1'' ''a'')
     (snd (Apply plain_env 1 3 (CreateDataNodeCommand ''h2'' ''b'') (snd (Apply plain_env 1 2 (CreateMetaNodeCommand ''h1'' ''a'' 5) (newStore True))))))))) = [1, 1]"
  by (rule first_data_node_clash [where a = "''a''" and b = "''b''", OF _ _ refl refl refl, THEN conjunct1]) (simp_all add: plain_env_def plain_lib_ok)

theorem reachable_nodes_ok_witness:
  "nodes_ok (f_data (snd (Apply plain_env 1 3 (CreateDataNodeCommand ''h1'' ''a'') (snd (Apply plain_env 1 2 (CreateMetaNodeCommand ''h1'' ''a'' 5) (newStore True))))))"
proof -
  let ?s1 = "snd (Apply plain_env 1 2 (CreateMetaNodeCommand ''h1'' ''a'' 5) (newStore True))"
  have s1: "d_MetaNodes (f_data ?s1) = [\<lparr>n_ID = 1, n_Host = ''h1'', n_TCPHost = ''a''\<rparr>] \<and> d_DataNodes (f_data ?s1) = [] \<and> d_MaxNodeID (f_data ?s1) = 1"
    by (simp add: plain_env_def plain_lib_def Apply_def apply_command_def applyCreateMetaNodeCommand_def stamp_def newStore_def CreateMetaNode_def
        existing_id_def set_cluster_id_def)
  have "reachable plain_lib ?s1"
    by (rule reachable.applies [OF reachable.start [of _ True], where env = plain_env and cmd = "CreateMetaNodeCommand ''h1'' ''a'' 5" and tm = 1 and ix = 2,
          OF _ _ _ prod.collapse [symmetric]])
      (simp_all add: plain_env_def joins_ok_def newStore_def Apply_def apply_command_def applyCreateMetaNodeCommand_def)
  then have "reachable plain_lib (snd (Apply plain_env 1 3 (CreateDataNodeCommand ''h1'' ''a'') ?s1))"
    by (rule reachable.applies [where env = plain_env, OF _ _ _ _ prod.collapse [symmetric]])
      (use s1 in \<open>simp_all add: plain_env_def joins_ok_def Apply_def apply_command_def applyCreateDataNodeCommand_def with_clone_def setDataNode_def\<close>)
  then show ?thesis by (rule reachable_nodes_ok [OF _ plain_lib_ok])
qed


text \<open>A message library that knows one message, and a sink that collects bytes.\<close>

definition one_message :: "pbData \<Rightarrow> proto_lib" where
  "one_message pb = \<lparr>proto_Marshal = (\<lambda>x. if x = pb then Inr [1] else Inl (ErrOther ''unknown'')),
     proto_Unmarshal = (\<lambda>b. if b = [1] then Inr pb else Inl (ErrOther ''unknown''))\<rparr>"

definition memory_sink :: "bytes snapshotSink" where
  "memory_sink = \<lparr>sink_Write = (\<lambda>p k. (None, k @ p)), sink_Close = Pair None, sink_Cancel = (\<lambda>_. [])\<rparr>"

text \<open>A store with one replica, which becomes writable only after the snapshot was taken.\<close>

definition replica_store :: "int \<Rightarrow> fsm" where
  "replica_store st = (newStore True)\<lparr>f_data := (f_data (newStore True))\<lparr>d_ShardStatus := [1 \<mapsto> [2 \<mapsto> st]]\<rparr>\<rparr>"

theorem snapshot_restore_witness:
  "\<exists>sn k. applies_meanwhile [(plain_env, 4, 7, UpdateShardCommand 1 [] (Some (2, ShardWrite)))] (replica_store ShardWriteRead, Snapshot True (replica_store ShardWriteRead)) =
      (stamp 4 7 (replica_store ShardWrite), sn) \<and>
    Restore (one_message (marshal plain_time [1] (\<lambda>_. [2]) (sn_data sn))) plain_time (Inr k) (newStore False) = (None, (newStore False)\<lparr>f_data := persisted (sn_data sn)\<rparr>) \<and>
    d_ShardStatus (persisted (sn_data sn)) = [1 \<mapsto> [2 \<mapsto> ShardWrite]] \<and> md_Index (d_Data (sn_data sn)) = 1"
proof -
  let ?c = "[(plain_env, 4, 7, UpdateShardCommand 1 [] (Some (2, ShardWrite)))]" and ?s = "replica_store ShardWriteRead"
  define sn where "sn = \<lparr>sn_data = f_data (replica_store ShardWrite), sn_live = False, sn_shared = True\<rparr>"
  have run: "applies_meanwhile ?c (?s, Snapshot True ?s) = (stamp 4 7 (replica_store ShardWrite), sn)"
    by (simp add: sn_def observe_def Snapshot_def replaces_def set_data_def Apply_def apply_command_def applyUpdateShardCommand_def replica_store_def stamp_def newStore_def)
  have st: "d_ShardStatus (sn_data sn) = [1 \<mapsto> [2 \<mapsto> ShardWrite]]" by (simp add: sn_def replica_store_def)
  let ?pl = "one_message (marshal plain_time [1] (\<lambda>_. [2]) (sn_data sn))"
  have "Persist ?pl plain_time [1] (\<lambda>_. [2]) memory_sink sn [] = (None, [1])"
    by (simp add: Persist_def MarshalBinary_def one_message_def memory_sink_def)
  moreover have "data_fits (f_data ?s)" by (simp add: data_fits_def replica_store_def newStore_def)
  moreover have "iteration_ok (d_ShardStatus (sn_data sn)) [1] (\<lambda>_. [2])" unfolding st by (simp add: iteration_ok_def)
  moreover have "sink_ok (\<lambda>k. k) memory_sink" "proto_ok ?pl" by (simp_all add: sink_ok_def memory_sink_def proto_ok_def one_message_def)
  ultimately have "Restore ?pl plain_time (Inr [1]) (newStore False) = (None, (newStore False)\<lparr>f_data := persisted (sn_data sn)\<rparr>)"
    using snapshot_restore [OF plain_time_ok _ _ run, where content = "\<lambda>k. k" and ?s0.0 = "newStore False"] by blast
  moreover have "d_ShardStatus (persisted (sn_data sn)) = [1 \<mapsto> [2 \<mapsto> ShardWrite]]" using st by (auto simp: persisted_def)
  ultimately show ?thesis using run by (intro exI [of _ sn] exI [of _ "[1]"]) (simp add: sn_def replica_store_def newStore_def)
qed

end
