(* ===== verification/Meta_Store.thy ===== *)
theory Meta_Store
  imports Meta_Fsm
begin

text \<open>
  The store around the state machine, \<^verbatim>\<open>services/meta/store.go\<close>: what it answers about nodes, joining a meta node, and the
  rebalancing of shards that have fewer than two owners. Raft (\<open>raft\<close>), address resolution and the restore of a shard over
  the network are arguments.
\<close>

record store =
  st_fsm :: fsm
  st_httpAddr :: string
  st_raftAddr :: string

text \<open>\<open>rf_apply\<close> is what the raft library does with a proposed command: it commits it under a term and an index, or it gives up with
  an error (no leader, leadership lost, timeout). The state is \<open>None\<close> before the raft library is opened.\<close>

record raft =
  rf_leader :: string
  rf_isLeader :: bool
  rf_peers :: "meta_error + string list"
  rf_addPeer :: "string \<Rightarrow> meta_error option"
  rf_apply :: "fsm \<Rightarrow> command \<Rightarrow> string + u64 \<times> u64"

subsection \<open>Queries\<close>

definition store_peers :: "raft option \<Rightarrow> store \<Rightarrow> string list" where
  "store_peers rf s = (case rf of None \<Rightarrow> [st_raftAddr s] | Some r \<Rightarrow>
     (case rf_peers r of Inl e \<Rightarrow> [st_raftAddr s] | Inr ps \<Rightarrow> if ps = [] then [st_raftAddr s] else ps))"

definition isLeader :: "raft option \<Rightarrow> bool" where
  "isLeader rf = (case rf of None \<Rightarrow> False | Some r \<Rightarrow> rf_isLeader r)"

definition leader :: "raft option \<Rightarrow> string" where
  "leader rf = (case rf of None \<Rightarrow> [] | Some r \<Rightarrow> rf_leader r)"

definition leaderHTTP :: "raft option \<Rightarrow> store \<Rightarrow> string" where
  "leaderHTTP rf s = (case rf of None \<Rightarrow> [] | Some r \<Rightarrow>
     (case find (\<lambda>n. n_TCPHost n = rf_leader r) (d_MetaNodes (f_data (st_fsm s))) of None \<Rightarrow> [] | Some n \<Rightarrow> n_Host n))"

definition otherMetaServersHTTP :: "store \<Rightarrow> string list" where
  "otherMetaServersHTTP s = map n_Host (filter (\<lambda>n. n_TCPHost n \<noteq> st_raftAddr s) (d_MetaNodes (f_data (st_fsm s))))"

definition store_index :: "store \<Rightarrow> u64" where
  "store_index s = md_Index (d_Data (f_data (st_fsm s)))"

text \<open>Whether the channel for updates after an index is closed already.\<close>

definition afterIndex :: "u64 \<Rightarrow> store \<Rightarrow> bool" where
  "afterIndex index s \<longleftrightarrow> index < store_index s"

text \<open>\<open>split\<close> splits an address into host and port, \<open>resolve\<close> looks up a host.\<close>

fun filter_peers :: "(string \<Rightarrow> meta_error + string \<times> string) \<Rightarrow> (string \<Rightarrow> meta_error + string) \<Rightarrow> string \<Rightarrow> string \<Rightarrow> string list \<Rightarrow> meta_error + string list" where
  "filter_peers split resolve ip port [] = Inr []"
| "filter_peers split resolve ip port (addr # addrs) = (case split addr of Inl e \<Rightarrow> Inl e | Inr (joinHost, joinPort) \<Rightarrow>
     (case resolve joinHost of Inl e \<Rightarrow> Inl e | Inr joinIp \<Rightarrow>
        (case filter_peers split resolve ip port addrs of Inl e \<Rightarrow> Inl e
         | Inr rest \<Rightarrow> Inr (if ip = joinIp \<and> port = joinPort then rest else addr # rest))))"

definition filterAddr :: "(string \<Rightarrow> meta_error + string \<times> string) \<Rightarrow> (string \<Rightarrow> meta_error + string) \<Rightarrow> string list \<Rightarrow> string \<Rightarrow> meta_error + string list" where
  "filterAddr split resolve addrs flt = (case split flt of Inl e \<Rightarrow> Inl e | Inr (host, port) \<Rightarrow>
     (case resolve host of Inl e \<Rightarrow> Inl e | Inr ip \<Rightarrow> filter_peers split resolve ip port addrs))"

subsection \<open>Joining\<close>

definition store_apply :: "env \<Rightarrow> raft option \<Rightarrow> command \<Rightarrow> store \<Rightarrow> meta_error option \<times> store" where
  "store_apply env rf cmd s = (case rf of None \<Rightarrow> (Some (ErrOther ''store not open''), s) | Some r \<Rightarrow>
     (case rf_apply r (st_fsm s) cmd of Inl e \<Rightarrow> (Some (ErrOther e), s) | Inr (t, i) \<Rightarrow>
        (case Apply env t i cmd (st_fsm s) of (e, fsm) \<Rightarrow> (e, s\<lparr>st_fsm := fsm\<rparr>))))"

definition createMetaNode :: "env \<Rightarrow> raft option \<Rightarrow> u64 \<Rightarrow> string \<Rightarrow> string \<Rightarrow> store \<Rightarrow> meta_error option \<times> store" where
  "createMetaNode env rf rand addr raftAddr = store_apply env rf (CreateMetaNodeCommand addr raftAddr rand)"

definition setMetaNode :: "env \<Rightarrow> raft option \<Rightarrow> u64 \<Rightarrow> string \<Rightarrow> string \<Rightarrow> store \<Rightarrow> meta_error option \<times> store" where
  "setMetaNode env rf rand addr raftAddr = store_apply env rf (SetMetaNodeCommand addr raftAddr rand)"

definition join :: "env \<Rightarrow> raft option \<Rightarrow> u64 \<Rightarrow> nodeInfo \<Rightarrow> store \<Rightarrow> (meta_error + nodeInfo) \<times> store" where
  "join env rf rand n s = (case rf of None \<Rightarrow> (Inl (ErrOther ''store not open''), s) | Some r \<Rightarrow>
     (case rf_addPeer r (n_TCPHost n) of Some e \<Rightarrow> (Inl e, s) | None \<Rightarrow>
        (case createMetaNode env rf rand (n_Host n) (n_TCPHost n) s of
           (Some e, s') \<Rightarrow> (Inl e, s')
         | (None, s') \<Rightarrow> (case find (\<lambda>m. n_TCPHost m = n_TCPHost n \<and> n_Host m = n_Host n) (d_MetaNodes (f_data (st_fsm s'))) of
             Some m \<Rightarrow> (Inr m, s') | None \<Rightarrow> (Inl ErrNodeNotFound, s')))))"

subsection \<open>Planning\<close>

record shardRestoreTask =
  t_Database :: string
  t_RetentionPolicy :: string
  t_ShardID :: u64
  t_CurrentOwners :: "u64 list"
  t_NewOwners :: "u64 list"
  t_NewOwnerAddress :: "u64 \<rightharpoonup> string"

definition defaultReplicaN :: nat where "defaultReplicaN = 2"

text \<open>The loop that chooses new owners; the candidate does not change inside the loop, the counter does.\<close>

fun choose_owners :: "nat \<Rightarrow> nat \<Rightarrow> u64 \<Rightarrow> u64 list \<Rightarrow> u64 list \<Rightarrow> nat \<Rightarrow> u64 list \<times> nat" where
  "choose_owners maxChooseCount 0 nodeID owners newOwners nodeIndex = (newOwners, nodeIndex)"
| "choose_owners 0 (Suc need) nodeID owners newOwners nodeIndex = (newOwners, Suc nodeIndex)"
| "choose_owners (Suc m) (Suc need) nodeID owners newOwners nodeIndex =
     (if nodeID \<in> set owners then choose_owners m (Suc need) nodeID owners newOwners (Suc nodeIndex)
      else choose_owners m need nodeID owners (newOwners @ [nodeID]) (Suc nodeIndex))"

text \<open>The addresses of chosen nodes; \<open>admin\<close> is the admin address that belongs to a TCP address.\<close>

definition owner_addresses :: "(string \<Rightarrow> string) \<Rightarrow> nodeInfo list \<Rightarrow> u64 list \<Rightarrow> (u64 \<rightharpoonup> string)" where
  "owner_addresses admin nodes newOwners = fold (\<lambda>i m. fold (\<lambda>n m. if n_ID n = i then m(i \<mapsto> admin (n_TCPHost n)) else m) nodes m) newOwners Map.empty"

definition shard_list :: "data \<Rightarrow> (string \<times> string \<times> shardInfo) list" where
  "shard_list d = concat (map (\<lambda>db. concat (map (\<lambda>rp. concat (map (\<lambda>g. map (\<lambda>s. (db_Name db, rp_Name rp, s)) (g_Shards g))
     (rp_ShardGroups rp))) (db_RetentionPolicies db))) (md_Databases (d_Data d)))"

fun plan :: "(string \<Rightarrow> string) \<Rightarrow> nodeInfo list \<Rightarrow> nat \<Rightarrow> (string \<times> string \<times> shardInfo) list \<Rightarrow> shardRestoreTask list" where
  "plan admin nodes nodeIndex [] = []"
| "plan admin nodes nodeIndex ((db, rp, si) # rest) =
     (if length (s_Owners si) < defaultReplicaN
      then let nodeID = n_ID (nodes ! (nodeIndex mod length nodes)) in
           case choose_owners 5 (defaultReplicaN - length (s_Owners si)) nodeID (s_Owners si) [] nodeIndex of (newOwners, nodeIndex') \<Rightarrow>
             \<lparr>t_Database = db, t_RetentionPolicy = rp, t_ShardID = s_ID si, t_CurrentOwners = s_Owners si, t_NewOwners = newOwners,
              t_NewOwnerAddress = owner_addresses admin nodes newOwners\<rparr> # plan admin nodes nodeIndex' rest
      else plan admin nodes nodeIndex rest)"

definition needRebalance :: "(string \<Rightarrow> string) \<Rightarrow> raft option \<Rightarrow> store \<Rightarrow> bool \<times> shardRestoreTask list" where
  "needRebalance admin rf s =
     (let d = f_data (st_fsm s); n = length (d_DataNodes d) in
      if \<not> isLeader rf then (False, [])
      else if n = 0 then (False, [])
      else let tasks = plan admin (d_DataNodes d) (unat (md_Index (d_Data d)) mod n) (shard_list d) in
           if tasks \<noteq> [] then (True, tasks) else (False, []))"

subsection \<open>Executing\<close>

text \<open>\<open>restore\<close> tells whether the data of a shard arrived at a new owner: the call over the network returned and reported success.
  The code drops every error of \<open>store_apply\<close> and goes on; a panic of the state machine ends the process. The functions of this
  subsection run a whole round without interruption; rounds that overlap follow below.\<close>

definition restoreShard :: "env \<Rightarrow> raft option \<Rightarrow> (shardRestoreTask \<Rightarrow> u64 \<Rightarrow> bool) \<Rightarrow> shardRestoreTask \<Rightarrow> u64 \<Rightarrow> store \<Rightarrow> meta_error option \<times> store" where
  "restoreShard env rf restore task newOwner s =
     (if restore task newOwner then store_apply env rf (UpdateShardCommand (t_ShardID task) [] (Some (newOwner, ShardWriteRead))) s else (None, s))"

fun restore_all :: "env \<Rightarrow> raft option \<Rightarrow> (shardRestoreTask \<Rightarrow> u64 \<Rightarrow> bool) \<Rightarrow> shardRestoreTask \<Rightarrow> u64 list \<Rightarrow> store \<Rightarrow> meta_error option \<times> store" where
  "restore_all env rf restore task [] s = (None, s)"
| "restore_all env rf restore task (x # xs) s = (case restoreShard env rf restore task x s of
      (Some MetaPanic, s') \<Rightarrow> (Some MetaPanic, s')
    | (_, s') \<Rightarrow> restore_all env rf restore task xs s')"

fun doRebalance :: "env \<Rightarrow> raft option \<Rightarrow> (shardRestoreTask \<Rightarrow> u64 \<Rightarrow> bool) \<Rightarrow> shardRestoreTask list \<Rightarrow> store \<Rightarrow> meta_error option \<times> store" where
  "doRebalance env rf restore [] s = (None, s)"
| "doRebalance env rf restore (task # tasks) s =
     (if t_CurrentOwners task = [] then doRebalance env rf restore tasks s
      else case store_apply env rf (UpdateShardCommand (t_ShardID task) (t_NewOwners task) None) s of
        (Some MetaPanic, s1) \<Rightarrow> (Some MetaPanic, s1)
      | (_, s1) \<Rightarrow> (case restore_all env rf restore task (t_NewOwners task) s1 of
          (Some e, s2) \<Rightarrow> (Some e, s2)
        | (None, s2) \<Rightarrow> doRebalance env rf restore tasks s2))"

subsection \<open>Loops over all shards\<close>

definition all_shards :: "data \<Rightarrow> shardInfo list" where
  "all_shards d = concat (map g_Shards (all_groups d))"

lemma concat_map_concat: "concat (map f (concat xss)) = concat (map (\<lambda>xs. concat (map f xs)) xss)"
  by (induction xss) simp_all

lemma shards_of_shard_list: "map (\<lambda>(_, _, s). s) (shard_list d) = all_shards d"
  by (simp add: shard_list_def all_shards_def all_groups_def concat_map_concat comp_def) (simp add: map_concat comp_def)

lemma map_state_pure: "(\<And>st x. f st x = (None, h x st, k x)) \<Longrightarrow> map_state f st xs = (None, fold h xs st, map k xs)"
  by (induction xs arbitrary: st) simp_all

lemma fold_concat_map: "fold h (concat (map f xs)) = fold (\<lambda>x. fold h (f x)) xs"
  by (induction xs) simp_all

lemma on_all_groups_pure:
  assumes "\<And>st g. f st g = (None, h g st, k g)"
  shows "\<exists>d'. on_all_groups f d = (None, d') \<and> all_groups d' = map k (all_groups d) \<and> d_ShardStatus d' = fold h (all_groups d) (d_ShardStatus d) \<and>
    same_nodes d d'"
proof -
  have g: "on_groups f st rp = (None, fold h (rp_ShardGroups rp) st, rp\<lparr>rp_ShardGroups := map k (rp_ShardGroups rp)\<rparr>)" for st rp
    by (simp add: on_groups_def map_state_pure [of f h k, OF assms])
  have p: "on_rps (on_groups f) st db = (None, fold (\<lambda>rp. fold h (rp_ShardGroups rp)) (db_RetentionPolicies db) st,
      db\<lparr>db_RetentionPolicies := map (\<lambda>rp. rp\<lparr>rp_ShardGroups := map k (rp_ShardGroups rp)\<rparr>) (db_RetentionPolicies db)\<rparr>)" for st db
    by (simp add: on_rps_def map_state_pure [of "on_groups f", OF g])
  show ?thesis
    by (simp add: on_all_groups_def map_state_pure [of "on_rps (on_groups f)", OF p] all_groups_def fold_concat_map map_concat comp_def same_nodes_def)
qed

text \<open>Adding owners to a shard, and the status that they get.\<close>

definition grow :: "u64 \<Rightarrow> u64 list \<Rightarrow> shardInfo \<Rightarrow> shardInfo" where
  "grow i os s = (if s_ID s = i then s\<lparr>s_Owners := s_Owners s @ os\<rparr> else s)"

definition grant :: "u64 \<Rightarrow> u64 list \<Rightarrow> status \<Rightarrow> status" where
  "grant i os st = (case st i of None \<Rightarrow> st | Some m \<Rightarrow> st(i \<mapsto> fold (\<lambda>x m. m(x \<mapsto> ShardWrite)) os m))"

lemma s_ID_grow [simp]: "s_ID (grow i os s) = s_ID s"
  by (simp add: grow_def)

lemma add_owners_pure: "add_owners i os st s = (None, (if s_ID s = i then grant i os else (\<lambda>st. st)) st, grow i os s)"
proof -
  have "fold (\<lambda>x st. case st i of None \<Rightarrow> st | Some m \<Rightarrow> st(i \<mapsto> m(x \<mapsto> ShardWrite))) os st = grant i os st"
    by (induction os arbitrary: st) (auto simp: grant_def split: option.splits)
  then show ?thesis by (simp add: add_owners_def grow_def)
qed

lemma grant_twice: "grant i os (grant i os st) = grant i os st"
proof -
  have "fold (\<lambda>x m. m(x \<mapsto> c)) os m = (\<lambda>y. if y \<in> set os then Some c else m y)" for m :: "u64 \<rightharpoonup> shardStatus" and c
    by (induction os arbitrary: m) (auto simp: fun_eq_iff)
  then show ?thesis by (auto simp: grant_def fun_eq_iff split: option.splits)
qed

lemma UpdateShard_pure:
  "all_shards (UpdateShard i os d) = map (grow i os) (all_shards d)"
  "d_ShardStatus (UpdateShard i os d) = (if i \<in> s_ID ` set (all_shards d) then grant i os (d_ShardStatus d) else d_ShardStatus d)"
proof -
  define h where "h = (\<lambda>s :: shardInfo. if s_ID s = i then grant i os else (\<lambda>st. st))"
  define f where "f = (\<lambda>st (g :: shardGroupInfo). case map_state (add_owners i os) st (g_Shards g) of (r, st', ss) \<Rightarrow> (r :: unit option, st', g\<lparr>g_Shards := ss\<rparr>))"
  have g: "f st g = (None, fold h (g_Shards g) st, g\<lparr>g_Shards := map (grow i os) (g_Shards g)\<rparr>)" for st g
    by (simp add: f_def map_state_pure [of "add_owners i os" h "grow i os"] add_owners_pure h_def)
  obtain d' where d': "UpdateShard i os d = d'" "all_groups d' = map (\<lambda>g. g\<lparr>g_Shards := map (grow i os) (g_Shards g)\<rparr>) (all_groups d)"
    "d_ShardStatus d' = fold (\<lambda>g. fold h (g_Shards g)) (all_groups d) (d_ShardStatus d)"
    using on_all_groups_pure [of f, OF g, of d] unfolding UpdateShard_def f_def [symmetric] by auto
  then show "all_shards (UpdateShard i os d) = map (grow i os) (all_shards d)" by (simp add: all_shards_def map_concat comp_def)
  have "fold h ss st = (if i \<in> s_ID ` set ss then grant i os st else st)" for ss st
    by (induction ss arbitrary: st) (auto simp: h_def grant_twice)
  then show "d_ShardStatus (UpdateShard i os d) = (if i \<in> s_ID ` set (all_shards d) then grant i os (d_ShardStatus d) else d_ShardStatus d)"
    using d'(1,3) by (simp add: all_shards_def fold_concat_map [symmetric] del: image_iff)
qed

subsection \<open>Lemmas: rebalancing\<close>

lemma choose_owners_result:
  "fst (choose_owners m need i owners new ix) = (if i \<in> set owners then new else new @ replicate (min m need) i)"
  by (induction m need i owners new ix rule: choose_owners.induct) (simp_all add: replicate_app_Cons_same)

text \<open>What a plan contains for a shard: at most one task, for a shard with too few owners.\<close>

lemma plan_tasks:
  "map t_ShardID (plan admin nodes ix xs) = map (\<lambda>(_, _, s). s_ID s) (filter (\<lambda>(_, _, s). length (s_Owners s) < 2) xs)"
  by (induction admin nodes ix xs rule: plan.induct) (auto simp: defaultReplicaN_def Let_def split: prod.splits)

lemma plan_task:
  assumes "t \<in> set (plan admin nodes ix xs)" "nodes \<noteq> []" "t_CurrentOwners t \<noteq> []"
  shows "\<exists>db rp s. (db, rp, s) \<in> set xs \<and> t_ShardID t = s_ID s \<and> t_CurrentOwners t = s_Owners s \<and> length (s_Owners s) = 1 \<and>
    (t_NewOwners t = [] \<or> (\<exists>i \<in> n_ID ` set nodes. i \<notin> set (s_Owners s) \<and> t_NewOwners t = [i]))"
  using assms
proof (induction xs arbitrary: ix)
  case (Cons x rest)
  obtain db rp si where x: "x = (db, rp, si)" by (metis surj_pair)
  let ?i = "n_ID (nodes ! (ix mod length nodes))"
  obtain new ix' where c: "choose_owners 5 (2 - length (s_Owners si)) ?i (s_Owners si) [] ix = (new, ix')" by (metis surj_pair)
  then have new: "new = (if ?i \<in> set (s_Owners si) then [] else replicate (min 5 (2 - length (s_Owners si))) ?i)"
    using choose_owners_result [of 5 "2 - length (s_Owners si)" ?i "s_Owners si" "[]" ix] by simp
  have i: "?i \<in> n_ID ` set nodes" using Cons.prems(2) by simp
  consider (rest) k where "t \<in> set (plan admin nodes k rest)" "k = (if length (s_Owners si) < 2 then ix' else ix)"
    | (here) "length (s_Owners si) < 2" "t_ShardID t = s_ID si" "t_CurrentOwners t = s_Owners si" "t_NewOwners t = new"
    using Cons.prems(1) c x by (auto simp: defaultReplicaN_def Let_def split: if_splits)
  then show ?case
  proof cases
    case rest
    then show ?thesis using Cons.IH [of k] Cons.prems(2,3) by (auto simp del: One_nat_def)
  next
    case here
    then have "length (s_Owners si) = 1" using Cons.prems(3) by (cases "s_Owners si") auto
    then show ?thesis using here new i x by (intro exI [of _ db] exI [of _ rp] exI [of _ si]) (auto simp: min_def)
  qed
qed simp

abbreviation st_data :: "store \<Rightarrow> data" where
  "st_data s \<equiv> f_data (st_fsm s)"

lemma stamp_frame [simp]:
  "all_shards (f_data (stamp t i s)) = all_shards (f_data s)" "d_ShardStatus (f_data (stamp t i s)) = d_ShardStatus (f_data s)"
  "d_DataNodes (f_data (stamp t i s)) = d_DataNodes (f_data s)"
  "all_shards (d\<lparr>d_ShardStatus := st\<rparr>) = all_shards d"
  by (simp_all add: stamp_def all_shards_def all_groups_def)

definition commits :: "raft \<Rightarrow> bool" where
  "commits r \<longleftrightarrow> (\<forall>f c. \<exists>e. rf_apply r f c = Inr e)"

lemma store_apply_cases:
  obtains (lost) "\<not> (\<exists>r. rf = Some r \<and> commits r)" "\<exists>e. e \<noteq> MetaPanic \<and> store_apply env rf cmd s = (Some e, s)"
  | (committed) t i where "store_apply env rf cmd s = (fst (Apply env t i cmd (st_fsm s)), s\<lparr>st_fsm := snd (Apply env t i cmd (st_fsm s))\<rparr>)"
proof (cases rf)
  case None
  then show thesis by (intro lost) (simp_all add: store_apply_def)
next
  case (Some r)
  show thesis
  proof (cases "rf_apply r (st_fsm s) cmd")
    case (Inl e)
    then have "\<not> commits r" unfolding commits_def by (metis sum.distinct(1))
    then show thesis using Some Inl by (intro lost) (simp_all add: store_apply_def)
  next
    case (Inr p)
    then show thesis using Some by (intro committed [of "fst p" "snd p"]) (simp add: store_apply_def split: prod.splits)
  qed
qed

text \<open>The two commands of a task, once they are in the log.\<close>

lemma Apply_new_owners:
  "\<exists>f'. Apply env t k (UpdateShardCommand i os None) f = (None, f') \<and> all_shards (f_data f') = map (grow i os) (all_shards (f_data f)) \<and>
     d_ShardStatus (f_data f') = (if i \<in> s_ID ` set (all_shards (f_data f)) then grant i os (d_ShardStatus (f_data f)) else d_ShardStatus (f_data f)) \<and>
     d_DataNodes (f_data f') = d_DataNodes (f_data f)"
proof -
  have "map (grow i []) ss = ss" for ss by (rule map_idI) (simp add: grow_def)
  moreover have "grant i [] st = st" for st by (auto simp: grant_def split: option.splits)
  moreover have "d_DataNodes (UpdateShard i os (f_data f)) = d_DataNodes (f_data f)" using UpdateShard_same by (simp add: same_nodes_def)
  ultimately show ?thesis
    by (auto simp: Apply_def apply_command_def applyUpdateShardCommand_def UpdateShard_pure)
qed

lemma Apply_new_status:
  assumes "d_ShardStatus (f_data f) i = Some m"
  shows "\<exists>f'. Apply env t k (UpdateShardCommand i [] (Some (x, st))) f = (None, f') \<and> all_shards (f_data f') = all_shards (f_data f) \<and>
    d_ShardStatus (f_data f') = (d_ShardStatus (f_data f))(i \<mapsto> m(x \<mapsto> st)) \<and> d_DataNodes (f_data f') = d_DataNodes (f_data f)"
  using assms by (auto simp: Apply_def apply_command_def applyUpdateShardCommand_def Let_def)

lemma apply_new_owners:
  assumes "commits r"
  shows "\<exists>s'. store_apply env (Some r) (UpdateShardCommand i os None) s = (None, s') \<and> all_shards (st_data s') = map (grow i os) (all_shards (st_data s)) \<and>
     d_ShardStatus (st_data s') = (if i \<in> s_ID ` set (all_shards (st_data s)) then grant i os (d_ShardStatus (st_data s)) else d_ShardStatus (st_data s)) \<and>
     d_DataNodes (st_data s') = d_DataNodes (st_data s)"
proof (cases rule: store_apply_cases [of "Some r" env "UpdateShardCommand i os None" s])
  case (committed t k)
  then show ?thesis using Apply_new_owners [of env t k i os "st_fsm s"] by (elim exE conjE) simp
qed (use assms in simp)

lemma apply_new_status:
  assumes "d_ShardStatus (st_data s) i = Some m" "commits r"
  shows "\<exists>s'. store_apply env (Some r) (UpdateShardCommand i [] (Some (x, st))) s = (None, s') \<and> all_shards (st_data s') = all_shards (st_data s) \<and>
    d_ShardStatus (st_data s') = (d_ShardStatus (st_data s))(i \<mapsto> m(x \<mapsto> st)) \<and> d_DataNodes (st_data s') = d_DataNodes (st_data s)"
proof (cases rule: store_apply_cases [of "Some r" env "UpdateShardCommand i [] (Some (x, st))" s])
  case (committed t k)
  then show ?thesis using Apply_new_status [OF assms(1), of env t k x st] by (elim exE conjE) simp
qed (use assms in simp)

definition granted :: "(shardRestoreTask \<Rightarrow> u64 \<Rightarrow> bool) \<Rightarrow> shardRestoreTask \<Rightarrow> status \<Rightarrow> status" where
  "granted restore t st = (case (t_CurrentOwners t, t_NewOwners t, st (t_ShardID t)) of
      (_ # _, [x], Some m) \<Rightarrow> st(t_ShardID t \<mapsto> m(x \<mapsto> (if restore t x then ShardWriteRead else ShardWrite)))
    | _ \<Rightarrow> st)"

definition small_task :: "shardRestoreTask \<Rightarrow> data \<Rightarrow> bool" where
  "small_task t d \<longleftrightarrow> t_CurrentOwners t \<noteq> [] \<longrightarrow> length (t_NewOwners t) \<le> 1 \<and> t_ShardID t \<in> s_ID ` set (all_shards d) \<and> d_ShardStatus d (t_ShardID t) \<noteq> None"

lemma doRebalance_task:
  assumes "small_task t (st_data s)" "t_CurrentOwners t \<noteq> []" "commits r"
  shows "\<exists>s'. doRebalance env (Some r) restore (t # ts) s = doRebalance env (Some r) restore ts s' \<and>
    all_shards (st_data s') = map (grow (t_ShardID t) (t_NewOwners t)) (all_shards (st_data s)) \<and>
    d_ShardStatus (st_data s') = granted restore t (d_ShardStatus (st_data s)) \<and> d_DataNodes (st_data s') = d_DataNodes (st_data s)"
proof -
  let ?i = "t_ShardID t" and ?new = "t_NewOwners t"
  obtain m where m: "d_ShardStatus (st_data s) ?i = Some m" and len: "length ?new \<le> 1" and i: "?i \<in> s_ID ` set (all_shards (st_data s))"
    using assms by (auto simp: small_task_def)
  obtain c cs where c: "t_CurrentOwners t = c # cs" using assms(2) by (cases "t_CurrentOwners t") auto
  obtain s1 where s1: "store_apply env (Some r) (UpdateShardCommand ?i ?new None) s = (None, s1)"
    "all_shards (st_data s1) = map (grow ?i ?new) (all_shards (st_data s))" "d_ShardStatus (st_data s1) = grant ?i ?new (d_ShardStatus (st_data s))"
    "d_DataNodes (st_data s1) = d_DataNodes (st_data s)"
    using apply_new_owners [OF assms(3), of env ?i ?new s] i by (elim exE conjE) simp
  show ?thesis
  proof (cases ?new)
    case Nil
    then show ?thesis using s1 c m by (intro exI [of _ s1]) (simp add: granted_def grant_def fun_upd_idem)
  next
    case (Cons x xs)
    then have new: "?new = [x]" using len by simp
    have st1: "d_ShardStatus (st_data s1) = (d_ShardStatus (st_data s))(?i \<mapsto> m(x \<mapsto> ShardWrite))" using s1(3) m new by (simp add: grant_def)
    then have "d_ShardStatus (st_data s1) ?i = Some (m(x \<mapsto> ShardWrite))" by simp
    from apply_new_status [OF this assms(3), of env x ShardWriteRead] obtain s2
      where s2: "store_apply env (Some r) (UpdateShardCommand ?i [] (Some (x, ShardWriteRead))) s1 = (None, s2)"
      "all_shards (st_data s2) = all_shards (st_data s1)" "d_ShardStatus (st_data s2) = (d_ShardStatus (st_data s))(?i \<mapsto> m(x \<mapsto> ShardWriteRead))"
      "d_DataNodes (st_data s2) = d_DataNodes (st_data s1)"
      using st1 by (elim exE conjE) simp
    show ?thesis
      using s1 s2 st1 new m c by (intro exI [of _ "if restore t x then s2 else s1"]) (simp add: granted_def restoreShard_def)
  qed
qed

definition new_owners :: "shardRestoreTask list \<Rightarrow> shardInfo \<Rightarrow> u64 list" where
  "new_owners ts s = concat (map t_NewOwners (filter (\<lambda>t. t_ShardID t = s_ID s \<and> t_CurrentOwners t \<noteq> []) ts))"

lemma granted_frame: "i \<noteq> t_ShardID t \<Longrightarrow> granted restore t st i = st i"
  by (auto simp: granted_def split: list.splits option.splits)

lemma granted_dom: "granted restore t st i = None \<longleftrightarrow> st i = None"
  by (auto simp: granted_def split: list.splits option.splits)

lemma doRebalance_tasks:
  assumes "\<forall>t \<in> set ts. small_task t (st_data s)" "commits r"
  shows "\<exists>s'. doRebalance env (Some r) restore ts s = (None, s') \<and>
    all_shards (st_data s') = map (\<lambda>x. x\<lparr>s_Owners := s_Owners x @ new_owners ts x\<rparr>) (all_shards (st_data s)) \<and>
    d_ShardStatus (st_data s') = fold (granted restore) ts (d_ShardStatus (st_data s)) \<and> d_DataNodes (st_data s') = d_DataNodes (st_data s)"
  using assms(1)
proof (induction ts arbitrary: s)
  case Nil
  then show ?case by (auto simp: new_owners_def intro!: map_idI [symmetric])
next
  case (Cons t ts)
  show ?case
  proof (cases "t_CurrentOwners t = []")
    case True
    then show ?thesis using Cons by (auto simp: new_owners_def granted_def)
  next
    case False
    let ?g = "grow (t_ShardID t) (t_NewOwners t)"
    obtain s1 where s1: "doRebalance env (Some r) restore (t # ts) s = doRebalance env (Some r) restore ts s1"
      "all_shards (st_data s1) = map ?g (all_shards (st_data s))" "d_ShardStatus (st_data s1) = granted restore t (d_ShardStatus (st_data s))"
      "d_DataNodes (st_data s1) = d_DataNodes (st_data s)"
      using doRebalance_task [of t s r env restore ts] assms(2) Cons.prems False by auto
    have "s_ID ` set (all_shards (st_data s1)) = s_ID ` set (all_shards (st_data s))" by (simp add: s1(2) image_image)
    then have "\<forall>t \<in> set ts. small_task t (st_data s1)" using Cons.prems by (simp add: small_task_def s1(3) granted_dom del: image_iff)
    from Cons.IH [OF this] obtain s2 where s2: "doRebalance env (Some r) restore ts s1 = (None, s2)"
      "all_shards (st_data s2) = map (\<lambda>x. x\<lparr>s_Owners := s_Owners x @ new_owners ts x\<rparr>) (map ?g (all_shards (st_data s)))"
      "d_ShardStatus (st_data s2) = fold (granted restore) ts (granted restore t (d_ShardStatus (st_data s)))"
      "d_DataNodes (st_data s2) = d_DataNodes (st_data s)" using s1 by auto
    have "(?g x)\<lparr>s_Owners := s_Owners (?g x) @ new_owners ts (?g x)\<rparr> = x\<lparr>s_Owners := s_Owners x @ new_owners (t # ts) x\<rparr>" for x
      using False by (simp add: grow_def new_owners_def)
    then show ?thesis using s1(1) s2 by simp
  qed
qed

lemma fold_granted_frame: "i \<notin> t_ShardID ` set ts \<Longrightarrow> fold (granted restore) ts st i = st i"
  by (induction ts arbitrary: st) (auto simp: granted_frame)

lemma granted_local: "st i = st' i \<Longrightarrow> i = t_ShardID t \<Longrightarrow> granted restore t st i = granted restore t st' i"
  by (auto simp: granted_def split: list.splits option.splits)

lemma fold_granted:
  "distinct (map t_ShardID ts) \<Longrightarrow> t \<in> set ts \<Longrightarrow> fold (granted restore) ts st (t_ShardID t) = granted restore t st (t_ShardID t)"
proof (induction ts arbitrary: st)
  case (Cons u ts)
  show ?case
  proof (cases "u = t")
    case True
    then show ?thesis using Cons.prems(1) fold_granted_frame [of "t_ShardID t" ts restore "granted restore t st"] by simp
  next
    case False
    then have t: "t \<in> set ts" "t_ShardID u \<noteq> t_ShardID t" using Cons.prems by auto
    then show ?thesis using Cons granted_local [of "granted restore u st" "t_ShardID t" st t restore] by (simp add: granted_frame)
  qed
qed simp

lemma distinct_key: "distinct (map f xs) \<Longrightarrow> x \<in> set xs \<Longrightarrow> y \<in> set xs \<Longrightarrow> f x = f y \<Longrightarrow> x = y"
  by (auto simp: distinct_map dest: inj_onD)

lemma distinct_singleton: "\<forall>u \<in> set xs. u = t \<Longrightarrow> distinct xs \<Longrightarrow> t \<in> set xs \<Longrightarrow> xs = [t]"
  by (cases xs; cases "List.tl xs") auto

lemma plan_for_data:
  assumes "ts = plan admin nodes ix (shard_list d)" "distinct (map s_ID (all_shards d))"
  shows "distinct (map t_ShardID ts)"
    and "nodes \<noteq> [] \<Longrightarrow> t \<in> set ts \<Longrightarrow> t_CurrentOwners t \<noteq> [] \<Longrightarrow> \<exists>x \<in> set (all_shards d). t_ShardID t = s_ID x \<and> length (s_Owners x) = 1 \<and>
      (t_NewOwners t = [] \<or> (\<exists>i \<in> n_ID ` set nodes. i \<notin> set (s_Owners x) \<and> t_NewOwners t = [i]))"
proof -
  have "distinct (map (\<lambda>(_, _, s). s_ID s) (shard_list d))"
    using assms(2) unfolding shards_of_shard_list [symmetric] by (simp add: comp_def case_prod_unfold)
  then show "distinct (map t_ShardID ts)" unfolding assms(1) plan_tasks by (rule distinct_map_filter)
next
  assume "nodes \<noteq> []" "t \<in> set ts" "t_CurrentOwners t \<noteq> []"
  from plan_task [OF this(2) [unfolded assms(1)] this(1,3)] obtain db rp x where x: "(db, rp, x) \<in> set (shard_list d)" "t_ShardID t = s_ID x"
    "length (s_Owners x) = 1" "t_NewOwners t = [] \<or> (\<exists>i \<in> n_ID ` set nodes. i \<notin> set (s_Owners x) \<and> t_NewOwners t = [i])" by blast
  have "x \<in> set (all_shards d)" unfolding shards_of_shard_list [symmetric] using x(1) by force
  then show "\<exists>x \<in> set (all_shards d). t_ShardID t = s_ID x \<and> length (s_Owners x) = 1 \<and>
      (t_NewOwners t = [] \<or> (\<exists>i \<in> n_ID ` set nodes. i \<notin> set (s_Owners x) \<and> t_NewOwners t = [i]))" using x by blast
qed

lemma new_owners_cases:
  assumes "distinct (map t_ShardID ts)"
  shows "new_owners ts x = [] \<or> (\<exists>t \<in> set ts. t_ShardID t = s_ID x \<and> t_CurrentOwners t \<noteq> [] \<and> new_owners ts x = t_NewOwners t)"
proof (cases "\<exists>t \<in> set ts. t_ShardID t = s_ID x \<and> t_CurrentOwners t \<noteq> []")
  case True
  then obtain t where t: "t \<in> set ts" "t_ShardID t = s_ID x" "t_CurrentOwners t \<noteq> []" by blast
  let ?P = "\<lambda>t. t_ShardID t = s_ID x \<and> t_CurrentOwners t \<noteq> []"
  have "\<forall>u \<in> set (filter ?P ts). u = t" using distinct_key [OF assms] t by auto
  moreover have "distinct (filter ?P ts)" "t \<in> set (filter ?P ts)" using assms t by (auto simp: distinct_map)
  ultimately have "filter ?P ts = [t]" by (intro distinct_singleton)
  then show ?thesis using t by (auto simp: new_owners_def)
next
  case False
  then have "filter (\<lambda>t. t_ShardID t = s_ID x \<and> t_CurrentOwners t \<noteq> []) ts = []" by (auto simp: filter_empty_conv)
  then show ?thesis by (simp add: new_owners_def)
qed

text \<open>A round that runs alone against a log that commits: every shard gets the owners that were planned for it, at most one and only if
  it had exactly one. The new owner is a data node and did not own the shard, and is readable exactly if its copy arrived.\<close>

definition round_done :: "(shardRestoreTask \<Rightarrow> u64 \<Rightarrow> bool) \<Rightarrow> shardRestoreTask list \<Rightarrow> data \<Rightarrow> data \<Rightarrow> bool" where
  "round_done restore ts d d' \<longleftrightarrow> d_DataNodes d' = d_DataNodes d \<and>
    all_shards d' = map (\<lambda>x. x\<lparr>s_Owners := s_Owners x @ new_owners ts x\<rparr>) (all_shards d) \<and>
    (\<forall>x \<in> set (all_shards d). new_owners ts x = [] \<or>
       (\<exists>t y. t \<in> set ts \<and> t_ShardID t = s_ID x \<and> new_owners ts x = [y] \<and> length (s_Owners x) = 1 \<and> y \<in> n_ID ` set (d_DataNodes d) \<and>
          y \<notin> set (s_Owners x) \<and> the (d_ShardStatus d' (s_ID x)) y = Some (if restore t y then ShardWriteRead else ShardWrite)))"

lemma rebalance_alone:
  assumes "needRebalance admin (Some r) s = (True, ts)" "distinct (map s_ID (all_shards (st_data s)))"
    and "commits r" "\<forall>x \<in> set (all_shards (st_data s)). d_ShardStatus (st_data s) (s_ID x) \<noteq> None"
  shows "\<exists>s'. doRebalance env (Some r) restore ts s = (None, s') \<and> round_done restore ts (st_data s) (st_data s')"
proof -
  let ?d = "st_data s"
  have nodes: "d_DataNodes ?d \<noteq> []" and ts: "ts = plan admin (d_DataNodes ?d) (unat (md_Index (d_Data ?d)) mod length (d_DataNodes ?d)) (shard_list ?d)"
    using assms(1) by (auto simp: needRebalance_def Let_def split: if_splits)
  note dist = plan_for_data(1) [OF ts assms(2)] and task = plan_for_data(2) [OF ts assms(2) nodes]
  have "\<forall>t \<in> set ts. small_task t ?d" unfolding small_task_def using task assms(4) by fastforce
  from doRebalance_tasks [OF this assms(3), of env restore] obtain s' where s': "doRebalance env (Some r) restore ts s = (None, s')"
    "all_shards (st_data s') = map (\<lambda>x. x\<lparr>s_Owners := s_Owners x @ new_owners ts x\<rparr>) (all_shards ?d)"
    "d_ShardStatus (st_data s') = fold (granted restore) ts (d_ShardStatus ?d)" "d_DataNodes (st_data s') = d_DataNodes ?d" by blast
  have "\<exists>t y. t \<in> set ts \<and> t_ShardID t = s_ID x \<and> new_owners ts x = [y] \<and> length (s_Owners x) = 1 \<and> y \<in> n_ID ` set (d_DataNodes ?d) \<and>
      y \<notin> set (s_Owners x) \<and> the (d_ShardStatus (st_data s') (s_ID x)) y = Some (if restore t y then ShardWriteRead else ShardWrite)"
    if x: "x \<in> set (all_shards ?d)" and n: "new_owners ts x \<noteq> []" for x
  proof -
    obtain t where t: "t \<in> set ts" "t_ShardID t = s_ID x" "t_CurrentOwners t \<noteq> []" "new_owners ts x = t_NewOwners t"
      using new_owners_cases [OF dist, of x] n by blast
    obtain z where z: "z \<in> set (all_shards ?d)" "t_ShardID t = s_ID z" "length (s_Owners z) = 1"
      "t_NewOwners t = [] \<or> (\<exists>i \<in> n_ID ` set (d_DataNodes ?d). i \<notin> set (s_Owners z) \<and> t_NewOwners t = [i])"
      using task [OF t(1,3)] by blast
    have zx: "z = x" using distinct_key [OF assms(2) z(1) x] z(2) t(2) by simp
    obtain y where y: "y \<in> n_ID ` set (d_DataNodes ?d)" "y \<notin> set (s_Owners x)" "t_NewOwners t = [y]" using z(4) n t(4) zx by auto
    obtain m where m: "d_ShardStatus ?d (s_ID x) = Some m" using assms(4) x by blast
    obtain c cs where c: "t_CurrentOwners t = c # cs" using t(3) by (cases "t_CurrentOwners t") auto
    have "d_ShardStatus (st_data s') (s_ID x) = granted restore t (d_ShardStatus ?d) (s_ID x)"
      using fold_granted [OF dist t(1), of restore "d_ShardStatus ?d"] s'(3) t(2) by simp
    then have "the (d_ShardStatus (st_data s') (s_ID x)) y = Some (if restore t y then ShardWriteRead else ShardWrite)"
      using y(3) m c t(2) by (simp add: granted_def)
    then show ?thesis using t y z(3) zx by (intro exI [of _ t] exI [of _ y]) simp
  qed
  then show ?thesis unfolding round_done_def using s'(1,2,4) by blast
qed

subsection \<open>Overlapping rounds\<close>

text \<open>The ticker of \<open>rebalance\<close> starts a round every second in a goroutine of its own, whether or not the rounds before it have ended.
  A round is the list of what it has still to do: propose the new owners of a task, and have the shard copied to a new owner and
  propose that this owner may be read.\<close>

datatype rebalance_action = AddOwners shardRestoreTask | CopyTo shardRestoreTask u64

fun task_actions :: "shardRestoreTask \<Rightarrow> rebalance_action list" where
  "task_actions t = (if t_CurrentOwners t = [] then [] else AddOwners t # map (CopyTo t) (t_NewOwners t))"

definition round_actions :: "shardRestoreTask list \<Rightarrow> rebalance_action list" where
  "round_actions ts = concat (map task_actions ts)"

fun run_action :: "env \<Rightarrow> raft option \<Rightarrow> (shardRestoreTask \<Rightarrow> u64 \<Rightarrow> bool) \<Rightarrow> rebalance_action \<Rightarrow> store \<Rightarrow> meta_error option \<times> store" where
  "run_action env rf restore (AddOwners t) s = store_apply env rf (UpdateShardCommand (t_ShardID t) (t_NewOwners t) None) s"
| "run_action env rf restore (CopyTo t x) s = restoreShard env rf restore t x s"

fun run_round :: "env \<Rightarrow> raft option \<Rightarrow> (shardRestoreTask \<Rightarrow> u64 \<Rightarrow> bool) \<Rightarrow> rebalance_action list \<Rightarrow> store \<Rightarrow> meta_error option \<times> store" where
  "run_round env rf restore [] s = (None, s)"
| "run_round env rf restore (a # as) s = (case run_action env rf restore a s of
      (Some MetaPanic, s') \<Rightarrow> (Some MetaPanic, s')
    | (_, s') \<Rightarrow> run_round env rf restore as s')"

text \<open>\<open>doRebalance\<close> does these actions in this order.\<close>

lemma restore_all_run:
  "run_round env rf restore (map (CopyTo t) xs @ as) s = (case restore_all env rf restore t xs s of
      (Some e, s') \<Rightarrow> (Some e, s') | (None, s') \<Rightarrow> run_round env rf restore as s')"
  by (induction xs arbitrary: s) (simp_all split: prod.splits option.splits meta_error.splits)

lemma doRebalance_run: "doRebalance env rf restore ts s = run_round env rf restore (round_actions ts) s"
  by (induction ts arbitrary: s)
    (simp_all add: round_actions_def restore_all_run split: prod.splits option.splits meta_error.splits)

text \<open>The command that an action proposes, if any, and the copy that it made, if any.\<close>

fun action_command :: "(shardRestoreTask \<Rightarrow> u64 \<Rightarrow> bool) \<Rightarrow> rebalance_action \<Rightarrow> command list" where
  "action_command restore (AddOwners t) = [UpdateShardCommand (t_ShardID t) (t_NewOwners t) None]"
| "action_command restore (CopyTo t x) = (if restore t x then [UpdateShardCommand (t_ShardID t) [] (Some (x, ShardWriteRead))] else [])"

fun action_copy :: "(shardRestoreTask \<Rightarrow> u64 \<Rightarrow> bool) \<Rightarrow> rebalance_action \<Rightarrow> (u64 \<times> u64) list" where
  "action_copy restore (AddOwners t) = []"
| "action_copy restore (CopyTo t x) = (if restore t x then [(t_ShardID t, x)] else [])"

record rebalancer =
  rb_store :: store
  rb_rounds :: "rebalance_action list list"
  rb_late :: "command list"
  rb_copied :: "(u64 \<times> u64) list"

definition no_rounds :: "store \<Rightarrow> rebalancer" where
  "no_rounds s = \<lparr>rb_store = s, rb_rounds = [], rb_late = [], rb_copied = []\<rparr>"

text \<open>The steps: the ticker starts a round, some round does its next action, a command whose proposal failed is committed after all,
  and another command changes anything but shards, their status and the data nodes. Raft, with its leader and its failures, and
  what the network does differ from step to step.\<close>

inductive rebalance_step :: "env \<Rightarrow> (string \<Rightarrow> string) \<Rightarrow> rebalancer \<Rightarrow> rebalancer \<Rightarrow> bool" for env admin where
  tick: "needRebalance admin rf (rb_store w) = (True, ts) \<Longrightarrow> rebalance_step env admin w (w\<lparr>rb_rounds := rb_rounds w @ [round_actions ts]\<rparr>)"
| work: "rb_rounds w = xs @ (a # as) # ys \<Longrightarrow> run_action env rf restore a (rb_store w) = (e, s') \<Longrightarrow> e \<noteq> Some MetaPanic \<Longrightarrow>
    rebalance_step env admin w (w\<lparr>rb_store := s', rb_rounds := xs @ as # ys, rb_copied := action_copy restore a @ rb_copied w,
      rb_late := (if e = None then [] else action_command restore a) @ rb_late w\<rparr>)"
| late: "rb_late w = xs @ c # ys \<Longrightarrow> store_apply env rf c (rb_store w) = (None, s') \<Longrightarrow>
    rebalance_step env admin w (w\<lparr>rb_store := s', rb_late := xs @ ys\<rparr>)"
| elsewhere: "store_apply env rf c (rb_store w) = (e, s') \<Longrightarrow> all_shards (st_data s') = all_shards (st_data (rb_store w)) \<Longrightarrow>
    d_ShardStatus (st_data s') = d_ShardStatus (st_data (rb_store w)) \<Longrightarrow> d_DataNodes (st_data s') = d_DataNodes (st_data (rb_store w)) \<Longrightarrow>
    rebalance_step env admin w (w\<lparr>rb_store := s'\<rparr>)"

text \<open>What becomes of a shard: it keeps its owners, and one with exactly one owner may get further ones. These are data nodes that did not
  own it, each of them is writable, and readable only after a copy for it arrived.\<close>

definition shard_grown :: "u64 set \<Rightarrow> (u64 \<times> u64) list \<Rightarrow> status \<Rightarrow> shardInfo \<Rightarrow> shardInfo \<Rightarrow> bool" where
  "shard_grown nodes copied st x x' \<longleftrightarrow> s_ID x' = s_ID x \<and> (\<exists>m new. st (s_ID x) = Some m \<and> s_Owners x' = s_Owners x @ new \<and>
     (new \<noteq> [] \<longrightarrow> length (s_Owners x) = 1) \<and> set new \<subseteq> nodes - set (s_Owners x) \<and>
     (\<forall>y \<in> set new. m y = Some ShardWrite \<or> m y = Some ShardWriteRead \<and> (s_ID x, y) \<in> set copied))"

definition cluster_grown :: "data \<Rightarrow> (u64 \<times> u64) list \<Rightarrow> data \<Rightarrow> bool" where
  "cluster_grown d0 copied d \<longleftrightarrow> d_DataNodes d = d_DataNodes d0 \<and>
     list_all2 (shard_grown (n_ID ` set (d_DataNodes d0)) copied (d_ShardStatus d)) (all_shards d0) (all_shards d)"

text \<open>The commands that rounds propose.\<close>

definition sound_owners :: "data \<Rightarrow> u64 \<Rightarrow> u64 list \<Rightarrow> bool" where
  "sound_owners d0 i os \<longleftrightarrow> (\<exists>x \<in> set (all_shards d0). s_ID x = i \<and> length (s_Owners x) = 1 \<and> set os \<subseteq> n_ID ` set (d_DataNodes d0) - set (s_Owners x))"

fun sound_command :: "data \<Rightarrow> (u64 \<times> u64) list \<Rightarrow> command \<Rightarrow> bool" where
  "sound_command d0 copied (UpdateShardCommand i os None) \<longleftrightarrow> sound_owners d0 i os"
| "sound_command d0 copied (UpdateShardCommand i os (Some (y, st))) \<longleftrightarrow>
     os = [] \<and> st = ShardWriteRead \<and> i \<in> s_ID ` set (all_shards d0) \<and> (i, y) \<in> set copied"
| "sound_command d0 copied c \<longleftrightarrow> False"

fun sound_action :: "data \<Rightarrow> rebalance_action \<Rightarrow> bool" where
  "sound_action d0 (AddOwners t) \<longleftrightarrow> sound_owners d0 (t_ShardID t) (t_NewOwners t)"
| "sound_action d0 (CopyTo t x) \<longleftrightarrow> t_ShardID t \<in> s_ID ` set (all_shards d0)"

lemma cluster_grown_IDs: "cluster_grown d0 copied d \<Longrightarrow> map s_ID (all_shards d) = map s_ID (all_shards d0)"
  by (auto simp: cluster_grown_def shard_grown_def list_all2_conv_all_nth intro!: nth_equalityI)

lemma cluster_grown_status: "cluster_grown d0 copied d \<Longrightarrow> i \<in> s_ID ` set (all_shards d0) \<Longrightarrow> \<exists>m. d_ShardStatus d i = Some m"
  by (force simp: cluster_grown_def shard_grown_def list_all2_conv_all_nth in_set_conv_nth)

lemma cluster_grown_mono: "cluster_grown d0 copied d \<Longrightarrow> set copied \<subseteq> set copied' \<Longrightarrow> cluster_grown d0 copied' d"
  unfolding cluster_grown_def by (elim conjE, intro conjI, assumption, erule list_all2_mono) (unfold shard_grown_def, blast)

lemma cluster_grown_refl:
  "\<forall>x \<in> set (all_shards d). d_ShardStatus d (s_ID x) \<noteq> None \<Longrightarrow> cluster_grown d [] d"
  by (auto simp: cluster_grown_def shard_grown_def list_all2_conv_all_nth all_set_conv_all_nth)

lemma shard_grown_owners:
  assumes "shard_grown nodes copied st x x'" "s_ID x = i \<Longrightarrow> length (s_Owners x) = 1 \<and> set os \<subseteq> nodes - set (s_Owners x)"
  shows "shard_grown nodes copied (grant i os st) x (grow i os x')"
proof -
  obtain m new where m: "s_ID x' = s_ID x" "st (s_ID x) = Some m" "s_Owners x' = s_Owners x @ new" "new \<noteq> [] \<longrightarrow> length (s_Owners x) = 1"
    "set new \<subseteq> nodes - set (s_Owners x)" "\<forall>y \<in> set new. m y = Some ShardWrite \<or> m y = Some ShardWriteRead \<and> (s_ID x, y) \<in> set copied"
    using assms(1) by (auto simp: shard_grown_def)
  show ?thesis
  proof (cases "s_ID x = i")
    case True
    have upd: "fold (\<lambda>x m. m(x \<mapsto> ShardWrite)) os m y = (if y \<in> set os then Some ShardWrite else m y)" for y
      by (induction os arbitrary: m) auto
    show ?thesis unfolding shard_grown_def using True m assms(2)
      by (intro conjI exI [of _ "fold (\<lambda>x m. m(x \<mapsto> ShardWrite)) os m"] exI [of _ "new @ os"]) (auto simp: grant_def grow_def upd)
  next
    case False
    then have "grant i os st (s_ID x) = Some m" using m(2) by (auto simp: grant_def split: option.split)
    then show ?thesis unfolding shard_grown_def using False m by (intro conjI exI [of _ m] exI [of _ new]) (auto simp: grow_def)
  qed
qed

lemma shard_grown_status:
  assumes "shard_grown nodes copied st x x'" "st i = Some m" "(i, y) \<in> set copied"
  shows "shard_grown nodes copied (st(i \<mapsto> m(y \<mapsto> ShardWriteRead))) x x'"
  using assms by (auto simp: shard_grown_def)

lemma Apply_sound:
  assumes "distinct (map s_ID (all_shards d0))" "cluster_grown d0 copied (f_data f)" "sound_command d0 copied c"
  shows "\<exists>f'. Apply env t k c f = (None, f') \<and> cluster_grown d0 copied (f_data f')"
  using assms(3)
proof (cases rule: sound_command.cases [of "(d0, copied, c)"])
  case (1 _ _ i os)
  then obtain x where x: "x \<in> set (all_shards d0)" "s_ID x = i" "length (s_Owners x) = 1" "set os \<subseteq> n_ID ` set (d_DataNodes d0) - set (s_Owners x)"
    using assms(3) by (auto simp: sound_owners_def)
  have "s_ID ` set (all_shards (f_data f)) = s_ID ` set (all_shards d0)" using arg_cong [OF cluster_grown_IDs [OF assms(2)], of set] by simp
  then have i: "i \<in> s_ID ` set (all_shards (f_data f))" using x(1,2) by blast
  obtain f' where f': "Apply env t k (UpdateShardCommand i os None) f = (None, f')" "all_shards (f_data f') = map (grow i os) (all_shards (f_data f))"
    "d_ShardStatus (f_data f') = grant i os (d_ShardStatus (f_data f))" "d_DataNodes (f_data f') = d_DataNodes (f_data f)"
    using Apply_new_owners [of env t k i os f] i by (elim exE conjE) simp
  have "list_all2 (shard_grown (n_ID ` set (d_DataNodes d0)) copied (grant i os (d_ShardStatus (f_data f)))) (all_shards d0) (map (grow i os) (all_shards (f_data f)))"
    unfolding list_all2_map2
  proof (rule list.rel_mono_strong)
    show "list_all2 (shard_grown (n_ID ` set (d_DataNodes d0)) copied (d_ShardStatus (f_data f))) (all_shards d0) (all_shards (f_data f))"
      using assms(2) by (simp add: cluster_grown_def)
  next
    fix z z' assume z: "z \<in> set (all_shards d0)" "shard_grown (n_ID ` set (d_DataNodes d0)) copied (d_ShardStatus (f_data f)) z z'"
    have "z = x" if "s_ID z = i" using distinct_key [OF assms(1) z(1) x(1)] that x(2) by simp
    then show "shard_grown (n_ID ` set (d_DataNodes d0)) copied (grant i os (d_ShardStatus (f_data f))) z (grow i os z')"
      using x(3,4) by (intro shard_grown_owners [OF z(2)]) blast
  qed
  then show ?thesis using f' 1 assms(2) by (intro exI [of _ f']) (simp add: cluster_grown_def)
next
  case (2 _ _ i os y st)
  then have c: "c = UpdateShardCommand i [] (Some (y, ShardWriteRead))" "i \<in> s_ID ` set (all_shards d0)" "(i, y) \<in> set copied" using assms(3) by simp_all
  obtain m where m: "d_ShardStatus (f_data f) i = Some m" using cluster_grown_status [OF assms(2) c(2)] by (elim exE)
  obtain f' where f': "Apply env t k c f = (None, f')" "all_shards (f_data f') = all_shards (f_data f)"
    "d_ShardStatus (f_data f') = (d_ShardStatus (f_data f))(i \<mapsto> m(y \<mapsto> ShardWriteRead))" "d_DataNodes (f_data f') = d_DataNodes (f_data f)"
    using Apply_new_status [OF m, of env t k y ShardWriteRead] c(1) by (elim exE conjE) simp
  have "list_all2 (shard_grown (n_ID ` set (d_DataNodes d0)) copied (d_ShardStatus (f_data f'))) (all_shards d0) (all_shards (f_data f))"
    unfolding f'(3) by (rule list_all2_mono [OF assms(2) [unfolded cluster_grown_def, THEN conjunct2]]) (rule shard_grown_status [where st = "d_ShardStatus (f_data f)" and i = i and m = m and y = y, OF _ m c(3)])
  then show ?thesis using f' assms(2) by (intro exI [of _ f']) (simp add: cluster_grown_def)
qed simp_all

lemma store_apply_sound:
  assumes "distinct (map s_ID (all_shards d0))" "cluster_grown d0 copied (st_data s)" "sound_command d0 copied c"
  shows "fst (store_apply env rf c s) \<noteq> Some MetaPanic" "cluster_grown d0 copied (st_data (snd (store_apply env rf c s)))"
proof -
  have "fst (store_apply env rf c s) \<noteq> Some MetaPanic \<and> cluster_grown d0 copied (st_data (snd (store_apply env rf c s)))"
  proof (cases rule: store_apply_cases [of rf env c s])
    case lost
    then show ?thesis using assms(2) by (elim exE conjE) simp
  next
    case (committed t k)
    then show ?thesis using Apply_sound [OF assms, of env t k] by (elim exE conjE) simp
  qed
  then show "fst (store_apply env rf c s) \<noteq> Some MetaPanic" "cluster_grown d0 copied (st_data (snd (store_apply env rf c s)))" by simp_all
qed

lemma action_command_sound:
  "sound_action d0 a \<Longrightarrow> \<forall>c \<in> set (action_command restore a). sound_command d0 (action_copy restore a @ copied) c"
  by (cases a) simp_all

lemma run_action_sound:
  assumes "distinct (map s_ID (all_shards d0))" "cluster_grown d0 copied (st_data s)" "sound_action d0 a"
  shows "fst (run_action env rf restore a s) \<noteq> Some MetaPanic"
    "cluster_grown d0 (action_copy restore a @ copied) (st_data (snd (run_action env rf restore a s)))"
proof -
  have g: "cluster_grown d0 (action_copy restore a @ copied) (st_data s)" using assms(2) by (rule cluster_grown_mono) simp
  have "run_action env rf restore a s = (case action_command restore a of [] \<Rightarrow> (None, s) | c # _ \<Rightarrow> store_apply env rf c s)"
    by (cases a) (simp_all add: restoreShard_def)
  moreover note action_command_sound [OF assms(3), of restore copied]
  ultimately show "fst (run_action env rf restore a s) \<noteq> Some MetaPanic"
    "cluster_grown d0 (action_copy restore a @ copied) (st_data (snd (run_action env rf restore a s)))"
    using g store_apply_sound [OF assms(1) g] by (simp_all split: list.splits)
qed

lemma run_round_sound:
  assumes "distinct (map s_ID (all_shards d0))"
  shows "cluster_grown d0 copied (st_data s) \<Longrightarrow> \<forall>a \<in> set as. sound_action d0 a \<Longrightarrow> fst (run_round env rf restore as s) \<noteq> Some MetaPanic"
proof (induction as arbitrary: copied s)
  case (Cons a as)
  obtain e s' where r: "run_action env rf restore a s = (e, s')" by (metis surj_pair)
  have e: "e \<noteq> Some MetaPanic" "cluster_grown d0 (action_copy restore a @ copied) (st_data s')"
    using run_action_sound [OF assms Cons.prems(1), where a = a and env = env and rf = rf and restore = restore] Cons.prems(2) r by simp_all
  have "run_round env rf restore (a # as) s = run_round env rf restore as s'" using r e(1) by (simp split: option.split meta_error.split)
  then show ?case using Cons.IH [OF e(2)] Cons.prems(2) by simp
qed simp

lemma list_all2_source: "list_all2 P xs ys \<Longrightarrow> y \<in> set ys \<Longrightarrow> \<exists>x \<in> set xs. P x y"
  by (induction rule: list_all2_induct) auto

lemma round_actions_sound:
  assumes "distinct (map s_ID (all_shards d0))" "cluster_grown d0 copied (st_data s)" "needRebalance admin rf s = (True, ts)"
  shows "\<forall>a \<in> set (round_actions ts). sound_action d0 a"
proof -
  let ?d = "st_data s"
  have nodes: "d_DataNodes ?d \<noteq> []" and ts: "ts = plan admin (d_DataNodes ?d) (unat (md_Index (d_Data ?d)) mod length (d_DataNodes ?d)) (shard_list ?d)"
    using assms(3) by (auto simp: needRebalance_def Let_def split: if_splits)
  have same: "d_DataNodes ?d = d_DataNodes d0" using assms(2) by (simp add: cluster_grown_def)
  have dist: "distinct (map s_ID (all_shards ?d))" using assms(1) cluster_grown_IDs [OF assms(2)] by simp
  have t: "sound_owners d0 (t_ShardID t) (t_NewOwners t)" if h: "t \<in> set ts" "t_CurrentOwners t \<noteq> []" for t
  proof -
    obtain x where x: "x \<in> set (all_shards ?d)" "t_ShardID t = s_ID x" "length (s_Owners x) = 1"
      "t_NewOwners t = [] \<or> (\<exists>i \<in> n_ID ` set (d_DataNodes ?d). i \<notin> set (s_Owners x) \<and> t_NewOwners t = [i])"
      using plan_for_data(2) [OF ts dist nodes h] by blast
    obtain z where z: "z \<in> set (all_shards d0)" "shard_grown (n_ID ` set (d_DataNodes d0)) copied (d_ShardStatus ?d) z x"
      using list_all2_source [OF _ x(1)] assms(2) unfolding cluster_grown_def by blast
    have "s_ID z = s_ID x" "s_Owners x = s_Owners z" using z(2) x(3) by (auto simp: shard_grown_def)
    then show ?thesis unfolding sound_owners_def using x(2-4) z(1) same by (intro bexI [of _ z]) auto
  qed
  have "sound_owners d0 i os \<Longrightarrow> i \<in> s_ID ` set (all_shards d0)" for i os by (auto simp: sound_owners_def)
  then show ?thesis using t by (auto simp: round_actions_def split: if_splits)
qed

text \<open>The invariant of overlapping rounds.\<close>

definition rounds_ok :: "data \<Rightarrow> rebalancer \<Rightarrow> bool" where
  "rounds_ok d0 w \<longleftrightarrow> cluster_grown d0 (rb_copied w) (st_data (rb_store w)) \<and> (\<forall>as \<in> set (rb_rounds w). \<forall>a \<in> set as. sound_action d0 a) \<and>
     (\<forall>c \<in> set (rb_late w). sound_command d0 (rb_copied w) c)"

lemma sound_command_mono: "sound_command d0 copied c \<Longrightarrow> sound_command d0 (new @ copied) c"
  by (cases "(d0, copied, c)" rule: sound_command.cases) simp_all

lemma rebalance_step_invar:
  assumes "distinct (map s_ID (all_shards d0))"
  shows "rebalance_step env admin w w' \<Longrightarrow> rounds_ok d0 w \<Longrightarrow> rounds_ok d0 w'"
proof (induction rule: rebalance_step.induct)
  case (tick rf w ts)
  then show ?case using round_actions_sound [OF assms, of "rb_copied w" "rb_store w" admin rf ts] by (auto simp: rounds_ok_def)
next
  case (work w xs a as ys rf restore e s')
  then have a: "sound_action d0 a" "cluster_grown d0 (rb_copied w) (st_data (rb_store w))" by (simp_all add: rounds_ok_def)
  then have "cluster_grown d0 (action_copy restore a @ rb_copied w) (st_data s')"
    using run_action_sound(2) [OF assms a(2,1), of restore env rf] work(2) by simp
  moreover have "\<forall>c \<in> set (rb_late w). sound_command d0 (action_copy restore a @ rb_copied w) c"
    using work.prems by (simp add: rounds_ok_def sound_command_mono)
  ultimately show ?case using work.prems work.hyps(1) action_command_sound [OF a(1), of restore "rb_copied w"] by (auto simp: rounds_ok_def)
next
  case (late w xs c ys rf s')
  then have "cluster_grown d0 (rb_copied w) (st_data s')"
    using store_apply_sound(2) [OF assms, of "rb_copied w" "rb_store w" c env rf] by (simp add: rounds_ok_def)
  then show ?case using late by (simp add: rounds_ok_def)
next
  case (elsewhere rf c w e s')
  then show ?case by (simp add: rounds_ok_def cluster_grown_def)
qed

lemma rounds_invar:
  assumes "distinct (map s_ID (all_shards (st_data s0)))" "\<forall>x \<in> set (all_shards (st_data s0)). d_ShardStatus (st_data s0) (s_ID x) \<noteq> None"
    and "(rebalance_step env admin)\<^sup>*\<^sup>* (no_rounds s0) w"
  shows "rounds_ok (st_data s0) w"
  using assms(3)
proof (induction rule: rtranclp_induct)
  case base
  show ?case using cluster_grown_refl [OF assms(2)] by (simp add: rounds_ok_def no_rounds_def)
next
  case (step w w')
  show ?case using rebalance_step_invar [OF assms(1) step(2,3)] .
qed

text \<open>C14: rounds of rebalancing start every second and may overlap in any order, each of their proposals may be lost by raft, with the
  error ignored, and be committed later. From a cluster whose shards have distinct IDs, each with a status map, and while no other
  command touches shards, their status or the data nodes: no round and no late command panics, every shard keeps its owners, and
  only shards with exactly one owner get new ones, all of them data nodes that did not own the shard, writable, and readable only
  after a copy of the shard arrived there. A round that runs alone against a log that commits gives every shard at most one new
  owner, the planned one, which is readable exactly if its copy arrived.\<close>

theorem rebalance_adds_replica:
  assumes "distinct (map s_ID (all_shards (st_data s0)))" "\<forall>x \<in> set (all_shards (st_data s0)). d_ShardStatus (st_data s0) (s_ID x) \<noteq> None"
    and "(rebalance_step env admin)\<^sup>*\<^sup>* (no_rounds s0) w"
  shows "cluster_grown (st_data s0) (rb_copied w) (st_data (rb_store w)) \<and>
    (\<forall>as \<in> set (rb_rounds w). \<forall>rf restore. fst (run_round env rf restore as (rb_store w)) \<noteq> Some MetaPanic) \<and>
    (\<forall>c \<in> set (rb_late w). \<forall>rf. fst (store_apply env rf c (rb_store w)) \<noteq> Some MetaPanic) \<and>
    (\<forall>rf ts restore. needRebalance admin rf (rb_store w) = (True, ts) \<longrightarrow> fst (doRebalance env rf restore ts (rb_store w)) \<noteq> Some MetaPanic) \<and>
    (\<forall>r ts restore. commits r \<longrightarrow> needRebalance admin (Some r) (rb_store w) = (True, ts) \<longrightarrow>
       (\<exists>s'. doRebalance env (Some r) restore ts (rb_store w) = (None, s') \<and> round_done restore ts (st_data (rb_store w)) (st_data s')))"
proof -
  have ok: "cluster_grown (st_data s0) (rb_copied w) (st_data (rb_store w))" "\<forall>as \<in> set (rb_rounds w). \<forall>a \<in> set as. sound_action (st_data s0) a"
    "\<forall>c \<in> set (rb_late w). sound_command (st_data s0) (rb_copied w) c"
    using rounds_invar [OF assms] by (simp_all add: rounds_ok_def)
  have IDs: "map s_ID (all_shards (st_data (rb_store w))) = map s_ID (all_shards (st_data s0))" by (rule cluster_grown_IDs [OF ok(1)])
  have "s_ID ` set (all_shards (st_data (rb_store w))) = s_ID ` set (all_shards (st_data s0))" using arg_cong [OF IDs, of set] by simp
  then have st: "\<forall>x \<in> set (all_shards (st_data (rb_store w))). d_ShardStatus (st_data (rb_store w)) (s_ID x) \<noteq> None"
    using cluster_grown_status [OF ok(1)] by blast
  note alone = rebalance_alone [OF _ _ _ st] and dist = assms(1) [folded IDs]
  show ?thesis
  proof (intro conjI ballI allI impI)
    show "fst (run_round env rf restore as (rb_store w)) \<noteq> Some MetaPanic" if "as \<in> set (rb_rounds w)" for as rf restore
      using run_round_sound [OF assms(1) ok(1)] ok(2) that by blast
    show "fst (store_apply env rf c (rb_store w)) \<noteq> Some MetaPanic" if "c \<in> set (rb_late w)" for c rf
      using store_apply_sound(1) [OF assms(1) ok(1)] ok(3) that by blast
    show "fst (doRebalance env rf restore ts (rb_store w)) \<noteq> Some MetaPanic" if "needRebalance admin rf (rb_store w) = (True, ts)" for rf ts restore
      unfolding doRebalance_run using run_round_sound [OF assms(1) ok(1) round_actions_sound [OF assms(1) ok(1) that]] .
    show "\<exists>s'. doRebalance env (Some r) restore ts (rb_store w) = (None, s') \<and> round_done restore ts (st_data (rb_store w)) (st_data s')"
      if "commits r" "needRebalance admin (Some r) (rb_store w) = (True, ts)" for r ts restore
      by (rule alone [OF that(2) dist that(1)])
  qed (rule ok(1))
qed

text \<open>One shard with one replica in a cluster of three nodes: the plan starts at node two.\<close>

definition sample_store :: store where
  "sample_store = \<lparr>st_fsm = \<lparr>f_data = (sample [\<lparr>g_ID = 1, g_StartTime = 0, g_EndTime = 100, g_DeletedAt = 0, g_TruncatedAt = 0,
      g_Shards = [\<lparr>s_ID = 4, s_Owners = [1]\<rparr>, \<lparr>s_ID = 5, s_Owners = [1, 3]\<rparr>]\<rparr>])\<lparr>d_ShardStatus := (\<lambda>_. Some Map.empty)\<rparr>, f_RetentionAutoCreate = True\<rparr>,
     st_httpAddr = ''h'', st_raftAddr = ''a''\<rparr>"

definition sample_raft :: raft where
  "sample_raft = \<lparr>rf_leader = ''a'', rf_isLeader = True, rf_peers = Inr [''a''], rf_addPeer = (\<lambda>_. None), rf_apply = (\<lambda>_ _. Inr (1, 8))\<rparr>"

text \<open>Two rounds that overlap, both planned before the first has added its owner: the shard gets the same owner twice.\<close>

lemma sample_plan:
  "\<exists>t. needRebalance (\<lambda>a. a) (Some sample_raft) sample_store = (True, [t]) \<and> t_ShardID t = 4 \<and> t_CurrentOwners t = [1] \<and> t_NewOwners t = [2]"
proof -
  have c: "choose_owners 5 (Suc 0) 2 [1] [] (Suc 0) = ([2], 2)" by code_simp
  show ?thesis by (simp add: needRebalance_def isLeader_def sample_raft_def sample_store_def sample_def shard_list_def defaultReplicaN_def Let_def c)
qed

lemma sample_shards: "all_shards (st_data sample_store) = [\<lparr>s_ID = 4, s_Owners = [1]\<rparr>, \<lparr>s_ID = 5, s_Owners = [1, 3]\<rparr>]"
  by (simp add: sample_store_def sample_def all_shards_def all_groups_def)

lemma sample_commits: "commits sample_raft"
  by (simp add: commits_def sample_raft_def)

theorem overlapping_rounds:
  "\<exists>w. (rebalance_step plain_env (\<lambda>a. a))\<^sup>*\<^sup>* (no_rounds sample_store) w \<and>
    all_shards (st_data (rb_store w)) = [\<lparr>s_ID = 4, s_Owners = [1, 2, 2]\<rparr>, \<lparr>s_ID = 5, s_Owners = [1, 3]\<rparr>]"
proof -
  let ?step = "rebalance_step plain_env (\<lambda>a. a)"
  obtain t where t: "needRebalance (\<lambda>a. a) (Some sample_raft) sample_store = (True, [t])" "t_ShardID t = 4" "t_CurrentOwners t = [1]" "t_NewOwners t = [2]"
    using sample_plan by blast
  let ?a = "AddOwners t" and ?c = "CopyTo t 2"
  have ra: "round_actions [t] = [?a, ?c]" using t by (simp add: round_actions_def)
  let ?w1 = "no_rounds sample_store\<lparr>rb_rounds := [[?a, ?c]]\<rparr>" and ?w2 = "no_rounds sample_store\<lparr>rb_rounds := [[?a, ?c], [?a, ?c]]\<rparr>"
  have w1: "?step (no_rounds sample_store) ?w1"
    using tick [of "\<lambda>a. a" "Some sample_raft" "no_rounds sample_store" "[t]" plain_env] t(1) ra by (simp add: no_rounds_def)
  have w2: "?step ?w1 ?w2"
    using tick [of "\<lambda>a. a" "Some sample_raft" ?w1 "[t]" plain_env] t(1) ra by (simp add: no_rounds_def)
  obtain s1 where s1: "run_action plain_env (Some sample_raft) (\<lambda>_ _. True) ?a sample_store = (None, s1)"
    "all_shards (st_data s1) = [\<lparr>s_ID = 4, s_Owners = [1, 2]\<rparr>, \<lparr>s_ID = 5, s_Owners = [1, 3]\<rparr>]"
    using apply_new_owners [OF sample_commits, of plain_env 4 "[2]" sample_store] t sample_shards by (auto simp: grow_def)
  obtain s2 where s2: "run_action plain_env (Some sample_raft) (\<lambda>_ _. True) ?a s1 = (None, s2)"
    "all_shards (st_data s2) = [\<lparr>s_ID = 4, s_Owners = [1, 2, 2]\<rparr>, \<lparr>s_ID = 5, s_Owners = [1, 3]\<rparr>]"
    using apply_new_owners [OF sample_commits, of plain_env 4 "[2]" s1] t s1(2) by (auto simp: grow_def)
  let ?w3 = "?w2\<lparr>rb_store := s1, rb_rounds := [[?c], [?a, ?c]]\<rparr>" and ?w4 = "?w2\<lparr>rb_store := s2, rb_rounds := [[?c], [?c]]\<rparr>"
  have w3: "?step ?w2 ?w3"
    using work [of ?w2 "[]" ?a "[?c]" "[[?a, ?c]]" plain_env "Some sample_raft" "\<lambda>_ _. True" None s1 "\<lambda>a. a"] s1(1) by (simp add: no_rounds_def)
  have w4: "?step ?w3 ?w4"
    using work [of ?w3 "[[?c]]" ?a "[?c]" "[]" plain_env "Some sample_raft" "\<lambda>_ _. True" None s2 "\<lambda>a. a"] s2(1) by (simp add: no_rounds_def)
  have "?step\<^sup>*\<^sup>* (no_rounds sample_store) ?w4" using w1 w2 w3 w4 by (meson converse_rtranclp_into_rtranclp rtranclp.rtrancl_refl)
  then show ?thesis using s2(2) by (intro exI [of _ ?w4]) simp
qed

theorem rebalance_adds_replica_witness:
  "(\<exists>w. (rebalance_step plain_env (\<lambda>a. a))\<^sup>*\<^sup>* (no_rounds sample_store) w \<and> all_shards (st_data (rb_store w)) \<noteq> all_shards (st_data sample_store) \<and>
      cluster_grown (st_data sample_store) (rb_copied w) (st_data (rb_store w))) \<and>
   (\<exists>ts s'. doRebalance plain_env (Some sample_raft) (\<lambda>_ _. True) ts sample_store = (None, s') \<and>
      needRebalance (\<lambda>a. a) (Some sample_raft) sample_store = (True, ts) \<and> round_done (\<lambda>_ _. True) ts (st_data sample_store) (st_data s') \<and>
      all_shards (st_data s') = [\<lparr>s_ID = 4, s_Owners = [1, 2]\<rparr>, \<lparr>s_ID = 5, s_Owners = [1, 3]\<rparr>])"
proof -
  let ?step = "rebalance_step plain_env (\<lambda>a. a)"
  have d: "distinct (map s_ID (all_shards (st_data sample_store)))" by (simp add: sample_shards)
  have m: "\<forall>x \<in> set (all_shards (st_data sample_store)). d_ShardStatus (st_data sample_store) (s_ID x) \<noteq> None" by (simp add: sample_store_def)
  obtain w where w: "?step\<^sup>*\<^sup>* (no_rounds sample_store) w"
    "all_shards (st_data (rb_store w)) = [\<lparr>s_ID = 4, s_Owners = [1, 2, 2]\<rparr>, \<lparr>s_ID = 5, s_Owners = [1, 3]\<rparr>]" using overlapping_rounds by blast
  obtain t where t: "needRebalance (\<lambda>a. a) (Some sample_raft) sample_store = (True, [t])" "t_ShardID t = 4" "t_CurrentOwners t = [1]" "t_NewOwners t = [2]"
    using sample_plan by blast
  have r: "rb_store (no_rounds sample_store) = sample_store" by (simp add: no_rounds_def)
  obtain s' where s': "doRebalance plain_env (Some sample_raft) (\<lambda>_ _. True) [t] sample_store = (None, s')"
    "round_done (\<lambda>_ _. True) [t] (st_data sample_store) (st_data s')"
    using rebalance_adds_replica [OF d m rtranclp.rtrancl_refl [of ?step], unfolded r, THEN conjunct2, THEN conjunct2, THEN conjunct2, THEN conjunct2,
      rule_format, OF sample_commits t(1), of "\<lambda>_ _. True"] by blast
  then have "all_shards (st_data s') = [\<lparr>s_ID = 4, s_Owners = [1, 2]\<rparr>, \<lparr>s_ID = 5, s_Owners = [1, 3]\<rparr>]"
    using t(2-4) by (simp add: round_done_def sample_shards new_owners_def)
  moreover have "cluster_grown (st_data sample_store) (rb_copied w) (st_data (rb_store w))"
    by (rule rebalance_adds_replica [OF d m w(1), THEN conjunct1])
  ultimately show ?thesis using w s' t(1) sample_shards by (intro conjI exI [of _ w] exI [of _ "[t]"] exI [of _ s']) simp_all
qed

end
