(* ===== verification/Meta_Client.thy ===== *)
theory Meta_Client
  imports Meta_Fsm
begin

text \<open>
  The client of the meta servers, \<^verbatim>\<open>services/meta/client.go\<close>, which every data node uses: it sends commands over HTTP and answers questions
  from a copy of the metadata that it polls. The network is an argument with a state of its own; password hashing and the accessors of
  the underlying metadata library are arguments too. Loops that may run forever have the result \<open>None\<close> when they do.
\<close>

record authUser =
  au_bhash :: string
  au_salt :: bytes
  au_hash :: bytes

record client =
  c_tls :: bool
  c_nodeID :: u64
  c_metaServers :: "string list"
  c_cacheData :: data
  c_authCache :: "string \<rightharpoonup> authUser"

record rpOptions =
  ro_Name :: string
  ro_ReplicaN :: "int option"
  ro_Duration :: "int option"
  ro_ShardGroupDuration :: int

record client_lib =
  kl_db_RetentionPolicy :: "databaseInfo \<Rightarrow> string \<Rightarrow> retentionPolicyInfo option"
  kl_data_RetentionPolicy :: "metaData \<Rightarrow> string \<Rightarrow> string \<Rightarrow> meta_error + retentionPolicyInfo option"
  kl_data_ShardGroupByTimestamp :: "metaData \<Rightarrow> string \<Rightarrow> string \<Rightarrow> time \<Rightarrow> shardGroupInfo option"
  kl_ShardGroupByTimestamp :: "retentionPolicyInfo \<Rightarrow> time \<Rightarrow> shardGroupInfo option"
  kl_Deleted :: "shardGroupInfo \<Rightarrow> bool"
  kl_Overlaps :: "shardGroupInfo \<Rightarrow> time \<Rightarrow> time \<Rightarrow> bool"
  kl_OwnedBy :: "shardInfo \<Rightarrow> u64 \<Rightarrow> bool"
  kl_NewRetentionPolicyInfo :: "rpOptions \<Rightarrow> retentionPolicyInfo"
  kl_MinRetentionPolicyDuration :: int
  kl_bcrypt_compare :: "string \<Rightarrow> string \<Rightarrow> bool"
  kl_bcrypt_generate :: "string \<Rightarrow> meta_error + string"
  kl_sha256 :: "bytes \<Rightarrow> bytes"
  kl_readSalt :: "nat \<Rightarrow> meta_error + bytes"

text \<open>An HTTP answer: status, location header, and the decoded body (error text and index).\<close>

record http_resp =
  hr_StatusCode :: int
  hr_Location :: string
  hr_Body :: "meta_error + string \<times> u64"

record 'w network =
  nw_post :: "string \<Rightarrow> command \<Rightarrow> 'w \<Rightarrow> (meta_error + http_resp) \<times> 'w"
  nw_snapshot :: "string \<Rightarrow> u64 \<Rightarrow> 'w \<Rightarrow> (meta_error + bytes) \<times> 'w"
  nw_peers :: "string \<Rightarrow> 'w \<Rightarrow> string list option \<times> 'w"
  nw_closed :: "'w \<Rightarrow> bool"
  nw_proto :: proto_lib
  nw_time :: time_lib

definition NewClient :: client where
  "NewClient = \<lparr>c_tls = False, c_nodeID = 0, c_metaServers = [], c_cacheData = f_data (newStore False)
     \<lparr>d_Data := (d_Data (f_data (newStore False)))\<lparr>md_Index := 0\<rparr>\<rparr>, c_authCache = Map.empty\<rparr>"

abbreviation c_index :: "client \<Rightarrow> u64" where
  "c_index c \<equiv> md_Index (d_Data (c_cacheData c))"

subsection \<open>Talking to the meta servers\<close>

definition url :: "client \<Rightarrow> string \<Rightarrow> string" where
  "url c server = (if c_tls c then ''https'' else ''http'') @ ''://'' @ server"

datatype exec_error = errRedirect string | errCommand string | errOther meta_error

fun error_of :: "exec_error \<Rightarrow> meta_error" where
  "error_of (errRedirect host) = ErrOther (''redirect to '' @ host)"
| "error_of (errCommand msg) = ErrOther msg"
| "error_of (errOther e) = e"

definition exec :: "'w network \<Rightarrow> string \<Rightarrow> command \<Rightarrow> 'w \<Rightarrow> (exec_error + u64) \<times> 'w" where
  "exec net u cmd w = (case nw_post net u cmd w of
      (Inl e, w') \<Rightarrow> (Inl (errOther e), w')
    | (Inr resp, w') \<Rightarrow>
        (if hr_StatusCode resp = 307 then Inl (errRedirect (hr_Location resp))
         else if hr_StatusCode resp \<noteq> 200 then Inl (errOther (ErrOther ''meta service returned''))
         else case hr_Body resp of
           Inl e \<Rightarrow> Inl (errOther e)
         | Inr (es, index) \<Rightarrow> if es \<noteq> [] then Inl (errCommand es) else Inr index, w'))"

definition getSnapshot :: "'w network \<Rightarrow> string \<Rightarrow> u64 \<Rightarrow> 'w \<Rightarrow> (meta_error + data) \<times> 'w" where
  "getSnapshot net server index w = (case nw_snapshot net server index w of
      (Inl e, w') \<Rightarrow> (Inl e, w')
    | (Inr b, w') \<Rightarrow> (UnmarshalBinary (nw_proto net) (nw_time net) b, w'))"

text \<open>The result \<open>Inr None\<close> stands for a closed client, \<open>Inl\<close> for the panic when there is no server.\<close>

partial_function (option) retryUntilSnapshot ::
  "'w network \<Rightarrow> u64 \<Rightarrow> nat \<Rightarrow> client \<Rightarrow> 'w \<Rightarrow> ((meta_error + data option) \<times> 'w) option" where
  "retryUntilSnapshot net idx currentServer c w =
     (if nw_closed net w then Some (Inr None, w)
      else let cur = (if currentServer \<ge> length (c_metaServers c) then 0 else currentServer) in
        if c_metaServers c = [] then Some (Inl MetaPanic, w)
        else case getSnapshot net (c_metaServers c ! cur) idx w of
          (Inr d, w') \<Rightarrow> Some (Inr (Some d), w')
        | (Inl e, w') \<Rightarrow> retryUntilSnapshot net idx (cur + 1) c w')"

definition updateAuthCache :: "client \<Rightarrow> client" where
  "updateAuthCache c = c\<lparr>c_authCache := fold (\<lambda>u newCache. case c_authCache c (u_Name u) of
      Some cached \<Rightarrow> if au_bhash cached = u_Hash u then newCache(u_Name u \<mapsto> cached) else newCache
    | None \<Rightarrow> newCache) (md_Users (d_Data (c_cacheData c))) Map.empty\<rparr>"

text \<open>One round of the loop that polls for updates, and waiting for it to reach an index.\<close>

definition poll_update :: "data \<Rightarrow> client \<Rightarrow> client" where
  "poll_update d c = updateAuthCache (c\<lparr>c_cacheData := d\<rparr>)"

partial_function (option) waitForIndex ::
  "'w network \<Rightarrow> u64 \<Rightarrow> client \<Rightarrow> 'w \<Rightarrow> (client \<times> 'w) option" where
  "waitForIndex net idx c w =
     (if c_index c \<ge> idx then Some (c, w)
      else case retryUntilSnapshot net (c_index c) 0 c w of
        Some (Inr (Some d), w') \<Rightarrow> waitForIndex net idx (poll_update d c) w'
      | _ \<Rightarrow> None)"

definition maxRetries :: nat where "maxRetries = 10"

text \<open>The next server: the one the last answer pointed to, or the next of the list.\<close>

definition next_url :: "client \<Rightarrow> nat \<Rightarrow> string \<Rightarrow> (string \<times> nat) option" where
  "next_url c currentServer redirectServer =
     (if redirectServer \<noteq> [] then Some (redirectServer, currentServer)
      else if c_metaServers c = [] then None
      else let cur = (if currentServer \<ge> length (c_metaServers c) then 0 else currentServer) in Some (url c (c_metaServers c ! cur) @ ''/execute'', cur))"

text \<open>\<open>n\<close> is the number of attempts that are left after this one.\<close>

fun retry :: "'w network \<Rightarrow> nat \<Rightarrow> nat \<Rightarrow> string \<Rightarrow> command \<Rightarrow> client \<Rightarrow> 'w \<Rightarrow> (meta_error option \<times> client \<times> 'w) option" where
  "retry net n currentServer redirectServer cmd c w =
     (if nw_closed net w then Some (None, c, w)
      else case next_url c currentServer redirectServer of
        None \<Rightarrow> Some (Some MetaPanic, c, w)
      | Some (u, cur) \<Rightarrow> (case exec net u cmd w of
          (Inr index, w') \<Rightarrow> (case waitForIndex net index c w' of None \<Rightarrow> None | Some (c', w'') \<Rightarrow> Some (None, c', w''))
        | (Inl err, w') \<Rightarrow>
            (if n = 0 then Some (Some (error_of err), c, w')
             else case err of
               errRedirect host \<Rightarrow> retry net (n - 1) (cur + 1) host cmd c w'
             | errCommand msg \<Rightarrow> Some (Some (error_of err), c, w')
             | errOther e \<Rightarrow> retry net (n - 1) (cur + 1) [] cmd c w')))"

declare retry.simps [simp del]

definition retryUntilExec :: "'w network \<Rightarrow> command \<Rightarrow> client \<Rightarrow> 'w \<Rightarrow> (meta_error option \<times> client \<times> 'w) option" where
  "retryUntilExec net cmd c w = retry net maxRetries 0 [] cmd c w"

subsection \<open>Questions answered from the copy\<close>

definition ClusterID :: "client \<Rightarrow> u64" where
  "ClusterID c = md_ClusterID (d_Data (c_cacheData c))"

definition c_DataNode :: "u64 \<Rightarrow> client \<Rightarrow> meta_error + nodeInfo" where
  "c_DataNode i c = (case find (\<lambda>n. n_ID n = i) (d_DataNodes (c_cacheData c)) of Some n \<Rightarrow> Inr n | None \<Rightarrow> Inl ErrNodeNotFound)"

definition DataNodeByHTTPHost :: "string \<Rightarrow> client \<Rightarrow> meta_error + nodeInfo" where
  "DataNodeByHTTPHost addr c = (case find (\<lambda>n. n_Host n = addr) (d_DataNodes (c_cacheData c)) of Some n \<Rightarrow> Inr n | None \<Rightarrow> Inl ErrNodeNotFound)"

text \<open>The log message before the search reads the first node.\<close>

definition DataNodeByTCPHost :: "string \<Rightarrow> client \<Rightarrow> meta_error + nodeInfo" where
  "DataNodeByTCPHost addr c = (case d_DataNodes (c_cacheData c) of
      [] \<Rightarrow> Inl MetaPanic
    | nodes \<Rightarrow> (case find (\<lambda>n. n_TCPHost n = addr) nodes of Some n \<Rightarrow> Inr n | None \<Rightarrow> Inl ErrNodeNotFound))"

definition MetaNodeByAddr :: "string \<Rightarrow> client \<Rightarrow> nodeInfo option" where
  "MetaNodeByAddr addr c = find (\<lambda>n. n_Host n = addr) (d_MetaNodes (c_cacheData c))"

definition c_Database :: "string \<Rightarrow> client \<Rightarrow> databaseInfo option" where
  "c_Database name c = find (\<lambda>d. db_Name d = name) (md_Databases (d_Data (c_cacheData c)))"

definition Databases :: "client \<Rightarrow> databaseInfo list" where
  "Databases c = md_Databases (d_Data (c_cacheData c))"

definition c_RetentionPolicy :: "client_lib \<Rightarrow> string \<Rightarrow> string \<Rightarrow> client \<Rightarrow> meta_error + retentionPolicyInfo option" where
  "c_RetentionPolicy kl database name c = (case c_Database database c of
      None \<Rightarrow> Inl (ErrOther (''database not found: '' @ database))
    | Some db \<Rightarrow> Inr (kl_db_RetentionPolicy kl db name))"

definition Users :: "client \<Rightarrow> userInfo list" where
  "Users c = md_Users (d_Data (c_cacheData c))"

definition c_User :: "string \<Rightarrow> client \<Rightarrow> meta_error + userInfo" where
  "c_User name c = (case find (\<lambda>u. u_Name u = name) (Users c) of Some u \<Rightarrow> Inr u | None \<Rightarrow> Inl (ErrOther ''user not found''))"

definition AdminUserExists :: "client \<Rightarrow> bool" where
  "AdminUserExists c \<longleftrightarrow> list_ex u_Admin (Users c)"

definition UserCount :: "client \<Rightarrow> nat" where
  "UserCount c = length (Users c)"

text \<open>A missing entry of the map reads as zero.\<close>

definition ShardIsReadable :: "u64 \<Rightarrow> u64 \<Rightarrow> client \<Rightarrow> bool" where
  "ShardIsReadable shardID nodeID c =
     (let s = (case d_ShardStatus (c_cacheData c) shardID of None \<Rightarrow> 0 | Some m \<Rightarrow> (case m nodeID of None \<Rightarrow> 0 | Some s \<Rightarrow> s))
      in s = ShardRead \<or> s = ShardWriteRead)"

definition groups_of :: "client \<Rightarrow> (string \<times> string \<times> shardGroupInfo) list" where
  "groups_of c = concat (map (\<lambda>db. concat (map (\<lambda>rp. map (\<lambda>g. (db_Name db, rp_Name rp, g)) (rp_ShardGroups rp)) (db_RetentionPolicies db))) (Databases c))"

definition c_ShardInfo :: "u64 \<Rightarrow> client \<Rightarrow> shardInfo" where
  "c_ShardInfo shardID c = (case find (\<lambda>s. s_ID s = shardID) (concat (map (\<lambda>(_, _, g). g_Shards g) (groups_of c))) of
      Some s \<Rightarrow> s | None \<Rightarrow> \<lparr>s_ID = 0, s_Owners = []\<rparr>)"

definition ShardIDs :: "client \<Rightarrow> u64 list" where
  "ShardIDs c = sort (concat (map (\<lambda>(_, _, g). map s_ID (g_Shards g)) (groups_of c)))"

definition ShardIDsByNode :: "client_lib \<Rightarrow> u64 \<Rightarrow> client \<Rightarrow> u64 list" where
  "ShardIDsByNode kl nodeId c = sort (concat (map (\<lambda>(_, _, g). map s_ID (filter (\<lambda>s. kl_OwnedBy kl s nodeId \<and> \<not> kl_Deleted kl g) (g_Shards g))) (groups_of c)))"

definition ShardGroupsByTimeRange :: "client_lib \<Rightarrow> string \<Rightarrow> string \<Rightarrow> time \<Rightarrow> time \<Rightarrow> client \<Rightarrow> meta_error + shardGroupInfo list" where
  "ShardGroupsByTimeRange kl database policy mn mx c = (case kl_data_RetentionPolicy kl (d_Data (c_cacheData c)) database policy of
      Inl e \<Rightarrow> Inl e
    | Inr None \<Rightarrow> Inl (ErrRetentionPolicyNotFound policy)
    | Inr (Some rpi) \<Rightarrow> Inr (filter (\<lambda>g. \<not> (kl_Deleted kl g \<or> \<not> kl_Overlaps kl g mn mx)) (rp_ShardGroups rpi)))"

text \<open>Sources are measurements of a database and policy; the result comes in the order of a map over pointers, \<open>iter\<close>.\<close>

fun shards_of_sources :: "client_lib \<Rightarrow> (string \<times> string) list \<Rightarrow> time \<Rightarrow> time \<Rightarrow> client \<Rightarrow> meta_error + shardInfo list" where
  "shards_of_sources kl [] tmin tmax c = Inr []"
| "shards_of_sources kl ((db, rp) # srcs) tmin tmax c = (case ShardGroupsByTimeRange kl db rp tmin tmax c of
      Inl e \<Rightarrow> Inl e
    | Inr groups \<Rightarrow> (case shards_of_sources kl srcs tmin tmax c of Inl e \<Rightarrow> Inl e | Inr rest \<Rightarrow> Inr (concat (map g_Shards groups) @ rest)))"

definition ShardsByTimeRange ::
  "client_lib \<Rightarrow> (shardInfo list \<Rightarrow> shardInfo list) \<Rightarrow> (string \<times> string) list \<Rightarrow> time \<Rightarrow> time \<Rightarrow> client \<Rightarrow> meta_error + shardInfo list" where
  "ShardsByTimeRange kl iter srcs tmin tmax c = map_sum (\<lambda>e. e) iter (shards_of_sources kl srcs tmin tmax c)"

definition c_ShardOwner :: "client_lib \<Rightarrow> u64 \<Rightarrow> client \<Rightarrow> string \<times> string \<times> shardGroupInfo option" where
  "c_ShardOwner kl shardID c = (case find (\<lambda>(_, _, g). \<not> kl_Deleted kl g \<and> list_ex (\<lambda>s. s_ID s = shardID) (g_Shards g)) (groups_of c) of
      Some (db, rp, g) \<Rightarrow> (db, rp, Some g) | None \<Rightarrow> ([], [], None))"

text \<open>Peers: distinct addresses, in the order of a map (\<open>iter\<close>).\<close>

definition Unique :: "(string list \<Rightarrow> string list) \<Rightarrow> string list \<Rightarrow> string list" where
  "Unique iter ps = iter (remdups ps)"

definition Peers_Append :: "(string list \<Rightarrow> string list) \<Rightarrow> string list \<Rightarrow> string list \<Rightarrow> string list" where
  "Peers_Append iter ps p = Unique iter (ps @ p)"

definition Peers_Contains :: "string list \<Rightarrow> string \<Rightarrow> bool" where
  "Peers_Contains ps p \<longleftrightarrow> list_ex (\<lambda>q. q = p) ps"

fun collect_peers :: "'w network \<Rightarrow> (string list \<Rightarrow> string list) \<Rightarrow> string list \<Rightarrow> string list \<Rightarrow> 'w \<Rightarrow> string list \<times> 'w" where
  "collect_peers net iter [] ps w = (Unique iter ps, w)"
| "collect_peers net iter (server # servers) ps w = (case nw_peers net server w of
      (None, w') \<Rightarrow> collect_peers net iter servers ps w'
    | (Some p, w') \<Rightarrow> collect_peers net iter servers (Peers_Append iter ps p) w')"

definition c_peers :: "'w network \<Rightarrow> (string list \<Rightarrow> string list) \<Rightarrow> client \<Rightarrow> 'w \<Rightarrow> string list \<times> 'w" where
  "c_peers net iter c w = collect_peers net iter (c_metaServers c) [] w"

subsection \<open>Commands\<close>

definition run :: "'w network \<Rightarrow> command \<Rightarrow> (client \<Rightarrow> (meta_error + 'r) \<times> client) \<Rightarrow> client \<Rightarrow> 'w \<Rightarrow> ((meta_error + 'r) \<times> client \<times> 'w) option" where
  "run net cmd k c w = (case retryUntilExec net cmd c w of
      None \<Rightarrow> None
    | Some (Some e, c', w') \<Rightarrow> Some (Inl e, c', w')
    | Some (None, c', w') \<Rightarrow> (case k c' of (r, c'') \<Rightarrow> Some (r, c'', w')))"

definition run_only :: "'w network \<Rightarrow> command \<Rightarrow> client \<Rightarrow> 'w \<Rightarrow> ((meta_error + unit) \<times> client \<times> 'w) option" where
  "run_only net cmd = run net cmd (\<lambda>c. (Inr (), c))"

definition c_CreateDataNode :: "'w network \<Rightarrow> string \<Rightarrow> string \<Rightarrow> client \<Rightarrow> 'w \<Rightarrow> ((meta_error + nodeInfo) \<times> client \<times> 'w) option" where
  "c_CreateDataNode net http tcp = run net (CreateDataNodeCommand http tcp) (\<lambda>c. case DataNodeByTCPHost tcp c of
      Inl e \<Rightarrow> (Inl e, c) | Inr n \<Rightarrow> (Inr n, c\<lparr>c_nodeID := n_ID n\<rparr>))"

definition c_DeleteDataNode :: "'w network \<Rightarrow> u64 \<Rightarrow> client \<Rightarrow> 'w \<Rightarrow> ((meta_error + unit) \<times> client \<times> 'w) option" where
  "c_DeleteDataNode net i = run_only net (DeleteDataNodeCommand i)"

definition c_CreateMetaNode :: "'w network \<Rightarrow> u64 \<Rightarrow> string \<Rightarrow> string \<Rightarrow> client \<Rightarrow> 'w \<Rightarrow> ((meta_error + nodeInfo) \<times> client \<times> 'w) option" where
  "c_CreateMetaNode net rand http tcp = run net (CreateMetaNodeCommand http tcp rand) (\<lambda>c. case MetaNodeByAddr http c of
      None \<Rightarrow> (Inl (ErrOther ''new meta node not found''), c) | Some n \<Rightarrow> (Inr n, c\<lparr>c_nodeID := n_ID n\<rparr>))"

definition c_DeleteMetaNode :: "'w network \<Rightarrow> u64 \<Rightarrow> client \<Rightarrow> 'w \<Rightarrow> ((meta_error + unit) \<times> client \<times> 'w) option" where
  "c_DeleteMetaNode net i = run_only net (DeleteMetaNodeCommand i)"

definition c_CreateDatabase :: "'w network \<Rightarrow> string \<Rightarrow> client \<Rightarrow> 'w \<Rightarrow> ((meta_error + databaseInfo option) \<times> client \<times> 'w) option" where
  "c_CreateDatabase net name c w = (case c_Database name c of
      Some db \<Rightarrow> Some (Inr (Some db), c, w)
    | None \<Rightarrow> run net (CreateDatabaseCommand name None) (\<lambda>c. (Inr (c_Database name c), c)) c w)"

text \<open>The message of a policy; the replication factor is truncated to 32 bits.\<close>

definition spec_of :: "retentionPolicyInfo \<Rightarrow> rpSpec" where
  "spec_of rp = \<lparr>spec_Name = rp_Name rp, spec_ReplicaN = word_of_int (rp_ReplicaN rp), spec_Duration = rp_Duration rp,
     spec_ShardGroupDuration = rp_ShardGroupDuration rp\<rparr>"

definition duration_too_low :: "client_lib \<Rightarrow> rpOptions \<Rightarrow> bool" where
  "duration_too_low kl spec \<longleftrightarrow> (case ro_Duration spec of None \<Rightarrow> False | Some d \<Rightarrow> d < kl_MinRetentionPolicyDuration kl \<and> d \<noteq> 0)"

definition CreateDatabaseWithRetentionPolicy ::
  "'w network \<Rightarrow> client_lib \<Rightarrow> string \<Rightarrow> rpOptions option \<Rightarrow> client \<Rightarrow> 'w \<Rightarrow> ((meta_error + databaseInfo option) \<times> client \<times> 'w) option" where
  "CreateDatabaseWithRetentionPolicy net kl name spec c w = (case spec of
      None \<Rightarrow> Some (Inl (ErrOther ''CreateDatabaseWithRetentionPolicy called with nil spec''), c, w)
    | Some sp \<Rightarrow>
        if duration_too_low kl sp then Some (Inl (ErrOther ''retention policy duration must be at least 1h0m0s''), c, w)
        else let rpi = kl_NewRetentionPolicyInfo kl sp; cmd = CreateDatabaseCommand name (Some (spec_of rpi)) in
          case c_Database name c of
            None \<Rightarrow> run net cmd (\<lambda>c. (Inr (c_Database name c), c)) c w
          | Some db \<Rightarrow> (case kl_db_RetentionPolicy kl db (rp_Name rpi) of
              None \<Rightarrow> run net cmd (\<lambda>c. (Inr (c_Database name c), c)) c w
            | Some rp \<Rightarrow>
                if rp_ReplicaN rp \<noteq> rp_ReplicaN rpi \<or> rp_Duration rp \<noteq> rp_Duration rpi then Some (Inl ErrRetentionPolicyConflict, c, w)
                else Some (Inr (Some db), c, w)))"

definition c_DropDatabase :: "'w network \<Rightarrow> string \<Rightarrow> client \<Rightarrow> 'w \<Rightarrow> ((meta_error + unit) \<times> client \<times> 'w) option" where
  "c_DropDatabase net name = run_only net (DropDatabaseCommand name)"

definition c_CreateRetentionPolicy ::
  "'w network \<Rightarrow> client_lib \<Rightarrow> string \<Rightarrow> rpOptions \<Rightarrow> bool \<Rightarrow> client \<Rightarrow> 'w \<Rightarrow> ((meta_error + retentionPolicyInfo option) \<times> client \<times> 'w) option" where
  "c_CreateRetentionPolicy net kl database spec makeDefault c w =
     (if duration_too_low kl spec then Some (Inl (ErrOther ''retention policy duration must be at least 1h0m0s''), c, w)
      else let rpi = kl_NewRetentionPolicyInfo kl spec in
        case c_RetentionPolicy kl database (rp_Name rpi) c of
          Inr (Some rp) \<Rightarrow> Some (Inr (Some rp), c, w)
        | _ \<Rightarrow> run net (CreateRetentionPolicyCommand database (spec_of rpi) makeDefault) (\<lambda>c. (c_RetentionPolicy kl database (rp_Name rpi) c, c)) c w)"

definition c_DropRetentionPolicy :: "'w network \<Rightarrow> string \<Rightarrow> string \<Rightarrow> client \<Rightarrow> 'w \<Rightarrow> ((meta_error + unit) \<times> client \<times> 'w) option" where
  "c_DropRetentionPolicy net database name = run_only net (DropRetentionPolicyCommand database name)"

text \<open>The new duration of shard groups is not passed on.\<close>

definition c_UpdateRetentionPolicy ::
  "'w network \<Rightarrow> string \<Rightarrow> string \<Rightarrow> retentionPolicyUpdate \<Rightarrow> bool \<Rightarrow> client \<Rightarrow> 'w \<Rightarrow> ((meta_error + unit) \<times> client \<times> 'w) option" where
  "c_UpdateRetentionPolicy net database name rpu makeDefault =
     run_only net (UpdateRetentionPolicyCommand database name (rpu_Name rpu) (rpu_Duration rpu) (map_option word_of_int (rpu_ReplicaN rpu)) None (Some makeDefault))"

definition c_DropShard :: "'w network \<Rightarrow> u64 \<Rightarrow> client \<Rightarrow> 'w \<Rightarrow> ((meta_error + unit) \<times> client \<times> 'w) option" where
  "c_DropShard net i = run_only net (DropShardCommand i)"

definition UnixNano :: "time \<Rightarrow> int" where
  "UnixNano t = i64 (t - unixEpoch)"

definition c_CreateShardGroup ::
  "'w network \<Rightarrow> client_lib \<Rightarrow> string \<Rightarrow> string \<Rightarrow> time \<Rightarrow> client \<Rightarrow> 'w \<Rightarrow> ((meta_error + shardGroupInfo option) \<times> client \<times> 'w) option" where
  "c_CreateShardGroup net kl database policy timestamp c w = (case kl_data_ShardGroupByTimestamp kl (d_Data (c_cacheData c)) database policy timestamp of
      Some sg \<Rightarrow> Some (Inr (Some sg), c, w)
    | None \<Rightarrow> run net (CreateShardGroupCommand database policy (UnixNano timestamp)) (\<lambda>c. (case c_RetentionPolicy kl database policy c of
          Inl e \<Rightarrow> Inl e
        | Inr None \<Rightarrow> Inl (ErrOther ''retention policy deleted after shard group created'')
        | Inr (Some rpi) \<Rightarrow> Inr (kl_ShardGroupByTimestamp kl rpi timestamp), c)) c w)"

definition c_DeleteShardGroup :: "'w network \<Rightarrow> string \<Rightarrow> string \<Rightarrow> u64 \<Rightarrow> client \<Rightarrow> 'w \<Rightarrow> ((meta_error + unit) \<times> client \<times> 'w) option" where
  "c_DeleteShardGroup net database policy i = run_only net (DeleteShardGroupCommand database policy i)"

definition c_CreateContinuousQuery :: "'w network \<Rightarrow> string \<Rightarrow> string \<Rightarrow> string \<Rightarrow> client \<Rightarrow> 'w \<Rightarrow> ((meta_error + unit) \<times> client \<times> 'w) option" where
  "c_CreateContinuousQuery net database name query = run_only net (CreateContinuousQueryCommand database name query)"

definition c_DropContinuousQuery :: "'w network \<Rightarrow> string \<Rightarrow> string \<Rightarrow> client \<Rightarrow> 'w \<Rightarrow> ((meta_error + unit) \<times> client \<times> 'w) option" where
  "c_DropContinuousQuery net database name = run_only net (DropContinuousQueryCommand database name)"

definition c_CreateSubscription ::
  "'w network \<Rightarrow> string \<Rightarrow> string \<Rightarrow> string \<Rightarrow> string \<Rightarrow> string list \<Rightarrow> client \<Rightarrow> 'w \<Rightarrow> ((meta_error + unit) \<times> client \<times> 'w) option" where
  "c_CreateSubscription net database rp name mode destinations = run_only net (CreateSubscriptionCommand database rp name mode destinations)"

definition c_DropSubscription :: "'w network \<Rightarrow> string \<Rightarrow> string \<Rightarrow> string \<Rightarrow> client \<Rightarrow> 'w \<Rightarrow> ((meta_error + unit) \<times> client \<times> 'w) option" where
  "c_DropSubscription net database rp name = run_only net (DropSubscriptionCommand database rp name)"

definition SetData :: "'w network \<Rightarrow> u64 list \<Rightarrow> (u64 \<Rightarrow> u64 list) \<Rightarrow> data \<Rightarrow> client \<Rightarrow> 'w \<Rightarrow> ((meta_error + unit) \<times> client \<times> 'w) option" where
  "SetData net shards owners d = run_only net (SetDataCommand (marshal (nw_time net) shards owners d))"

text \<open>The loop over the policies of a database; the loop over the databases returns after its first round.\<close>

fun precreate :: "'w network \<Rightarrow> client_lib \<Rightarrow> time \<Rightarrow> time \<Rightarrow> string \<Rightarrow> retentionPolicyInfo list \<Rightarrow> client \<Rightarrow> 'w \<Rightarrow> ((meta_error + unit) \<times> client \<times> 'w) option" where
  "precreate net kl from to' db [] c w = Some (Inr (), c, w)"
| "precreate net kl from to' db (rp # rps) c w =
     (if rp_ShardGroups rp = [] then precreate net kl from to' db rps c w
      else let g = last (rp_ShardGroups rp) in
        if \<not> kl_Deleted kl g \<and> g_EndTime g < to' \<and> from < g_EndTime g
        then (case c_CreateShardGroup net kl db (rp_Name rp) (g_EndTime g + 1) c w of
            None \<Rightarrow> None
          | Some (Inr None, c', w') \<Rightarrow> Some (Inl MetaPanic, c', w')
          | Some (_, c', w') \<Rightarrow> precreate net kl from to' db rps c' w')
        else precreate net kl from to' db rps c w)"

definition PrecreateShardGroups :: "'w network \<Rightarrow> client_lib \<Rightarrow> time \<Rightarrow> time \<Rightarrow> client \<Rightarrow> 'w \<Rightarrow> ((meta_error + unit) \<times> client \<times> 'w) option" where
  "PrecreateShardGroups net kl from to' c w = (case Databases c of
      [] \<Rightarrow> Some (Inr (), c, w)
    | db # _ \<Rightarrow> precreate net kl from to' (db_Name db) (db_RetentionPolicies db) c w)"

subsection \<open>Users\<close>

definition hashWithSalt :: "client_lib \<Rightarrow> bytes \<Rightarrow> string \<Rightarrow> bytes" where
  "hashWithSalt kl salt password = kl_sha256 kl (salt @ map of_char password)"

definition SaltBytes :: nat where "SaltBytes = 32"

definition saltedHash :: "client_lib \<Rightarrow> string \<Rightarrow> meta_error + bytes \<times> bytes" where
  "saltedHash kl password = (case kl_readSalt kl SaltBytes of Inl e \<Rightarrow> Inl e | Inr salt \<Rightarrow> Inr (salt, hashWithSalt kl salt password))"

definition c_CreateUser :: "'w network \<Rightarrow> client_lib \<Rightarrow> string \<Rightarrow> string \<Rightarrow> bool \<Rightarrow> client \<Rightarrow> 'w \<Rightarrow> ((meta_error + userInfo) \<times> client \<times> 'w) option" where
  "c_CreateUser net kl name password admin c w = (case find_user name (c_cacheData c) of
      Some u \<Rightarrow> if \<not> kl_bcrypt_compare kl (u_Hash u) password \<or> u_Admin u \<noteq> admin then Some (Inl (ErrOther ''user already exists''), c, w) else Some (Inr u, c, w)
    | None \<Rightarrow> (case kl_bcrypt_generate kl password of
        Inl e \<Rightarrow> Some (Inl e, c, w)
      | Inr hash \<Rightarrow> run net (CreateUserCommand name hash admin) (\<lambda>c. (c_User name c, c)) c w))"

definition c_UpdateUser :: "'w network \<Rightarrow> client_lib \<Rightarrow> string \<Rightarrow> string \<Rightarrow> client \<Rightarrow> 'w \<Rightarrow> ((meta_error + unit) \<times> client \<times> 'w) option" where
  "c_UpdateUser net kl name password c w = (case kl_bcrypt_generate kl password of
      Inl e \<Rightarrow> Some (Inl e, c, w) | Inr hash \<Rightarrow> run_only net (UpdateUserCommand name hash) c w)"

definition c_DropUser :: "'w network \<Rightarrow> string \<Rightarrow> client \<Rightarrow> 'w \<Rightarrow> ((meta_error + unit) \<times> client \<times> 'w) option" where
  "c_DropUser net name = run_only net (DropUserCommand name)"

definition c_SetPrivilege :: "'w network \<Rightarrow> string \<Rightarrow> string \<Rightarrow> int \<Rightarrow> client \<Rightarrow> 'w \<Rightarrow> ((meta_error + unit) \<times> client \<times> 'w) option" where
  "c_SetPrivilege net username database p = run_only net (SetPrivilegeCommand username database p)"

definition c_SetAdminPrivilege :: "'w network \<Rightarrow> string \<Rightarrow> bool \<Rightarrow> client \<Rightarrow> 'w \<Rightarrow> ((meta_error + unit) \<times> client \<times> 'w) option" where
  "c_SetAdminPrivilege net username admin = run_only net (SetAdminPrivilegeCommand username admin)"

definition Authenticate :: "client_lib \<Rightarrow> string \<Rightarrow> string \<Rightarrow> client \<Rightarrow> (meta_error + userInfo) \<times> client" where
  "Authenticate kl username password c = (case find_user username (c_cacheData c) of
      None \<Rightarrow> (Inl (ErrOther ''user not found''), c)
    | Some u \<Rightarrow>
        if (case c_authCache c username of None \<Rightarrow> False | Some au \<Rightarrow> hashWithSalt kl (au_salt au) password = au_hash au) then (Inr u, c)
        else if \<not> kl_bcrypt_compare kl (u_Hash u) password then (Inl (ErrOther ''authentication failed''), c)
        else case saltedHash kl password of
          Inl e \<Rightarrow> (Inl e, c)
        | Inr (salt, hashed) \<Rightarrow> (Inr u, c\<lparr>c_authCache := (c_authCache c)(username \<mapsto> \<lparr>au_bhash = u_Hash u, au_salt = salt, au_hash = hashed\<rparr>)\<rparr>))"

subsection \<open>Lemmas: reading what was written\<close>

lemma waitForIndex_reaches:
  assumes "waitForIndex net idx c w = Some y"
  shows "idx \<le> c_index (fst y)"
proof (rule waitForIndex.raw_induct [OF _ assms])
  fix f :: "'w network \<Rightarrow> u64 \<Rightarrow> client \<Rightarrow> 'w \<Rightarrow> (client \<times> 'w) option" and net idx c w y
  assume IH: "\<And>net idx c w y. f net idx c w = Some y \<Longrightarrow> idx \<le> c_index (fst y)"
    and "(if idx \<le> c_index c then Some (c, w) else case retryUntilSnapshot net (c_index c) 0 c w of
        Some (Inr (Some d), w') \<Rightarrow> f net idx (poll_update d c) w' | _ \<Rightarrow> None) = Some y"
  then show "idx \<le> c_index (fst y)"
    by (cases "idx \<le> c_index c") (auto split: option.splits sum.splits dest: IH)
qed

lemma getSnapshot_users: "getSnapshot net server idx w = (Inr d, w') \<Longrightarrow> md_Users (d_Data d) = []"
  by (auto simp: getSnapshot_def UnmarshalBinary_def unmarshal_def split: prod.splits sum.splits)

lemma retryUntilSnapshot_users:
  assumes "retryUntilSnapshot net idx cur c w = Some y"
  shows "\<forall>d. fst y = Inr (Some d) \<longrightarrow> md_Users (d_Data d) = []"
proof (rule retryUntilSnapshot.raw_induct [OF _ assms])
  fix f :: "'w network \<Rightarrow> u64 \<Rightarrow> nat \<Rightarrow> client \<Rightarrow> 'w \<Rightarrow> ((meta_error + data option) \<times> 'w) option" and net idx cur c w y
  assume IH: "\<And>net idx cur c w y. f net idx cur c w = Some y \<Longrightarrow> \<forall>d. fst y = Inr (Some d) \<longrightarrow> md_Users (d_Data d) = []"
    and y: "(if nw_closed net w then Some (Inr None, w)
      else let cur = (if cur \<ge> length (c_metaServers c) then 0 else cur) in
        if c_metaServers c = [] then Some (Inl MetaPanic, w)
        else case getSnapshot net (c_metaServers c ! cur) idx w of
          (Inr d, w') \<Rightarrow> Some (Inr (Some d), w')
        | (Inl e, w') \<Rightarrow> f net idx (cur + 1) c w') = Some y"
  let ?cur = "if cur \<ge> length (c_metaServers c) then 0 else cur"
  obtain r w1 where r: "getSnapshot net (c_metaServers c ! ?cur) idx w = (r, w1)" by (metis surj_pair)
  show "\<forall>d. fst y = Inr (Some d) \<longrightarrow> md_Users (d_Data d) = []"
  proof (cases "nw_closed net w \<or> c_metaServers c = []")
    case True
    then show ?thesis using y by (auto simp: Let_def split: if_splits)
  next
    case False
    then show ?thesis using y r IH getSnapshot_users by (cases r) (auto simp: Let_def)
  qed
qed

lemma waitForIndex_users:
  assumes "waitForIndex net idx c w = Some y"
  shows "md_Users (d_Data (c_cacheData c)) = [] \<longrightarrow> md_Users (d_Data (c_cacheData (fst y))) = []"
proof (rule waitForIndex.raw_induct [OF _ assms])
  fix f :: "'w network \<Rightarrow> u64 \<Rightarrow> client \<Rightarrow> 'w \<Rightarrow> (client \<times> 'w) option" and net idx c w y
  assume IH: "\<And>net idx c w y. f net idx c w = Some y \<Longrightarrow> md_Users (d_Data (c_cacheData c)) = [] \<longrightarrow> md_Users (d_Data (c_cacheData (fst y))) = []"
    and y: "(if idx \<le> c_index c then Some (c, w) else case retryUntilSnapshot net (c_index c) 0 c w of
        Some (Inr (Some d), w') \<Rightarrow> f net idx (poll_update d c) w' | _ \<Rightarrow> None) = Some y"
  show "md_Users (d_Data (c_cacheData c)) = [] \<longrightarrow> md_Users (d_Data (c_cacheData (fst y))) = []"
  proof (cases "idx \<le> c_index c")
    case False
    with y obtain d w' where d: "retryUntilSnapshot net (c_index c) 0 c w = Some (Inr (Some d), w')" "f net idx (poll_update d c) w' = Some y"
      by (auto split: option.splits sum.splits)
    have "md_Users (d_Data (c_cacheData (poll_update d c))) = []"
      using retryUntilSnapshot_users [OF d(1)] by (simp add: poll_update_def updateAuthCache_def)
    then show ?thesis using IH [OF d(2)] by simp
  qed (use y in auto)
qed

lemma retry_users:
  "retry net n cur redirect cmd c w = Some (r, c', w') \<Longrightarrow> md_Users (d_Data (c_cacheData c)) = [] \<Longrightarrow> md_Users (d_Data (c_cacheData c')) = []"
proof (induction net n cur redirect cmd c w rule: retry.induct)
  case (1 net n cur redirect cmd c w)
  show ?case
  proof (cases "nw_closed net w \<or> next_url c cur redirect = None")
    case True
    then show ?thesis using 1(3,4) by (auto simp: retry.simps [of net n cur] split: if_splits)
  next
    case False
    then obtain u k where u: "\<not> nw_closed net w" "next_url c cur redirect = Some (u, k)" by auto
    obtain res w1 where e: "exec net u cmd w = (res, w1)" by (metis surj_pair)
    show ?thesis
    proof (cases res)
      case (Inr index)
      then obtain y where "waitForIndex net index c w1 = Some y" "y = (c', w')"
        using 1(3) u e by (auto simp: retry.simps [of net n cur] split: option.splits)
      then show ?thesis using waitForIndex_users [of net index c w1 y] 1(4) by auto
    next
      case (Inl err)
      then show ?thesis using 1 u e by (cases err) (auto simp: retry.simps [of net n cur] split: if_splits)
    qed
  qed
qed

text \<open>One attempt that did not reach a decision: the next server, or the one the client was sent to, is asked next.\<close>

inductive tried :: "'w network \<Rightarrow> command \<Rightarrow> client \<Rightarrow> nat \<times> string \<times> 'w \<Rightarrow> nat \<times> string \<times> 'w \<Rightarrow> bool" for net cmd c where
  redirected: "\<not> nw_closed net w \<Longrightarrow> next_url c cur redirect = Some (u, k) \<Longrightarrow> exec net u cmd w = (Inl (errRedirect host), w') \<Longrightarrow>
    tried net cmd c (cur, redirect, w) (k + 1, host, w')"
| failed: "\<not> nw_closed net w \<Longrightarrow> next_url c cur redirect = Some (u, k) \<Longrightarrow> exec net u cmd w = (Inl (errOther e), w') \<Longrightarrow>
    tried net cmd c (cur, redirect, w) (k + 1, [], w')"

text \<open>The run has come to a server that accepts the command, and the client waits for the index of the answer.\<close>

definition accepts :: "'w network \<Rightarrow> command \<Rightarrow> client \<Rightarrow> nat \<times> string \<times> 'w \<Rightarrow> u64 \<Rightarrow> client \<Rightarrow> 'w \<Rightarrow> bool" where
  "accepts net cmd c x index c' w' = (case x of (cur, redirect, w) \<Rightarrow> \<not> nw_closed net w \<and>
     (\<exists>u k w1. next_url c cur redirect = Some (u, k) \<and> exec net u cmd w = (Inr index, w1) \<and> waitForIndex net index c w1 = Some (c', w')))"

lemma retry_accepted:
  "retry net n cur redirect cmd c w = Some (None, c', w') \<Longrightarrow>
     \<exists>x. (tried net cmd c)\<^sup>*\<^sup>* (cur, redirect, w) x \<and>
       (nw_closed net (snd (snd x)) \<and> c' = c \<and> w' = snd (snd x) \<or> (\<exists>index. accepts net cmd c x index c' w'))"
proof (induction net n cur redirect cmd c w rule: retry.induct)
  case (1 net n cur redirect cmd c w)
  show ?case
  proof (cases "nw_closed net w \<or> next_url c cur redirect = None")
    case True
    then show ?thesis using 1(3) by (intro exI [of _ "(cur, redirect, w)"]) (auto simp: retry.simps [of net n cur] split: if_splits)
  next
    case False
    then obtain u k where u: "\<not> nw_closed net w" "next_url c cur redirect = Some (u, k)" by auto
    obtain res w1 where e: "exec net u cmd w = (res, w1)" by (metis surj_pair)
    consider index where "res = Inr index" | host where "res = Inl (errRedirect host)" "n \<noteq> 0" | x where "res = Inl (errOther x)" "n \<noteq> 0"
      using 1(3) u e by (cases res; cases "projl res") (auto simp: retry.simps [of net n cur] split: if_splits)
    then show ?thesis
    proof cases
      case 1: 1
      then have "accepts net cmd c (cur, redirect, w) index c' w'"
        using "1.prems" u e by (auto simp: accepts_def retry.simps [of net n cur] split: option.splits)
      then show ?thesis by (intro exI [of _ "(cur, redirect, w)"]) auto
    next
      case 2
      have t: "tried net cmd c (cur, redirect, w) (k + 1, host, w1)" using u e 2 by (intro tried.redirected) auto
      have "retry net (n - 1) (k + 1) host cmd c w1 = Some (None, c', w')" using "1.prems" u e 2 by (simp add: retry.simps [of net n cur])
      from "1.IH"(1) [OF u(1,2) refl _ refl 2(2) refl this] obtain y where y: "(tried net cmd c)\<^sup>*\<^sup>* (k + 1, host, w1) y"
        "nw_closed net (snd (snd y)) \<and> c' = c \<and> w' = snd (snd y) \<or> (\<exists>index. accepts net cmd c y index c' w')"
        using e 2(1) by auto
      show ?thesis using converse_rtranclp_into_rtranclp [OF t y(1)] y(2) by (intro exI [of _ y] conjI)
    next
      case 3
      have t: "tried net cmd c (cur, redirect, w) (k + 1, [], w1)" using u e 3 by (intro tried.failed) auto
      have "retry net (n - 1) (k + 1) [] cmd c w1 = Some (None, c', w')" using "1.prems" u e 3 by (simp add: retry.simps [of net n cur])
      from "1.IH"(2) [OF u(1,2) refl _ refl 3(2) refl this] obtain y where y: "(tried net cmd c)\<^sup>*\<^sup>* (k + 1, [], w1) y"
        "nw_closed net (snd (snd y)) \<and> c' = c \<and> w' = snd (snd y) \<or> (\<exists>index. accepts net cmd c y index c' w')"
        using e 3(1) by auto
      show ?thesis using converse_rtranclp_into_rtranclp [OF t y(1)] y(2) by (intro exI [of _ y] conjI)
    qed
  qed
qed

text \<open>C17: when a client reports a command as done, the run of its attempts, each of which failed or was redirected to the server of the next, either
  ended because the client was closed, and left its copy as it was; or it came to a server that accepted the command with an
  index, and when the client reports success its own copy of the metadata has at least this index.\<close>

theorem read_your_writes:
  assumes "retryUntilExec net cmd c w = Some (None, c', w')"
  shows "\<exists>cur redirect w1. (tried net cmd c)\<^sup>*\<^sup>* (0, [], w) (cur, redirect, w1) \<and>
    (nw_closed net w1 \<and> c' = c \<and> w' = w1 \<or>
     (\<exists>u k index w2. \<not> nw_closed net w1 \<and> next_url c cur redirect = Some (u, k) \<and> exec net u cmd w1 = (Inr index, w2) \<and>
        waitForIndex net index c w2 = Some (c', w') \<and> index \<le> c_index c'))"
proof -
  obtain x where x: "(tried net cmd c)\<^sup>*\<^sup>* (0, [], w) x"
    "nw_closed net (snd (snd x)) \<and> c' = c \<and> w' = snd (snd x) \<or> (\<exists>index. accepts net cmd c x index c' w')"
    using retry_accepted [of net maxRetries 0 "[]" cmd c w c' w'] assms by (auto simp: retryUntilExec_def)
  obtain cur redirect w1 where eq: "x = (cur, redirect, w1)" by (cases x)
  show ?thesis using x waitForIndex_reaches unfolding eq accepts_def by fastforce
qed

text \<open>No user can ever log in. The copy of the metadata that a client polls has no users, so that creating a user reports that the user
  does not exist, there is no administrator, and authentication fails for every name and password.\<close>

theorem clients_know_no_users:
  assumes "retryUntilSnapshot net 0 0 c w = Some (Inr (Some d), w1)" "c_CreateUser net kl name password admin (poll_update d c) w1 = Some (r, c', w')"
  shows "(\<exists>e. r = Inl e) \<and> \<not> AdminUserExists c' \<and> fst (Authenticate kl name' password' c') = Inl (ErrOther ''user not found'')"
proof -
  have u: "md_Users (d_Data (c_cacheData (poll_update d c))) = []"
    using retryUntilSnapshot_users [OF assms(1)] by (simp add: poll_update_def updateAuthCache_def)
  have "(\<exists>e. r = Inl e) \<and> md_Users (d_Data (c_cacheData c')) = []"
    using assms(2) u retry_users [of net maxRetries 0 "[]"]
    by (auto simp: c_CreateUser_def find_user_def run_def retryUntilExec_def c_User_def Users_def split: sum.splits option.splits)
  then show ?thesis by (auto simp: AdminUserExists_def Users_def Authenticate_def find_user_def)
qed

subsection \<open>Lemmas: the cache of logins\<close>

text \<open>A cached login belongs to a user with the same stored hash and was made with a password that matches this hash.\<close>

definition auth_ok :: "client_lib \<Rightarrow> client \<Rightarrow> bool" where
  "auth_ok kl c \<longleftrightarrow> distinct (map u_Name (Users c)) \<and> (\<forall>name au. c_authCache c name = Some au \<longrightarrow>
     (\<exists>u p. find_user name (c_cacheData c) = Some u \<and> au_bhash au = u_Hash u \<and> au_hash au = hashWithSalt kl (au_salt au) p \<and> kl_bcrypt_compare kl (u_Hash u) p))"

lemma find_user_unique: "distinct (map u_Name us) \<Longrightarrow> u \<in> set us \<Longrightarrow> find (\<lambda>x. u_Name x = u_Name u) us = Some u"
  by (induction us) (auto simp: image_iff)

lemma updateAuthCache_keeps:
  "fold (\<lambda>u newCache. case cache (u_Name u) of
      Some cached \<Rightarrow> if au_bhash cached = u_Hash u then newCache(u_Name u \<mapsto> cached) else newCache
    | None \<Rightarrow> newCache) us m name = Some au \<Longrightarrow>
   m name = Some au \<or> (\<exists>u \<in> set us. u_Name u = name \<and> cache name = Some au \<and> au_bhash au = u_Hash u)"
proof (induction us arbitrary: m)
  case (Cons u us)
  from Cons.IH [OF Cons.prems [unfolded fold_simps]] show ?case by (auto split: option.splits if_splits)
qed simp

lemma auth_ok_poll_update:
  assumes "auth_ok kl c" "distinct (map u_Name (md_Users (d_Data d)))"
  shows "auth_ok kl (poll_update d c)"
  unfolding auth_ok_def
proof (intro conjI allI impI)
  show "distinct (map u_Name (Users (poll_update d c)))" using assms(2) by (simp add: Users_def poll_update_def updateAuthCache_def)
next
  fix name au assume "c_authCache (poll_update d c) name = Some au"
  then obtain u where u: "u \<in> set (md_Users (d_Data d))" "u_Name u = name" "c_authCache c name = Some au" "au_bhash au = u_Hash u"
    by (auto simp: poll_update_def updateAuthCache_def dest!: updateAuthCache_keeps)
  have "find_user name (c_cacheData (poll_update d c)) = Some u"
    using find_user_unique [OF assms(2) u(1)] u(2) by (simp add: find_user_def poll_update_def updateAuthCache_def)
  then show "\<exists>u p. find_user name (c_cacheData (poll_update d c)) = Some u \<and> au_bhash au = u_Hash u \<and> au_hash au = hashWithSalt kl (au_salt au) p \<and>
      kl_bcrypt_compare kl (u_Hash u) p" using assms(1) u(3,4) unfolding auth_ok_def by metis
qed

text \<open>C37: who may log in. A login succeeds only for a user that exists, with a password that matches the stored hash, or one whose salted
  SHA-256 hash is that of a matching password in the cache; it does succeed for a user and a matching password if salt
  can be read, whatever is in the cache. The cache stays sound through logins and through updates of the metadata that
  change passwords or remove users.\<close>

theorem Authenticate_correct:
  assumes "auth_ok kl c"
  shows "(\<forall>u. fst (Authenticate kl name password c) = Inr u \<longrightarrow> find_user name (c_cacheData c) = Some u \<and>
      (kl_bcrypt_compare kl (u_Hash u) password \<or>
       (\<exists>au p. c_authCache c name = Some au \<and> kl_bcrypt_compare kl (u_Hash u) p \<and> hashWithSalt kl (au_salt au) password = hashWithSalt kl (au_salt au) p))) \<and>
    (\<forall>u salt. find_user name (c_cacheData c) = Some u \<and> kl_bcrypt_compare kl (u_Hash u) password \<and> kl_readSalt kl SaltBytes = Inr salt \<longrightarrow>
      fst (Authenticate kl name password c) = Inr u) \<and>
    auth_ok kl (snd (Authenticate kl name password c)) \<and>
    (\<forall>d. distinct (map u_Name (md_Users (d_Data d))) \<longrightarrow> auth_ok kl (poll_update d (snd (Authenticate kl name password c))))"
proof (cases "find_user name (c_cacheData c)")
  case None
  then show ?thesis using assms auth_ok_poll_update by (simp add: Authenticate_def)
next
  case (Some v)
  let ?hit = "\<exists>au. c_authCache c name = Some au \<and> hashWithSalt kl (au_salt au) password = au_hash au"
  have hit: "\<exists>au p. c_authCache c name = Some au \<and> kl_bcrypt_compare kl (u_Hash v) p \<and> hashWithSalt kl (au_salt au) password = hashWithSalt kl (au_salt au) p" if ?hit
    using that assms Some unfolding auth_ok_def by (metis option.inject)
  let ?c = "\<lambda>salt. c\<lparr>c_authCache := (c_authCache c)(name \<mapsto> \<lparr>au_bhash = u_Hash v, au_salt = salt, au_hash = hashWithSalt kl salt password\<rparr>)\<rparr>"
  have new: "auth_ok kl (?c salt)" if "kl_bcrypt_compare kl (u_Hash v) password" for salt
    using that assms Some by (auto simp: auth_ok_def Users_def)
  have a: "Authenticate kl name password c = (if ?hit then (Inr v, c)
      else if \<not> kl_bcrypt_compare kl (u_Hash v) password then (Inl (ErrOther ''authentication failed''), c)
      else case kl_readSalt kl SaltBytes of Inl e \<Rightarrow> (Inl e, c) | Inr salt \<Rightarrow> (Inr v, ?c salt))"
    using Some by (auto simp: Authenticate_def saltedHash_def split: option.splits sum.splits)
  have ok: "auth_ok kl (snd (Authenticate kl name password c))" unfolding a using assms new by (auto split: sum.split)
  show ?thesis
    using ok auth_ok_poll_update [OF ok] hit Some unfolding a by (cases ?hit) (auto split: sum.split)
qed

subsection \<open>Witnesses\<close>

text \<open>A server that accepts every command at index five, whose snapshots are those of one message.\<close>

definition sample_net :: "unit network" where
  "sample_net = \<lparr>nw_post = (\<lambda>_ _ w. (Inr \<lparr>hr_StatusCode = 200, hr_Location = [], hr_Body = Inr ([], 5)\<rparr>, w)),
     nw_snapshot = (\<lambda>_ _ w. (Inr [1], w)), nw_peers = (\<lambda>_ w. (None, w)), nw_closed = (\<lambda>_. False),
     nw_proto = one_message (marshal plain_time [] (\<lambda>_. []) (f_data (stamp 1 7 (newStore True)))), nw_time = plain_time\<rparr>"

definition sample_client :: client where
  "sample_client = NewClient\<lparr>c_metaServers := [''a'']\<rparr>"

definition sample_lib :: client_lib where
  "sample_lib = \<lparr>kl_db_RetentionPolicy = (\<lambda>db name. find (\<lambda>rp. rp_Name rp = name) (db_RetentionPolicies db)),
     kl_data_RetentionPolicy = (\<lambda>_ _ _. Inr None), kl_data_ShardGroupByTimestamp = (\<lambda>_ _ _ _. None), kl_ShardGroupByTimestamp = (\<lambda>_ _. None),
     kl_Deleted = (\<lambda>g. g_DeletedAt g \<noteq> 0), kl_Overlaps = (\<lambda>g a b. g_StartTime g \<le> b \<and> a < g_EndTime g), kl_OwnedBy = (\<lambda>s i. i \<in> set (s_Owners s)),
     kl_NewRetentionPolicyInfo = (\<lambda>_. lib_NewRetentionPolicyInfo plain_lib ''rp''), kl_MinRetentionPolicyDuration = 0,
     kl_bcrypt_compare = (\<lambda>h p. h = p), kl_bcrypt_generate = (\<lambda>p. Inr p), kl_sha256 = (\<lambda>b. b), kl_readSalt = (\<lambda>n. Inr (replicate n 0))\<rparr>"

abbreviation sample_data :: data where
  "sample_data \<equiv> unmarshal plain_time (marshal plain_time [] (\<lambda>_. []) (f_data (stamp 1 7 (newStore True))))"

lemma sample_snapshot: "c_metaServers c = [''a''] \<Longrightarrow> retryUntilSnapshot sample_net idx 0 c () = Some (Inr (Some sample_data), ())"
  by (subst retryUntilSnapshot.simps) (simp add: sample_net_def getSnapshot_def UnmarshalBinary_def one_message_def)

lemma sample_exec:
  assumes "c_metaServers c = [''a'']" "c_index c \<le> 7"
  shows "\<exists>c'. retryUntilExec sample_net cmd c () = Some (None, c', ())"
proof -
  have "waitForIndex sample_net 5 c' () = Some (c', ())" if "5 \<le> c_index c'" for c' using that by (subst waitForIndex.simps) simp
  moreover have "c_index (poll_update sample_data c) = 7"
    by (simp add: poll_update_def updateAuthCache_def unmarshal_def marshal_def stamp_def)
  ultimately have "\<exists>c'. waitForIndex sample_net 5 c () = Some (c', ())"
    by (subst waitForIndex.simps) (simp add: sample_snapshot [OF assms(1)])
  then show ?thesis using assms(1)
    by (auto simp: retryUntilExec_def retry.simps [of _ maxRetries] next_url_def exec_def Let_def sample_net_def [THEN arg_cong [where f = nw_post]]
        sample_net_def [THEN arg_cong [where f = nw_closed]])
qed

theorem read_your_writes_witness:
  "\<exists>c'. retryUntilExec sample_net (DropDatabaseCommand ''db'') sample_client () = Some (None, c', ()) \<and> 5 \<le> c_index c'"
proof -
  obtain c' where c': "retryUntilExec sample_net (DropDatabaseCommand ''db'') sample_client () = Some (None, c', ())"
    using sample_exec [of sample_client] by (auto simp: sample_client_def NewClient_def)
  from read_your_writes [OF this] have "5 \<le> c_index c'" by (auto simp: sample_net_def exec_def)
  then show ?thesis using c' by blast
qed

theorem clients_know_no_users_witness:
  "\<exists>r c'. c_CreateUser sample_net sample_lib ''bob'' ''secret'' True (poll_update sample_data sample_client) () = Some (r, c', ()) \<and>
     fst (Authenticate sample_lib ''bob'' ''secret'' c') = Inl (ErrOther ''user not found'')"
proof -
  have snap: "retryUntilSnapshot sample_net 0 0 sample_client () = Some (Inr (Some sample_data), ())" by (rule sample_snapshot) (simp add: sample_client_def)
  have "c_metaServers (poll_update sample_data sample_client) = [''a'']" "c_index (poll_update sample_data sample_client) \<le> 7"
    by (simp_all add: sample_client_def poll_update_def updateAuthCache_def unmarshal_def marshal_def stamp_def)
  from sample_exec [OF this, of "CreateUserCommand ''bob'' ''secret'' True"] obtain r c'
    where r: "c_CreateUser sample_net sample_lib ''bob'' ''secret'' True (poll_update sample_data sample_client) () = Some (r, c', ())"
    by (auto simp: c_CreateUser_def find_user_def poll_update_def updateAuthCache_def unmarshal_def sample_lib_def run_def split: prod.splits)
  from clients_know_no_users [OF snap r] r show ?thesis by blast
qed

definition bob :: userInfo where
  "bob = \<lparr>u_Name = ''bob'', u_Hash = ''secret'', u_Admin = True, u_Privileges = []\<rparr>"

definition client_with_bob :: client where
  "client_with_bob = sample_client\<lparr>c_cacheData := (c_cacheData sample_client)\<lparr>d_Data := (d_Data (c_cacheData sample_client))\<lparr>md_Users := [bob]\<rparr>\<rparr>\<rparr>"

theorem Authenticate_correct_witness:
  "fst (Authenticate sample_lib ''bob'' ''secret'' client_with_bob) = Inr bob \<and> fst (Authenticate sample_lib ''bob'' ''guess'' client_with_bob) \<noteq> Inr bob \<and>
   auth_ok sample_lib (snd (Authenticate sample_lib ''bob'' ''secret'' client_with_bob))"
proof -
  have ok: "auth_ok sample_lib client_with_bob" "find_user ''bob'' (c_cacheData client_with_bob) = Some bob" "c_authCache client_with_bob = Map.empty"
    by (simp_all add: auth_ok_def Users_def client_with_bob_def bob_def sample_client_def NewClient_def find_user_def)
  have "kl_bcrypt_compare sample_lib (u_Hash bob) ''secret''" "\<not> kl_bcrypt_compare sample_lib (u_Hash bob) ''guess''"
    "kl_readSalt sample_lib SaltBytes = Inr (replicate SaltBytes 0)" by (simp_all add: sample_lib_def bob_def)
  note lib = this
  have "fst (Authenticate sample_lib ''bob'' ''secret'' client_with_bob) = Inr bob"
    using Authenticate_correct [OF ok(1), of "''bob''" "''secret''", THEN conjunct2, THEN conjunct1] ok(2) lib(1,3) by simp
  moreover have "fst (Authenticate sample_lib ''bob'' ''guess'' client_with_bob) \<noteq> Inr bob"
    using Authenticate_correct [OF ok(1), of "''bob''" "''guess''", THEN conjunct1] ok(3) lib(2) by auto
  ultimately show ?thesis using Authenticate_correct [OF ok(1), of "''bob''" "''secret''", THEN conjunct2, THEN conjunct2, THEN conjunct1] by (intro conjI)
qed

end
