(* ===== verification/Go_Search.thy ===== *)
theory Go_Search
  imports Prelude
begin

text \<open>
  Binary search as in Go's standard library (\<^verbatim>\<open>sort.Search\<close>): the smallest index at which a monotone predicate holds.
\<close>

function search_between :: "(nat \<Rightarrow> bool) \<Rightarrow> nat \<Rightarrow> nat \<Rightarrow> nat" where
  "search_between f i j = (if i < j then let h = (i + j) div 2 in if \<not> f h then search_between f (h + 1) j else search_between f i h else i)"
  by pat_completeness auto

termination
  by (relation "measure (\<lambda>(f, i, j). j - i)") auto

declare search_between.simps [simp del]

definition sort_Search :: "nat \<Rightarrow> (nat \<Rightarrow> bool) \<Rightarrow> nat" where
  "sort_Search n f = search_between f 0 n"

lemma search_between_spec:
  assumes "i \<le> j" "\<And>k l. k \<le> l \<Longrightarrow> l < n \<Longrightarrow> f k \<Longrightarrow> f l" "j \<le> n"
    and "\<forall>k < i. \<not> f k" "\<forall>k. j \<le> k \<longrightarrow> k < n \<longrightarrow> f k"
  shows "search_between f i j \<le> n \<and> (\<forall>k < n. f k \<longleftrightarrow> search_between f i j \<le> k)"
  using assms
proof (induction f i j rule: search_between.induct)
  case (1 f i j)
  show ?case
  proof (cases "i < j")
    case True
    let ?h = "(i + j) div 2"
    have h: "i \<le> ?h" "?h < j" using True by auto
    show ?thesis
    proof (cases "f ?h")
      case False
      have rec: "search_between f i j = search_between f (?h + 1) j" using True False by (simp add: search_between.simps [of f i j] Let_def)
      have "\<not> f k" if "k < ?h + 1" for k using "1.prems"(2) [of k ?h] "1.prems"(3) False h that by auto
      then show ?thesis unfolding rec using h "1.prems"(2,3,5) by (intro "1.IH"(1) [OF True refl False]) auto
    next
      case t: True
      have rec: "search_between f i j = search_between f i ?h" using True t by (simp add: search_between.simps [of f i j] Let_def)
      have "f k" if "?h \<le> k" "k < n" for k using "1.prems"(2) [of ?h k] t that by blast
      then show ?thesis unfolding rec using h "1.prems"(2,3,4) t by (intro "1.IH"(2) [OF True refl]) auto
    qed
  next
    case False
    then have "search_between f i j = i" "i = j" using "1.prems"(1) by (simp_all add: search_between.simps)
    then show ?thesis using "1.prems"(3-) by auto (meson not_le)
  qed
qed

lemma sort_Search_spec:
  assumes "\<And>k l. k \<le> l \<Longrightarrow> l < n \<Longrightarrow> f k \<Longrightarrow> f l"
  shows "sort_Search n f \<le> n" "k < n \<Longrightarrow> f k \<longleftrightarrow> sort_Search n f \<le> k"
  using search_between_spec [of 0 n n f, OF _ assms] by (simp_all add: sort_Search_def)

text \<open>The case of a sorted key.\<close>

lemma sort_Search_sorted:
  fixes key :: "'a \<Rightarrow> 'b :: linorder"
  assumes "sorted (map key xs)"
  shows "sort_Search (length xs) (\<lambda>i. v < key (xs ! i)) \<le> length xs"
    and "k < length xs \<Longrightarrow> v < key (xs ! k) \<longleftrightarrow> sort_Search (length xs) (\<lambda>i. v < key (xs ! i)) \<le> k"
proof -
  have m: "v < key (xs ! l)" if "k \<le> l" "l < length xs" "v < key (xs ! k)" for k l
  proof -
    have "key (xs ! k) \<le> key (xs ! l)" using sorted_nth_mono [OF assms, of k l] that by simp
    then show ?thesis using that(3) by simp
  qed
  show "sort_Search (length xs) (\<lambda>i. v < key (xs ! i)) \<le> length xs"
    by (rule sort_Search_spec(1)) (rule m)
  show "v < key (xs ! k) \<longleftrightarrow> sort_Search (length xs) (\<lambda>i. v < key (xs ! i)) \<le> k" if "k < length xs"
    using that by (rule sort_Search_spec(2) [rotated]) (rule m)
qed

end
