(* ===== verification/Point_Writer.thy ===== *)
theory Point_Writer
  imports Meta_Codec Go_Search "HOL-Library.AList"
begin

text \<open>
  The write path of the cluster, \<^verbatim>\<open>services/data/point_writer.go\<close>: points are mapped to shards, creating shard groups on the way, and every
  shard is written to its owners until the requested consistency level is reached. The metadata client, the local store, the remote
  writer and the hinted handoff are arguments, as is the order in which answers, timeouts and the closing of the writer arrive.
  A map that is iterated over is an association list. Statistics and subscribers are left out.
\<close>

record 'v point =
  p_Time :: time
  p_HashID :: u64
  p_Body :: 'v

datatype write_error =
  ErrTimeout | ErrPartialWrite | ErrWriteFailed | WriteFailed write_error | PartialWriteError nat
| ErrDatabaseNotFound string | RetentionPolicyNotFound string | NilShardGroup | MetaError meta_error
| ErrShardNotFound | StoreError string

datatype consistencyLevel = ConsistencyLevelAny | ConsistencyLevelOne | ConsistencyLevelQuorum | ConsistencyLevelAll

record 'm metaClient =
  mc_Database :: "string \<Rightarrow> 'm \<Rightarrow> databaseInfo option"
  mc_RetentionPolicy :: "string \<Rightarrow> string \<Rightarrow> 'm \<Rightarrow> meta_error + retentionPolicyInfo option"
  mc_CreateShardGroup :: "string \<Rightarrow> string \<Rightarrow> time \<Rightarrow> 'm \<Rightarrow> (meta_error + shardGroupInfo option) \<times> 'm"

text \<open>Library code: the order of shard groups, the choice of a shard by the hash of a series, and the earliest time.\<close>

record group_lib =
  gl_sort :: "shardGroupInfo list \<Rightarrow> shardGroupInfo list"
  gl_ShardFor :: "shardGroupInfo \<Rightarrow> u64 \<Rightarrow> shardInfo"
  gl_MinNanoTime :: int

subsection \<open>Lists of shard groups\<close>

definition ShardGroupAt :: "shardGroupInfo list \<Rightarrow> time \<Rightarrow> shardGroupInfo option" where
  "ShardGroupAt l t = (let idx = sort_Search (length l) (\<lambda>i. t < g_EndTime (l ! i)) in
     if idx = length l \<or> t < g_StartTime (l ! idx) then None else Some (l ! idx))"

definition Covers :: "shardGroupInfo list \<Rightarrow> time \<Rightarrow> bool" where
  "Covers l t = (if length l = 0 then False else ShardGroupAt l t \<noteq> None)"

definition sgList_Append :: "group_lib \<Rightarrow> shardGroupInfo list \<Rightarrow> shardGroupInfo \<Rightarrow> shardGroupInfo list" where
  "sgList_Append gl l sgi = gl_sort gl (l @ [sgi])"

subsection \<open>Mapping points to shards\<close>

record 'v shardMapping =
  sm_n :: nat
  sm_Points :: "(u64 \<times> 'v point list) list"
  sm_Shards :: "(u64 \<times> shardInfo) list"
  sm_Dropped :: "'v point list"

definition NewShardMapping :: "nat \<Rightarrow> 'v shardMapping" where
  "NewShardMapping n = \<lparr>sm_n = n, sm_Points = [], sm_Shards = [], sm_Dropped = []\<rparr>"

text \<open>A list that was allocated here has the capacity \<open>n\<close>, a missing one the capacity zero.\<close>

definition MapPoint :: "shardInfo \<Rightarrow> 'v point \<Rightarrow> 'v shardMapping \<Rightarrow> 'v shardMapping" where
  "MapPoint sh p s =
     (let cap = (case map_of (sm_Points s) (s_ID sh) of None \<Rightarrow> 0 | Some _ \<Rightarrow> sm_n s);
          ps = (if cap < sm_n s then [] else case map_of (sm_Points s) (s_ID sh) of None \<Rightarrow> [] | Some ps \<Rightarrow> ps)
      in s\<lparr>sm_Points := AList.update (s_ID sh) (ps @ [p]) (sm_Points s), sm_Shards := AList.update (s_ID sh) sh (sm_Shards s)\<rparr>)"

fun create_groups ::
  "'m metaClient \<Rightarrow> group_lib \<Rightarrow> string \<Rightarrow> string \<Rightarrow> time \<Rightarrow> 'v point list \<Rightarrow> shardGroupInfo list \<Rightarrow> 'm \<Rightarrow> (write_error + shardGroupInfo list) \<times> 'm" where
  "create_groups mc gl db rp mn [] l m = (Inr l, m)"
| "create_groups mc gl db rp mn (p # ps) l m =
     (if p_Time p < mn \<or> Covers l (p_Time p) then create_groups mc gl db rp mn ps l m
      else case mc_CreateShardGroup mc db rp (p_Time p) m of
        (Inl e, m') \<Rightarrow> (Inl (MetaError e), m')
      | (Inr None, m') \<Rightarrow> (Inl NilShardGroup, m')
      | (Inr (Some sg), m') \<Rightarrow> create_groups mc gl db rp mn ps (sgList_Append gl l sg) m')"

definition map_one :: "group_lib \<Rightarrow> shardGroupInfo list \<Rightarrow> 'v point \<Rightarrow> 'v shardMapping \<Rightarrow> 'v shardMapping" where
  "map_one gl l p s = (case ShardGroupAt l (p_Time p) of
      None \<Rightarrow> s\<lparr>sm_Dropped := sm_Dropped s @ [p]\<rparr>
    | Some sg \<Rightarrow> MapPoint (gl_ShardFor gl sg (p_HashID p)) p s)"

definition earliest :: "group_lib \<Rightarrow> time \<Rightarrow> retentionPolicyInfo \<Rightarrow> time" where
  "earliest gl now rp = (if rp_Duration rp > 0 then now - rp_Duration rp else unixEpoch + gl_MinNanoTime gl)"

definition MapShards ::
  "'m metaClient \<Rightarrow> group_lib \<Rightarrow> time \<Rightarrow> string \<Rightarrow> string \<Rightarrow> 'v point list \<Rightarrow> 'm \<Rightarrow> (write_error + 'v shardMapping) \<times> 'm" where
  "MapShards mc gl now db rpn pts m = (case mc_RetentionPolicy mc db rpn m of
      Inl e \<Rightarrow> (Inl (MetaError e), m)
    | Inr None \<Rightarrow> (Inl (RetentionPolicyNotFound rpn), m)
    | Inr (Some rp) \<Rightarrow> (case create_groups mc gl db rpn (earliest gl now rp) pts [] m of
        (Inl e, m') \<Rightarrow> (Inl e, m')
      | (Inr l, m') \<Rightarrow> (Inr (fold (map_one gl l) pts (NewShardMapping (length pts))), m')))"

subsection \<open>Writing a shard\<close>

text \<open>What the calls to the local store, the remote writer and the hinted handoff return; no hinted handoff is \<open>None\<close>.\<close>

record calls =
  cl_WriteToShard :: "write_error option"
  cl_CreateShard :: "write_error option"
  cl_WriteToShard_again :: "write_error option"
  cl_remote :: "u64 \<Rightarrow> write_error option"
  cl_HintedHandoff :: "(u64 \<Rightarrow> write_error option) option"

definition required :: "consistencyLevel \<Rightarrow> nat \<Rightarrow> nat" where
  "required c n = (case c of ConsistencyLevelAny \<Rightarrow> 1 | ConsistencyLevelOne \<Rightarrow> 1 | ConsistencyLevelQuorum \<Rightarrow> n div 2 + 1 | ConsistencyLevelAll \<Rightarrow> n)"

text \<open>The routine that is started for each owner.\<close>

definition write_owner :: "u64 \<Rightarrow> consistencyLevel \<Rightarrow> calls \<Rightarrow> u64 \<Rightarrow> write_error option" where
  "write_owner node c cl owner =
     (if node = owner
      then (if cl_WriteToShard cl = Some ErrShardNotFound
            then (case cl_CreateShard cl of Some e \<Rightarrow> Some e | None \<Rightarrow> cl_WriteToShard_again cl)
            else cl_WriteToShard cl)
      else case cl_remote cl owner of
        None \<Rightarrow> None
      | Some e \<Rightarrow> (case cl_HintedHandoff cl of
          None \<Rightarrow> Some e
        | Some hh \<Rightarrow> (case hh owner of
            Some hherr \<Rightarrow> Some hherr
          | None \<Rightarrow> if c = ConsistencyLevelAny then None else Some e)))"

datatype event = Closing | Timeout | Result "write_error option"

text \<open>The loop that waits for one event per owner.\<close>

fun collect :: "nat \<Rightarrow> event list \<Rightarrow> nat \<Rightarrow> write_error option \<Rightarrow> write_error option" where
  "collect req [] wrote writeError =
     (if wrote > 0 then Some ErrPartialWrite else case writeError of Some e \<Rightarrow> Some (WriteFailed e) | None \<Rightarrow> Some ErrWriteFailed)"
| "collect req (Closing # evs) wrote writeError = Some ErrWriteFailed"
| "collect req (Timeout # evs) wrote writeError = Some ErrTimeout"
| "collect req (Result (Some e) # evs) wrote writeError = collect req evs wrote (if writeError = None then Some e else writeError)"
| "collect req (Result None # evs) wrote writeError = (if Suc wrote \<ge> req then None else collect req evs (Suc wrote) writeError)"

definition writeToShard :: "(event list \<Rightarrow> event list) \<Rightarrow> u64 \<Rightarrow> consistencyLevel \<Rightarrow> calls \<Rightarrow> shardInfo \<Rightarrow> write_error option" where
  "writeToShard order node c cl sh =
     (let n = length (s_Owners sh) in collect (required c n) (take n (order (map (\<lambda>x. Result (write_owner node c cl x)) (s_Owners sh)))) 0 None)"

subsection \<open>Writing points\<close>

fun await_shards :: "event list \<Rightarrow> write_error option \<Rightarrow> write_error option" where
  "await_shards [] err = err"
| "await_shards (Closing # evs) err = Some ErrWriteFailed"
| "await_shards (Timeout # evs) err = Some ErrTimeout"
| "await_shards (Result (Some e) # evs) err = Some e"
| "await_shards (Result None # evs) err = await_shards evs err"

text \<open>For each shard what the calls return and in which order the owners answer, and the order in which the shards finish.\<close>

record 'v write_env =
  we_calls :: "u64 \<Rightarrow> 'v point list \<Rightarrow> calls"
  we_owner_order :: "u64 \<Rightarrow> event list \<Rightarrow> event list"
  we_shard_order :: "event list \<Rightarrow> event list"

definition write_shard :: "'v write_env \<Rightarrow> u64 \<Rightarrow> consistencyLevel \<Rightarrow> 'v shardMapping \<Rightarrow> u64 \<times> 'v point list \<Rightarrow> write_error option" where
  "write_shard we node c sm x = (case x of (i, ps) \<Rightarrow>
     writeToShard (we_owner_order we i) node c (we_calls we i ps) (the (map_of (sm_Shards sm) i)))"

definition WritePointsPrivileged ::
  "'m metaClient \<Rightarrow> group_lib \<Rightarrow> time \<Rightarrow> 'v write_env \<Rightarrow> u64 \<Rightarrow> string \<Rightarrow> string \<Rightarrow> consistencyLevel \<Rightarrow> 'v point list \<Rightarrow> 'm \<Rightarrow> write_error option \<times> 'm" where
  "WritePointsPrivileged mc gl now we node db rp c pts m =
     (case (if rp = [] then map_option db_DefaultRetentionPolicy (mc_Database mc db m) else Some rp) of
        None \<Rightarrow> (Some (ErrDatabaseNotFound db), m)
      | Some rp' \<Rightarrow> (case MapShards mc gl now db rp' pts m of
          (Inl e, m') \<Rightarrow> (Some e, m')
        | (Inr sm, m') \<Rightarrow>
            (await_shards (take (length (sm_Points sm)) (we_shard_order we (map (\<lambda>x. Result (write_shard we node c sm x)) (sm_Points sm))))
               (if sm_Dropped sm \<noteq> [] then Some (PartialWriteError (length (sm_Dropped sm))) else None), m')))"

definition WritePointsInto ::
  "'m metaClient \<Rightarrow> group_lib \<Rightarrow> time \<Rightarrow> 'v write_env \<Rightarrow> u64 \<Rightarrow> string \<Rightarrow> string \<Rightarrow> 'v point list \<Rightarrow> 'm \<Rightarrow> write_error option \<times> 'm" where
  "WritePointsInto mc gl now we node db rp = WritePointsPrivileged mc gl now we node db rp ConsistencyLevelOne"

definition WritePoints ::
  "'m metaClient \<Rightarrow> group_lib \<Rightarrow> time \<Rightarrow> 'v write_env \<Rightarrow> u64 \<Rightarrow> string \<Rightarrow> string \<Rightarrow> consistencyLevel \<Rightarrow> 'v point list \<Rightarrow> 'm \<Rightarrow> write_error option \<times> 'm" where
  "WritePoints = WritePointsPrivileged"

subsection \<open>Lemmas: consistency\<close>

text \<open>Answers arrive at most once; closing and timeouts may come in between, so that there is always a next event.\<close>

definition results :: "event list \<Rightarrow> write_error option list" where
  "results evs = concat (map (\<lambda>ev. case ev of Result r \<Rightarrow> [r] | _ \<Rightarrow> []) evs)"

definition order_ok :: "(event list \<Rightarrow> event list) \<Rightarrow> bool" where
  "order_ok order \<longleftrightarrow> (\<forall>evs. mset (results (order evs)) \<subseteq># mset (results evs) \<and> length evs \<le> length (order evs))"

definition accepted :: "write_error option list \<Rightarrow> nat" where
  "accepted rs = length (filter (\<lambda>r. r = None) rs)"

lemma results_simps [simp]:
  "results [] = []" "results (Result r # evs) = r # results evs" "results (Closing # evs) = results evs" "results (Timeout # evs) = results evs"
  "results (map (\<lambda>x. Result (f x)) xs) = map f xs"
proof -
  show "results (map (\<lambda>x. Result (f x)) xs) = map f xs" by (induction xs) (simp_all add: results_def)
qed (simp_all add: results_def)

lemma accepted_simps [simp]: "accepted [] = 0" "accepted (None # rs) = Suc (accepted rs)" "accepted (Some e # rs) = accepted rs"
  by (simp_all add: accepted_def)

lemma collect_success: "collect req evs wrote we = None \<Longrightarrow> req \<le> wrote + accepted (results evs)"
  by (induction req evs wrote we rule: collect.induct) (auto split: if_splits option.splits)

lemma collect_some: "collect req evs wrote we = None \<Longrightarrow> 0 < accepted (results evs)"
  by (induction req evs wrote we rule: collect.induct) (auto split: if_splits option.splits)

lemma collect_all:
  "wrote < req \<Longrightarrow> collect req (map Result rs) wrote we =
     (if req \<le> wrote + accepted rs then None
      else if 0 < wrote + accepted rs then Some ErrPartialWrite
      else Some (case we of Some e \<Rightarrow> WriteFailed e | None \<Rightarrow> (case rs of [] \<Rightarrow> ErrWriteFailed | r # _ \<Rightarrow> WriteFailed (the r))))"
proof (induction rs arbitrary: wrote we)
  case (Cons r rs)
  show ?case
  proof (cases r)
    case (Some e)
    then show ?thesis using Cons.IH [OF Cons.prems, of "if we = None then Some e else we"] by (auto split: option.splits)
  next
    case None
    then show ?thesis using Cons.IH [of "Suc wrote" we] Cons.prems by auto
  qed
qed (auto split: option.splits)

lemma accepted_mset: "accepted rs = size (filter_mset (\<lambda>r. r = None) (mset rs))"
  by (simp add: accepted_def flip: mset_filter)

lemma accepted_mono: "mset rs \<subseteq># mset rs' \<Longrightarrow> accepted rs \<le> accepted rs'"
  unfolding accepted_mset by (intro size_mset_mono multiset_filter_mono)

lemma submset_size_eq: "M \<subseteq># N \<Longrightarrow> size M = size N \<Longrightarrow> M = N"
  by (metis mset_subset_size subset_mset.le_neq_trans less_irrefl)

lemma results_take: "mset (results (take n evs)) \<subseteq># mset (results evs)"
  by (induction evs arbitrary: n) (auto simp: results_def take_Cons split: nat.splits event.splits)

text \<open>The answers of the owners of a shard.\<close>

definition answers :: "u64 \<Rightarrow> consistencyLevel \<Rightarrow> calls \<Rightarrow> shardInfo \<Rightarrow> write_error option list" where
  "answers node c cl sh = map (write_owner node c cl) (s_Owners sh)"

lemma order_answers:
  "order_ok order \<Longrightarrow> mset (results (order (map (\<lambda>x. Result (write_owner node c cl x)) (s_Owners sh)))) \<subseteq># mset (answers node c cl sh)"
  unfolding order_ok_def answers_def by (metis results_simps(5))

lemma writeToShard_success:
  assumes "order_ok order" "writeToShard order node c cl sh = None"
  shows "required c (length (s_Owners sh)) \<le> accepted (answers node c cl sh)" "s_Owners sh \<noteq> []"
proof -
  let ?evs = "order (map (\<lambda>x. Result (write_owner node c cl x)) (s_Owners sh))"
  have "collect (required c (length (s_Owners sh))) (take (length (s_Owners sh)) ?evs) 0 None = None"
    using assms(2) by (simp add: writeToShard_def Let_def)
  note ok = collect_success [OF this] collect_some [OF this]
  show "s_Owners sh \<noteq> []" using ok(2) by auto
  from ok(1) have "required c (length (s_Owners sh)) \<le> accepted (results (take (length (s_Owners sh)) ?evs))" by simp
  also have "\<dots> \<le> accepted (answers node c cl sh)"
    using subset_mset.order_trans [OF results_take order_answers [OF assms(1)]] by (rule accepted_mono)
  finally show "required c (length (s_Owners sh)) \<le> accepted (answers node c cl sh)" .
qed

text \<open>C18: a write to a shard succeeds only if as many owners accepted the points as the consistency level asks for, whatever timeouts
  come in between; a majority for the level quorum. If all owners answer, in any order, it succeeds exactly in this case; otherwise it
  reports a partial write if some owner accepted the points, and the first error that arrived if none did.\<close>

theorem writeToShard_consistency:
  assumes "order_ok order" "s_Owners sh \<noteq> []"
  shows "(writeToShard order node c cl sh = None \<longrightarrow> required c (length (s_Owners sh)) \<le> accepted (answers node c cl sh)) \<and>
    (\<forall>rs. order (map (\<lambda>x. Result (write_owner node c cl x)) (s_Owners sh)) = map Result rs \<longrightarrow> length rs = length (s_Owners sh) \<longrightarrow>
       writeToShard order node c cl sh =
         (if required c (length (s_Owners sh)) \<le> accepted (answers node c cl sh) then None
          else if 0 < accepted (answers node c cl sh) then Some ErrPartialWrite
          else Some (WriteFailed (the (hd rs)))))"
proof (intro conjI allI impI)
  assume "writeToShard order node c cl sh = None"
  then show "required c (length (s_Owners sh)) \<le> accepted (answers node c cl sh)" by (rule writeToShard_success(1) [OF assms(1)])
next
  fix rs
  let ?n = "length (s_Owners sh)"
  assume o: "order (map (\<lambda>x. Result (write_owner node c cl x)) (s_Owners sh)) = map Result rs" and n: "length rs = ?n"
  have "results (map Result rs) = rs" using results_simps(5) [of "\<lambda>x. x"] by simp
  then have "mset rs \<subseteq># mset (answers node c cl sh)" using order_answers [OF assms(1), of node c cl sh] o by simp
  moreover have "size (mset rs) = size (mset (answers node c cl sh))" by (simp add: n answers_def)
  ultimately have "mset rs = mset (answers node c cl sh)" by (rule submset_size_eq)
  then have acc: "accepted rs = accepted (answers node c cl sh)" by (simp add: accepted_mset)
  have req: "0 < required c ?n" using assms(2) by (cases c) (simp_all add: required_def)
  obtain r rs' where rs: "rs = r # rs'" using n assms(2) by (cases rs) auto
  have "writeToShard order node c cl sh = collect (required c ?n) (map Result rs) 0 None" using o n by (simp add: writeToShard_def Let_def)
  then show "writeToShard order node c cl sh = (if required c ?n \<le> accepted (answers node c cl sh) then None
      else if 0 < accepted (answers node c cl sh) then Some ErrPartialWrite else Some (WriteFailed (the (hd rs))))"
    unfolding collect_all [OF req] acc by (simp add: rs)
qed

text \<open>A quorum is a majority, so that any two quorums of a shard share an owner.\<close>

lemma quorum_majority: "n < 2 * required ConsistencyLevelQuorum n"
  by (simp add: required_def)

subsection \<open>Lemmas: mapping\<close>

definition covers :: "shardGroupInfo \<Rightarrow> time \<Rightarrow> bool" where
  "covers g t \<longleftrightarrow> g_StartTime g \<le> t \<and> t < g_EndTime g"

definition disjoint_groups :: "shardGroupInfo set \<Rightarrow> bool" where
  "disjoint_groups G \<longleftrightarrow> (\<forall>g \<in> G. g_StartTime g < g_EndTime g \<and> g_TruncatedAt g = 0) \<and>
     (\<forall>g \<in> G. \<forall>g' \<in> G. g = g' \<or> g_EndTime g \<le> g_StartTime g' \<or> g_EndTime g' \<le> g_StartTime g)"

definition mc_ok :: "shardGroupInfo set \<Rightarrow> 'm metaClient \<Rightarrow> bool" where
  "mc_ok G mc \<longleftrightarrow> (\<forall>db rp t m g m'. mc_CreateShardGroup mc db rp t m = (Inr (Some g), m') \<longrightarrow> g \<in> G \<and> covers g t)"

definition gl_ok :: "group_lib \<Rightarrow> bool" where
  "gl_ok gl \<longleftrightarrow> (\<forall>gs. mset (gl_sort gl gs) = mset gs \<and> ((\<forall>g \<in> set gs. g_TruncatedAt g = 0) \<longrightarrow> sorted (map g_EndTime (gl_sort gl gs))))"

lemma ShardGroupAt_Some:
  assumes "sorted (map g_EndTime l)" "ShardGroupAt l t = Some g"
  shows "g \<in> set l \<and> covers g t"
proof -
  let ?i = "sort_Search (length l) (\<lambda>i. t < g_EndTime (l ! i))"
  have i: "?i < length l" "g_StartTime (l ! ?i) \<le> t" "g = l ! ?i"
    using assms(2) sort_Search_sorted(1) [OF assms(1), of t] by (auto simp: ShardGroupAt_def Let_def split: if_splits)
  moreover have "t < g_EndTime (l ! ?i)" using sort_Search_sorted(2) [OF assms(1) i(1), of t] by simp
  ultimately show ?thesis by (simp add: covers_def)
qed

lemma ShardGroupAt_covered:
  assumes "sorted (map g_EndTime l)" "set l \<subseteq> G" "disjoint_groups G" "g \<in> set l" "covers g t"
  shows "ShardGroupAt l t = Some g"
proof -
  let ?i = "sort_Search (length l) (\<lambda>i. t < g_EndTime (l ! i))"
  obtain k where k: "k < length l" "l ! k = g" using assms(4) by (auto simp: in_set_conv_nth)
  have ik: "?i \<le> k" using sort_Search_sorted(2) [OF assms(1) k(1), of t] k(2) assms(5) by (simp add: covers_def)
  then have i: "?i < length l" "t < g_EndTime (l ! ?i)" using k(1) sort_Search_sorted(2) [OF assms(1), of ?i t] by auto
  have le: "g_EndTime (l ! ?i) \<le> g_EndTime g" using sorted_nth_mono [OF assms(1) ik] k i(1) by simp
  have "l ! ?i \<in> G" "g \<in> G" using assms(2,4) i(1) by (auto intro: nth_mem)
  then have "l ! ?i = g \<or> g_EndTime (l ! ?i) \<le> g_StartTime g \<or> g_EndTime g \<le> g_StartTime (l ! ?i)" "g_StartTime (l ! ?i) < g_EndTime (l ! ?i)"
    using assms(3) unfolding disjoint_groups_def by blast+
  then have "l ! ?i = g" using assms(5) le i(2) unfolding covers_def by linarith
  then show ?thesis using i(1) assms(5) by (simp add: ShardGroupAt_def Let_def covers_def)
qed

lemma sgList_Append_ok:
  assumes "gl_ok gl" "disjoint_groups G" "set l \<subseteq> G" "g \<in> G"
  shows "set (sgList_Append gl l g) = insert g (set l)" "sorted (map g_EndTime (sgList_Append gl l g))"
proof -
  have "mset (sgList_Append gl l g) = mset (l @ [g])" using assms(1) by (simp add: gl_ok_def sgList_Append_def)
  from mset_eq_setD [OF this] show "set (sgList_Append gl l g) = insert g (set l)" by simp
  have "\<forall>x \<in> set (l @ [g]). g_TruncatedAt x = 0" using assms(2-4) by (auto simp: disjoint_groups_def)
  then show "sorted (map g_EndTime (sgList_Append gl l g))" using assms(1) unfolding gl_ok_def sgList_Append_def by blast
qed

lemma create_groups_cover:
  assumes gl: "gl_ok gl" and mc: "mc_ok G mc" and G: "disjoint_groups G"
    and "create_groups mc gl db rp mn pts l m = (Inr l', m')" "set l \<subseteq> G" "sorted (map g_EndTime l)"
  shows "set l' \<subseteq> G \<and> sorted (map g_EndTime l') \<and> set l \<subseteq> set l' \<and> (\<forall>p \<in> set pts. mn \<le> p_Time p \<longrightarrow> (\<exists>g \<in> set l'. covers g (p_Time p)))"
  using assms(4-)
proof (induction pts arbitrary: l m)
  case (Cons p ps)
  show ?case
  proof (cases "p_Time p < mn \<or> Covers l (p_Time p)")
    case True
    have c: "mn \<le> p_Time p \<longrightarrow> (\<exists>g \<in> set l. covers g (p_Time p))"
      using True ShardGroupAt_Some [OF Cons.prems(3)] by (fastforce simp: Covers_def split: if_splits)
    from True Cons.prems(1) have "create_groups mc gl db rp mn ps l m = (Inr l', m')" by simp
    from Cons.IH [OF this Cons.prems(2,3)] c show ?thesis by auto
  next
    case False
    then obtain g m1 where g: "mc_CreateShardGroup mc db rp (p_Time p) m = (Inr (Some g), m1)"
      and r: "create_groups mc gl db rp mn ps (sgList_Append gl l g) m1 = (Inr l', m')"
      using Cons.prems(1) by (auto split: prod.splits sum.splits option.splits)
    have gG: "g \<in> G" "covers g (p_Time p)" using mc g unfolding mc_ok_def by blast+
    note a = sgList_Append_ok [OF gl G Cons.prems(2) gG(1)]
    have "set (sgList_Append gl l g) \<subseteq> G" using a(1) gG(1) Cons.prems(2) by simp
    from Cons.IH [OF r this a(2)] show ?thesis using a(1) gG(2) by auto
  qed
qed auto

text \<open>Where a point goes.\<close>

definition destination :: "group_lib \<Rightarrow> shardGroupInfo list \<Rightarrow> 'v point \<Rightarrow> u64 option" where
  "destination gl l p = map_option (\<lambda>g. s_ID (gl_ShardFor gl g (p_HashID p))) (ShardGroupAt l (p_Time p))"

definition optional :: "'a list \<Rightarrow> 'a list option" where
  "optional xs = (if xs = [] then None else Some xs)"

definition mapped :: "group_lib \<Rightarrow> shardGroupInfo list \<Rightarrow> nat \<Rightarrow> 'v point list \<Rightarrow> 'v shardMapping" where
  "mapped gl l n pts = fold (map_one gl l) pts (NewShardMapping n)"

lemma mapped_snoc: "mapped gl l n (pts @ [p]) = map_one gl l p (mapped gl l n pts)"
  by (simp add: mapped_def)

lemma MapPoint_simps:
  "sm_n (MapPoint sh p s) = sm_n s" "sm_Dropped (MapPoint sh p s) = sm_Dropped s"
  "0 < sm_n s \<Longrightarrow> map_of (sm_Points (MapPoint sh p s)) =
     (map_of (sm_Points s))(s_ID sh \<mapsto> (case map_of (sm_Points s) (s_ID sh) of None \<Rightarrow> [] | Some ps \<Rightarrow> ps) @ [p])"
  "map_of (sm_Shards (MapPoint sh p s)) = (map_of (sm_Shards s))(s_ID sh \<mapsto> sh)"
  "distinct (map fst (sm_Points s)) \<Longrightarrow> distinct (map fst (sm_Points (MapPoint sh p s)))"
  by (auto simp: MapPoint_def Let_def update_conv' distinct_update split: option.splits)

lemma mapped_sm_n [simp]: "sm_n (mapped gl l n pts) = n"
  by (induction pts rule: rev_induct) (auto simp: mapped_snoc map_one_def MapPoint_simps split: option.splits, simp add: mapped_def NewShardMapping_def)

lemma mapped_result:
  assumes "0 < n"
  shows "sm_Dropped (mapped gl l n pts) = filter (\<lambda>p. destination gl l p = None) pts \<and>
    (\<forall>i. map_of (sm_Points (mapped gl l n pts)) i = optional (filter (\<lambda>p. destination gl l p = Some i) pts)) \<and>
    distinct (map fst (sm_Points (mapped gl l n pts)))"
proof (induction pts rule: rev_induct)
  case Nil
  then show ?case by (simp add: mapped_def NewShardMapping_def optional_def)
next
  case (snoc p pts)
  show ?case
  proof (cases "ShardGroupAt l (p_Time p)")
    case None
    then show ?thesis using snoc by (simp add: mapped_snoc map_one_def destination_def)
  next
    case (Some g)
    then have d: "destination gl l p = Some (s_ID (gl_ShardFor gl g (p_HashID p)))" by (simp add: destination_def)
    show ?thesis using snoc assms Some d by (auto simp: mapped_snoc map_one_def MapPoint_simps optional_def)
  qed
qed

text \<open>The shards of a mapping belong to groups that cover their points.\<close>

lemma mapped_shards:
  "map_of (sm_Shards (mapped gl l n pts)) i = Some sh \<Longrightarrow> s_ID sh = i \<and> (\<exists>p \<in> set pts. \<exists>g. ShardGroupAt l (p_Time p) = Some g \<and> sh = gl_ShardFor gl g (p_HashID p))"
proof (induction pts rule: rev_induct)
  case Nil
  then show ?case by (simp add: mapped_def NewShardMapping_def)
next
  case (snoc p pts)
  then show ?case by (auto simp: mapped_snoc map_one_def MapPoint_simps split: option.splits if_splits)
qed

lemma mapped_shards_dom: "dom (map_of (sm_Shards (mapped gl l n pts))) = {i. \<exists>p \<in> set pts. destination gl l p = Some i}"
proof (induction pts rule: rev_induct)
  case Nil
  then show ?case by (simp add: mapped_def NewShardMapping_def)
next
  case (snoc p pts)
  show ?case
  proof (cases "ShardGroupAt l (p_Time p)")
    case None
    then have "destination gl l p = None" by (simp add: destination_def)
    then show ?thesis using None snoc by (auto simp: mapped_snoc map_one_def)
  next
    case (Some g)
    then have "destination gl l p = Some (s_ID (gl_ShardFor gl g (p_HashID p)))" by (simp add: destination_def)
    then show ?thesis using Some snoc by (auto simp: mapped_snoc map_one_def MapPoint_simps(4) simp del: fun_upd_apply)
  qed
qed

lemma MapShards_result:
  assumes "gl_ok gl" "mc_ok G mc" "disjoint_groups G" "MapShards mc gl now db rpn pts m = (Inr sm, m')"
  shows "\<exists>rp l. mc_RetentionPolicy mc db rpn m = Inr (Some rp) \<and> sm = mapped gl l (length pts) pts \<and> set l \<subseteq> G \<and> sorted (map g_EndTime l) \<and>
    (\<forall>p \<in> set pts. earliest gl now rp \<le> p_Time p \<longrightarrow> (\<exists>g \<in> set l. covers g (p_Time p)))"
proof -
  obtain rp where rp: "mc_RetentionPolicy mc db rpn m = Inr (Some rp)"
    using assms(4) by (auto simp: MapShards_def split: sum.splits option.splits)
  then obtain l where l: "create_groups mc gl db rpn (earliest gl now rp) pts [] m = (Inr l, m')" "sm = mapped gl l (length pts) pts"
    using assms(4) by (auto simp: MapShards_def mapped_def split: sum.splits option.splits prod.splits)
  then show ?thesis using create_groups_cover [OF assms(1-3) l(1)] rp by (intro exI [of _ rp] exI [of _ l]) simp
qed

text \<open>C19: when shard groups do not overlap, mapping points to shards loses nothing: a point is dropped only if it is older than the retention
  policy allows, and every other point is put, in the order of the request, into the list of one shard, which the hash of the point selects
  in a group that covers its time.\<close>

theorem MapShards_complete:
  assumes "gl_ok gl" "mc_ok G mc" "disjoint_groups G" "MapShards mc gl now db rpn pts m = (Inr sm, m')" "mc_RetentionPolicy mc db rpn m = Inr (Some rp)"
  shows "\<exists>l. set l \<subseteq> G \<and> sm_Dropped sm = filter (\<lambda>p. destination gl l p = None) pts \<and>
    (\<forall>i. map_of (sm_Points sm) i = optional (filter (\<lambda>p. destination gl l p = Some i) pts)) \<and>
    (\<forall>p \<in> set pts. case destination gl l p of
        None \<Rightarrow> p_Time p < earliest gl now rp
      | Some i \<Rightarrow> \<exists>g \<in> set l. covers g (p_Time p) \<and> i = s_ID (gl_ShardFor gl g (p_HashID p)))"
proof -
  obtain l where l: "sm = mapped gl l (length pts) pts" "set l \<subseteq> G" "sorted (map g_EndTime l)"
    "\<forall>p \<in> set pts. earliest gl now rp \<le> p_Time p \<longrightarrow> (\<exists>g \<in> set l. covers g (p_Time p))"
    using MapShards_result [OF assms(1-4)] assms(5) by auto
  have "case destination gl l p of None \<Rightarrow> p_Time p < earliest gl now rp
      | Some i \<Rightarrow> \<exists>g \<in> set l. covers g (p_Time p) \<and> i = s_ID (gl_ShardFor gl g (p_HashID p))" if p: "p \<in> set pts" for p
  proof (cases "ShardGroupAt l (p_Time p)")
    case None
    then have "\<not> (\<exists>g \<in> set l. covers g (p_Time p))" using ShardGroupAt_covered [OF l(3,2) assms(3)] by force
    then show ?thesis using l(4) p None by (force simp: destination_def)
  next
    case (Some g)
    then show ?thesis using ShardGroupAt_Some [OF l(3) Some] by (auto simp: destination_def)
  qed
  moreover have "sm_Dropped sm = filter (\<lambda>p. destination gl l p = None) pts \<and>
      (\<forall>i. map_of (sm_Points sm) i = optional (filter (\<lambda>p. destination gl l p = Some i) pts))"
  proof (cases pts)
    case Nil
    then show ?thesis by (simp add: l(1) mapped_def NewShardMapping_def optional_def)
  next
    case (Cons p ps)
    then show ?thesis using mapped_result [of "length pts" gl l pts] by (simp add: l(1))
  qed
  ultimately show ?thesis using l(2) by blast
qed

lemma await_success: "await_shards evs err = None \<Longrightarrow> err = None \<and> results evs = replicate (length evs) None"
  by (induction evs err rule: await_shards.induct) simp_all

lemma all_shards_written:
  assumes "order_ok order" "await_shards (take (length xs) (order (map (\<lambda>x. Result (f x)) xs))) err = None" "x \<in> set xs"
  shows "f x = None"
proof -
  let ?evs = "order (map (\<lambda>x. Result (f x)) xs)"
  have len: "length (take (length xs) ?evs) = length xs" using assms(1) unfolding order_ok_def by (metis length_map length_take min.absorb2)
  then have "mset (replicate (length xs) None) = mset (results (take (length xs) ?evs))" using await_success [OF assms(2)] by simp
  also have "\<dots> \<subseteq># mset (results ?evs)" by (rule results_take)
  also have "\<dots> \<subseteq># mset (map f xs)" using assms(1) unfolding order_ok_def by (metis results_simps(5))
  finally have "mset (map f xs) = mset (replicate (length xs) None)"
    by (intro submset_size_eq [symmetric]) simp_all
  then have "set (map f xs) = set (replicate (length xs) None)" by (rule mset_eq_setD)
  then show ?thesis using assms(3) by (auto split: if_splits)
qed

text \<open>A shard ID stands for one shard: groups hand out fresh IDs.\<close>

definition shards_unique :: "group_lib \<Rightarrow> shardGroupInfo set \<Rightarrow> bool" where
  "shards_unique gl G \<longleftrightarrow> (\<forall>g \<in> G. \<forall>g' \<in> G. \<forall>h h'. s_ID (gl_ShardFor gl g h) = s_ID (gl_ShardFor gl g' h') \<longrightarrow>
     gl_ShardFor gl g h = gl_ShardFor gl g' h')"

lemma accepted_answers: "accepted (answers node c cl sh) = length (filter (\<lambda>x. write_owner node c cl x = None) (s_Owners sh))"
  by (simp add: accepted_def answers_def filter_map comp_def)

text \<open>C5: when a request to write points succeeds, every point of it lies in a shard group that covers its time, and the shard that its hash
  selects in this group has owners, of which as many as the consistency level asks for accepted a batch of the request with this point
  (at the level any, a stored hint counts as well). Groups do not overlap and shard IDs identify shards.\<close>

theorem WritePoints_durable:
  assumes "gl_ok gl" "mc_ok G mc" "disjoint_groups G" "order_ok (we_shard_order we)" "\<forall>i. order_ok (we_owner_order we i)"
    and "shards_unique gl G"
    and "WritePoints mc gl now we node db rp c pts m = (None, m')" "p \<in> set pts"
  shows "\<exists>g \<in> G. covers g (p_Time p) \<and> s_Owners (gl_ShardFor gl g (p_HashID p)) \<noteq> [] \<and>
    (\<exists>ps. p \<in> set ps \<and> set ps \<subseteq> set pts \<and>
      required c (length (s_Owners (gl_ShardFor gl g (p_HashID p)))) \<le>
        length (filter (\<lambda>x. write_owner node c (we_calls we (s_ID (gl_ShardFor gl g (p_HashID p))) ps) x = None)
          (s_Owners (gl_ShardFor gl g (p_HashID p)))))"
proof -
  obtain rp' sm where sm: "MapShards mc gl now db rp' pts m = (Inr sm, m')" "sm_Dropped sm = []"
    and aw: "await_shards (take (length (sm_Points sm)) (we_shard_order we (map (\<lambda>x. Result (write_shard we node c sm x)) (sm_Points sm)))) None = None"
    using assms(7) by (auto simp: WritePoints_def WritePointsPrivileged_def split: option.splits prod.splits sum.splits if_splits dest: await_success)
  obtain l where l: "sm = mapped gl l (length pts) pts" "set l \<subseteq> G" "sorted (map g_EndTime l)" using MapShards_result [OF assms(1-3) sm(1)] by auto
  note r = mapped_result [of "length pts" gl l pts]
  have n: "0 < length pts" using assms(8) by auto
  have "destination gl l p \<noteq> None" using r [OF n] sm(2) assms(8) l(1) by (auto simp: filter_empty_conv)
  then obtain g where g: "ShardGroupAt l (p_Time p) = Some g" by (auto simp: destination_def)
  let ?sh = "gl_ShardFor gl g (p_HashID p)" and ?i = "s_ID (gl_ShardFor gl g (p_HashID p))"
  let ?ps = "filter (\<lambda>q. destination gl l q = Some ?i) pts"
  have d: "destination gl l p = Some ?i" using g by (simp add: destination_def)
  have p: "p \<in> set ?ps" using d assms(8) by simp
  then have "map_of (sm_Points sm) ?i = Some ?ps" using r [OF n] l(1) unfolding optional_def by (metis empty_iff empty_set)
  then have ok: "write_shard we node c sm (?i, ?ps) = None" by (intro all_shards_written [OF assms(4) aw]) (rule map_of_SomeD)
  have gG: "g \<in> G" "covers g (p_Time p)" using ShardGroupAt_Some [OF l(3) g] l(2) by auto
  have "?i \<in> dom (map_of (sm_Shards sm))" unfolding l(1) mapped_shards_dom using d assms(8) by auto
  then obtain sh where sh: "map_of (sm_Shards sm) ?i = Some sh" by auto
  then have "s_ID sh = ?i" "\<exists>p' \<in> set pts. \<exists>g'. ShardGroupAt l (p_Time p') = Some g' \<and> sh = gl_ShardFor gl g' (p_HashID p')"
    unfolding l(1) by (blast dest: mapped_shards)+
  then obtain h' g' where g': "s_ID sh = ?i" "g' \<in> set l" "sh = gl_ShardFor gl g' h'" using ShardGroupAt_Some [OF l(3)] by blast
  have "g' \<in> G" using g'(2) l(2) by blast
  then have "sh = ?sh" using assms(6) gG(1) g' unfolding shards_unique_def by blast
  then have "required c (length (s_Owners ?sh)) \<le> accepted (answers node c (we_calls we ?i ?ps) ?sh)" "s_Owners ?sh \<noteq> []"
    using writeToShard_success [OF assms(5) [rule_format, of ?i]] ok sh by (simp_all add: write_shard_def)
  then show ?thesis using p gG unfolding accepted_answers by (intro bexI [of _ g] conjI exI [of _ ?ps]) auto
qed

text \<open>C38: with overlapping shard groups a point can be dropped although a group covers it: a group that starts after the point and ends
  before the groups that cover it hides these from the search.\<close>

theorem nested_group_hides:
  assumes "sorted (map g_EndTime l)" "A \<in> set l" "t < g_StartTime A" "g_StartTime A < g_EndTime A"
    and "\<forall>g \<in> set l. covers g t \<longrightarrow> g_EndTime A < g_EndTime g" "p_Time p = t"
  shows "sm_Dropped (map_one gl l p sm) = sm_Dropped sm @ [p]"
proof -
  let ?i = "sort_Search (length l) (\<lambda>i. t < g_EndTime (l ! i))"
  obtain k where k: "k < length l" "l ! k = A" using assms(2) by (auto simp: in_set_conv_nth)
  have ik: "?i \<le> k" using sort_Search_sorted(2) [OF assms(1) k(1), of t] k(2) assms(3,4) by simp
  then have i: "?i < length l" "t < g_EndTime (l ! ?i)" using k(1) sort_Search_sorted(2) [OF assms(1), of ?i t] by auto
  have "g_EndTime (l ! ?i) \<le> g_EndTime A" using sorted_nth_mono [OF assms(1) ik] k i(1) by simp
  then have "\<not> covers (l ! ?i) t" using assms(5) i(1) by (meson leD nth_mem)
  then have "ShardGroupAt l t = None" using i by (simp add: ShardGroupAt_def Let_def covers_def)
  then show ?thesis using assms(6) by (simp add: map_one_def)
qed

subsection \<open>Witnesses\<close>

definition group_of :: "u64 \<Rightarrow> time \<Rightarrow> time \<Rightarrow> shardGroupInfo" where
  "group_of i a b = \<lparr>g_ID = i, g_StartTime = a, g_EndTime = b, g_DeletedAt = 0, g_TruncatedAt = 0, g_Shards = [\<lparr>s_ID = i, s_Owners = [1, 2, 3]\<rparr>]\<rparr>"

definition plain_groups :: group_lib where
  "plain_groups = \<lparr>gl_sort = sort_key g_EndTime, gl_ShardFor = (\<lambda>g h. g_Shards g ! (unat h mod length (g_Shards g))), gl_MinNanoTime = 0\<rparr>"

definition two_groups :: "unit metaClient" where
  "two_groups = \<lparr>mc_Database = (\<lambda>_ _. None),
     mc_RetentionPolicy = (\<lambda>_ name _. Inr (Some \<lparr>rp_Name = name, rp_ReplicaN = 3, rp_Duration = 100, rp_ShardGroupDuration = 100, rp_ShardGroups = [], rp_Subscriptions = []\<rparr>)),
     mc_CreateShardGroup = (\<lambda>_ _ t m. (Inr (if 0 \<le> t \<and> t < 100 then Some (group_of 1 0 100) else if 100 \<le> t \<and> t < 200 then Some (group_of 2 100 200) else None), m))\<rparr>"

lemma plain_groups_ok: "gl_ok plain_groups"
  by (simp add: gl_ok_def plain_groups_def)

lemma two_groups_ok: "mc_ok {group_of 1 0 100, group_of 2 100 200} two_groups" "disjoint_groups {group_of 1 0 100, group_of 2 100 200}"
  by (auto simp: mc_ok_def two_groups_def covers_def group_of_def disjoint_groups_def split: if_splits)

lemma id_order_ok: "order_ok (\<lambda>evs. evs)"
  by (simp add: order_ok_def)

text \<open>Owner 1 is the local node and has to create the shard first, owner 2 fails and gets a hint.\<close>

definition sample_calls :: calls where
  "sample_calls = \<lparr>cl_WriteToShard = Some ErrShardNotFound, cl_CreateShard = None, cl_WriteToShard_again = None,
     cl_remote = (\<lambda>o'. if o' = 2 then Some (StoreError ''down'') else None), cl_HintedHandoff = Some (\<lambda>_. None)\<rparr>"

theorem writeToShard_consistency_witness:
  "writeToShard (\<lambda>evs. evs) 1 ConsistencyLevelQuorum sample_calls \<lparr>s_ID = 1, s_Owners = [1, 2, 3]\<rparr> = None \<and>
   writeToShard (\<lambda>evs. evs) 1 ConsistencyLevelAll sample_calls \<lparr>s_ID = 1, s_Owners = [1, 2, 3]\<rparr> = Some ErrPartialWrite"
  using writeToShard_consistency [OF id_order_ok, where sh = "\<lparr>s_ID = 1, s_Owners = [1, 2, 3]\<rparr>" and node = 1 and cl = sample_calls and c = ConsistencyLevelQuorum,
      THEN conjunct2, THEN spec, where x = "[None, Some (StoreError ''down''), None]"]
    writeToShard_consistency [OF id_order_ok, where sh = "\<lparr>s_ID = 1, s_Owners = [1, 2, 3]\<rparr>" and node = 1 and cl = sample_calls and c = ConsistencyLevelAll,
      THEN conjunct2, THEN spec, where x = "[None, Some (StoreError ''down''), None]"]
  by (simp add: answers_def write_owner_def sample_calls_def required_def)

definition sample_points :: "nat point list" where
  "sample_points = [\<lparr>p_Time = 150, p_HashID = 3, p_Body = 0\<rparr>, \<lparr>p_Time = 50, p_HashID = 4, p_Body = 1\<rparr>]"

definition sample_env :: "nat write_env" where
  "sample_env = \<lparr>we_calls = (\<lambda>_ _. sample_calls), we_owner_order = (\<lambda>_ evs. evs), we_shard_order = (\<lambda>evs. evs)\<rparr>"

lemmas sample_run = MapShards_def two_groups_def plain_groups_def sample_points_def earliest_def Covers_def ShardGroupAt_def sort_Search_def
  search_between.simps group_of_def sgList_Append_def map_one_def MapPoint_def NewShardMapping_def Let_def

theorem MapShards_complete_witness:
  "\<exists>sm l. MapShards two_groups plain_groups 120 ''db'' ''rp'' sample_points () = (Inr sm, ()) \<and> sm_Dropped sm = filter (\<lambda>p. destination plain_groups l p = None) sample_points"
proof -
  obtain sm where sm: "MapShards two_groups plain_groups 120 ''db'' ''rp'' sample_points () = (Inr sm, ())" by (simp add: sample_run)
  have "mc_RetentionPolicy two_groups ''db'' ''rp'' () = Inr (Some \<lparr>rp_Name = ''rp'', rp_ReplicaN = 3, rp_Duration = 100, rp_ShardGroupDuration = 100, rp_ShardGroups = [], rp_Subscriptions = []\<rparr>)"
    by (simp add: two_groups_def)
  from MapShards_complete [OF plain_groups_ok two_groups_ok sm this] sm show ?thesis by blast
qed

theorem WritePoints_durable_witness:
  "\<exists>g \<in> {group_of 1 0 100, group_of 2 100 200}. covers g 150 \<and> s_Owners (gl_ShardFor plain_groups g 3) \<noteq> [] \<and>
    (\<exists>ps. \<lparr>p_Time = 150, p_HashID = 3, p_Body = 0\<rparr> \<in> set ps \<and> set ps \<subseteq> set sample_points \<and>
      required ConsistencyLevelQuorum (length (s_Owners (gl_ShardFor plain_groups g 3))) \<le>
        length (filter (\<lambda>x. write_owner 1 ConsistencyLevelQuorum (we_calls sample_env (s_ID (gl_ShardFor plain_groups g 3)) ps) x = None)
          (s_Owners (gl_ShardFor plain_groups g 3))))"
proof -
  have "WritePoints two_groups plain_groups 120 sample_env 1 ''db'' ''rp'' ConsistencyLevelQuorum sample_points () = (None, ())"
    by (simp add: sample_run WritePoints_def WritePointsPrivileged_def write_shard_def sample_env_def writeToShard_def write_owner_def sample_calls_def required_def)
  moreover have "shards_unique plain_groups {group_of 1 0 100, group_of 2 100 200}"
    by (auto simp: shards_unique_def plain_groups_def group_of_def)
  ultimately show ?thesis
    using WritePoints_durable [OF plain_groups_ok two_groups_ok, where we = sample_env and node = 1 and c = ConsistencyLevelQuorum
        and pts = sample_points and p = "\<lparr>p_Time = 150, p_HashID = 3, p_Body = 0\<rparr>"]
    by (simp add: sample_env_def id_order_ok sample_points_def)
qed

theorem nested_group_hides_witness:
  "covers (group_of 2 0 200) 30 \<and> sm_Dropped (map_one plain_groups [group_of 1 50 100, group_of 2 0 200] \<lparr>p_Time = 30, p_HashID = 0, p_Body = ()\<rparr> (NewShardMapping 1)) =
     [\<lparr>p_Time = 30, p_HashID = 0, p_Body = ()\<rparr>]"
  using nested_group_hides [where gl = plain_groups and l = "[group_of 1 50 100, group_of 2 0 200]" and A = "group_of 1 50 100" and t = 30
      and p = "\<lparr>p_Time = 30, p_HashID = 0, p_Body = ()\<rparr>" and sm = "NewShardMapping 1"]
  by (simp add: group_of_def covers_def NewShardMapping_def)

end
