(* ===== verification/Wal_Entry.thy ===== *)
theory Wal_Entry
  imports Block "HOL-Library.AList"
begin

text \<open>
  The records of the write-ahead log, \<^verbatim>\<open>tsdb/engine/tsm1/wal.go\<close>: entries for writes, deletes and range deletes, their encodings, and the writer
  and reader of a segment. A map of values is an association list in the order of iteration. The compression library is an argument; the
  size that an entry caches and the buffers that callers pass in are left out. Reading beyond the end of a slice is the error \<open>WalPanic\<close>.
\<close>

datatype wal_error = ErrWALClosed | ErrWALCorrupt | UnexpectedEOF | WalEOF | WalError string | WalPanic

datatype walEntry =
  WriteWALEntry "(bytes \<times> Value list) list"
| DeleteWALEntry "bytes list"
| DeleteRangeWALEntry "bytes list" int int

definition float64EntryType :: byte where "float64EntryType = 1"
definition integerEntryType :: byte where "integerEntryType = 2"
definition booleanEntryType :: byte where "booleanEntryType = 3"
definition stringEntryType :: byte where "stringEntryType = 4"
definition unsignedEntryType :: byte where "unsignedEntryType = 5"

definition WriteWALEntryType :: byte where "WriteWALEntryType = 1"
definition DeleteWALEntryType :: byte where "DeleteWALEntryType = 2"
definition DeleteRangeWALEntryType :: byte where "DeleteRangeWALEntryType = 3"

lemmas entry_types = float64EntryType_def integerEntryType_def booleanEntryType_def stringEntryType_def unsignedEntryType_def

subsection \<open>Encoding writes\<close>

fun value_type :: "Value \<Rightarrow> byte option" where
  "value_type (FloatValue t x) = Some float64EntryType"
| "value_type (IntegerValue t x) = Some integerEntryType"
| "value_type (UnsignedValue t x) = Some unsignedEntryType"
| "value_type (BooleanValue t x) = Some booleanEntryType"
| "value_type (StringValue t x) = Some stringEntryType"
| "value_type EmptyValue = None"

fun string_sizes :: "Value list \<Rightarrow> nat option" where
  "string_sizes [] = Some 0"
| "string_sizes (StringValue t x # vs) = map_option (\<lambda>n. 4 + length x + n) (string_sizes vs)"
| "string_sizes (v # vs) = None"

text \<open>The size of the values of a key; \<open>None\<close> is the early return with size zero.\<close>

definition values_size :: "Value list \<Rightarrow> nat option" where
  "values_size vs = (case vs of
      [] \<Rightarrow> None
    | FloatValue _ _ # _ \<Rightarrow> Some (8 * length vs + 8 * length vs)
    | IntegerValue _ _ # _ \<Rightarrow> Some (8 * length vs + 8 * length vs)
    | UnsignedValue _ _ # _ \<Rightarrow> Some (8 * length vs + 8 * length vs)
    | BooleanValue _ _ # _ \<Rightarrow> Some (8 * length vs + length vs)
    | StringValue _ _ # _ \<Rightarrow> map_option (\<lambda>n. 8 * length vs + n) (string_sizes vs)
    | EmptyValue # _ \<Rightarrow> None)"

fun write_size :: "(bytes \<times> Value list) list \<Rightarrow> nat option" where
  "write_size [] = Some 0"
| "write_size ((k, vs) # kvs) = (case values_size vs of None \<Rightarrow> None | Some n \<Rightarrow> map_option (\<lambda>m. 7 + length k + n + m) (write_size kvs))"

definition write_MarshalSize :: "(bytes \<times> Value list) list \<Rightarrow> nat" where
  "write_MarshalSize kvs = (case write_size kvs of None \<Rightarrow> 0 | Some n \<Rightarrow> n)"

fun encode_value :: "byte \<Rightarrow> Value \<Rightarrow> wal_error + bytes" where
  "encode_value curType (FloatValue t x) = (if curType \<noteq> float64EntryType then Inl (WalError ''incorrect value'') else Inr (PutUint64 (u64_of t) @ PutUint64 x))"
| "encode_value curType (IntegerValue t x) = (if curType \<noteq> integerEntryType then Inl (WalError ''incorrect value'') else Inr (PutUint64 (u64_of t) @ PutUint64 (u64_of x)))"
| "encode_value curType (UnsignedValue t x) = (if curType \<noteq> unsignedEntryType then Inl (WalError ''incorrect value'') else Inr (PutUint64 (u64_of t) @ PutUint64 x))"
| "encode_value curType (BooleanValue t x) = (if curType \<noteq> booleanEntryType then Inl (WalError ''incorrect value'') else Inr (PutUint64 (u64_of t) @ [if x then 1 else 0]))"
| "encode_value curType (StringValue t x) = (if curType \<noteq> stringEntryType then Inl (WalError ''incorrect value'')
     else Inr (PutUint64 (u64_of t) @ PutUint32 (length x mod 2 ^ 32) @ x))"
| "encode_value curType EmptyValue = Inl (WalError ''unsupported value'')"

fun append_all :: "(wal_error + bytes) list \<Rightarrow> wal_error + bytes" where
  "append_all [] = Inr []"
| "append_all (Inl e # rs) = Inl e"
| "append_all (Inr b # rs) = (case append_all rs of Inl e \<Rightarrow> Inl e | Inr bs \<Rightarrow> Inr (b @ bs))"

definition encode_key :: "bytes \<times> Value list \<Rightarrow> wal_error + bytes" where
  "encode_key kv = (case kv of (k, vs) \<Rightarrow> (case vs of
      [] \<Rightarrow> Inl WalPanic
    | v # _ \<Rightarrow> (case value_type v of
        None \<Rightarrow> Inl (WalError ''unsupported value type'')
      | Some curType \<Rightarrow> append_all (Inr ([curType] @ PutUint16 (length k mod 2 ^ 16) @ k @ PutUint32 (length vs mod 2 ^ 32)) # map (encode_value curType) vs))))"

text \<open>The destination has the length that \<^verbatim>\<open>MarshalSize\<close> computes; when that is zero the first byte that is written is out of range.\<close>

definition encode_write :: "(bytes \<times> Value list) list \<Rightarrow> wal_error + bytes" where
  "encode_write kvs =
     (if kvs \<noteq> [] \<and> write_MarshalSize kvs = 0
      then (case snd (hd kvs) of EmptyValue # _ \<Rightarrow> Inl (WalError ''unsupported value type'') | _ \<Rightarrow> Inl WalPanic)
      else append_all (map encode_key kvs))"

subsection \<open>Decoding writes\<close>

definition rd :: "nat \<Rightarrow> bytes \<Rightarrow> wal_error + bytes \<times> bytes" where
  "rd n b = (if n \<le> length b then Inr (take n b, drop n b) else Inl WalPanic)"

text \<open>The loop over values of a fixed size: a time and \<open>m\<close> further bytes.\<close>

fun decode_fixed :: "(int \<Rightarrow> bytes \<Rightarrow> Value) \<Rightarrow> nat \<Rightarrow> nat \<Rightarrow> bytes \<Rightarrow> wal_error + Value list \<times> bytes" where
  "decode_fixed mk m 0 b = Inr ([], b)"
| "decode_fixed mk m (Suc n) b = (case rd 8 b of Inl e \<Rightarrow> Inl e | Inr (un, b1) \<Rightarrow>
     (case rd m b1 of Inl e \<Rightarrow> Inl e | Inr (v, b2) \<Rightarrow>
       (case decode_fixed mk m n b2 of Inl e \<Rightarrow> Inl e | Inr (vs, b3) \<Rightarrow> Inr (mk (i64_of (Uint64 un)) v # vs, b3))))"

fun decode_strings :: "nat \<Rightarrow> bytes \<Rightarrow> wal_error + Value list \<times> bytes" where
  "decode_strings 0 b = Inr ([], b)"
| "decode_strings (Suc n) b =
     (if 12 > length b then Inl ErrWALCorrupt
      else case rd 8 b of Inl e \<Rightarrow> Inl e | Inr (un, b1) \<Rightarrow>
        let len = Uint32 b1 in
        if len > length b1 then Inl ErrWALCorrupt
        else case rd 4 b1 of Inl e \<Rightarrow> Inl e | Inr (_, b2) \<Rightarrow>
          if len > length b2 then Inl ErrWALCorrupt
          else case rd len b2 of Inl e \<Rightarrow> Inl e | Inr (v, b3) \<Rightarrow>
            (case decode_strings n b3 of Inl e \<Rightarrow> Inl e | Inr (vs, b4) \<Rightarrow> Inr (StringValue (i64_of (Uint64 un)) v # vs, b4)))"

definition decode_wal_values :: "byte \<Rightarrow> nat \<Rightarrow> bytes \<Rightarrow> wal_error + Value list \<times> bytes" where
  "decode_wal_values t nvals b =
     (if t = float64EntryType then if 16 * nvals > length b then Inl ErrWALCorrupt else decode_fixed (\<lambda>un v. FloatValue un (Uint64 v)) 8 nvals b
      else if t = integerEntryType then if 16 * nvals > length b then Inl ErrWALCorrupt else decode_fixed (\<lambda>un v. IntegerValue un (i64_of (Uint64 v))) 8 nvals b
      else if t = unsignedEntryType then if 16 * nvals > length b then Inl ErrWALCorrupt else decode_fixed (\<lambda>un v. UnsignedValue un (Uint64 v)) 8 nvals b
      else if t = booleanEntryType then if 9 * nvals > length b then Inl ErrWALCorrupt else decode_fixed (\<lambda>un v. BooleanValue un (v ! 0 = 1)) 1 nvals b
      else if t = stringEntryType then decode_strings nvals b
      else Inl (WalError ''unsupported value type''))"

text \<open>One round of the loop; \<open>L\<close> is the length of the whole entry.\<close>

definition decode_key :: "nat \<Rightarrow> bytes \<Rightarrow> wal_error + (bytes \<times> Value list) \<times> bytes" where
  "decode_key L b = (case rd 1 b of Inl e \<Rightarrow> Inl e | Inr (tb, b1) \<Rightarrow>
     if 2 > length b1 then Inl ErrWALCorrupt
     else case rd 2 b1 of Inl e \<Rightarrow> Inl e | Inr (lb, b2) \<Rightarrow>
       let len = Uint16 lb in
       if len > length b2 then Inl ErrWALCorrupt
       else case rd len b2 of Inl e \<Rightarrow> Inl e | Inr (k, b3) \<Rightarrow>
         if 4 > length b3 then Inl ErrWALCorrupt
         else case rd 4 b3 of Inl e \<Rightarrow> Inl e | Inr (nb, b4) \<Rightarrow>
           let nvals = Uint32 nb in
           if nvals \<le> 0 \<or> nvals > L then Inl ErrWALCorrupt
           else case decode_wal_values (tb ! 0) nvals b4 of Inl e \<Rightarrow> Inl e | Inr (vs, b5) \<Rightarrow> Inr ((k, vs), b5))"

lemma decode_fixed_shorter: "decode_fixed mk m n b = Inr (vs, b') \<Longrightarrow> length b' \<le> length b"
  by (induction n arbitrary: b vs b') (fastforce simp: rd_def split: sum.splits prod.splits if_splits)+

lemma decode_strings_shorter: "decode_strings n b = Inr (vs, b') \<Longrightarrow> length b' \<le> length b"
  by (induction n arbitrary: b vs b') (fastforce simp: rd_def Let_def split: sum.splits prod.splits if_splits)+

lemma decode_values_shorter: "decode_wal_values t n b = Inr (vs, b') \<Longrightarrow> length b' \<le> length b"
  by (auto simp: decode_wal_values_def split: if_splits dest: decode_fixed_shorter decode_strings_shorter)

lemma decode_key_shorter: "decode_key L b = Inr (kv, b') \<Longrightarrow> length b' < length b"
  by (auto simp: decode_key_def rd_def Let_def split: sum.splits prod.splits if_splits dest!: decode_values_shorter)

text \<open>The values that were decoded before an error stay in the entry.\<close>

function unmarshal_write :: "nat \<Rightarrow> bytes \<Rightarrow> (bytes \<times> Value list) list \<Rightarrow> wal_error option \<times> (bytes \<times> Value list) list" where
  "unmarshal_write L b m = (if b = [] then (None, m)
     else case decode_key L b of
       Inl e \<Rightarrow> (Some e, m)
     | Inr ((k, vs), b') \<Rightarrow> unmarshal_write L b' (AList.update k vs m))"
  by pat_completeness auto
termination by (relation "measure (\<lambda>(L, b, m). length b)") (auto dest: decode_key_shorter)

declare unmarshal_write.simps [simp del]

subsection \<open>Deletes\<close>

definition newline :: byte where "newline = 10"

text \<open>\<^verbatim>\<open>bytes.Split\<close> at newlines.\<close>

fun split_lines :: "bytes \<Rightarrow> bytes list" where
  "split_lines [] = [[]]"
| "split_lines (c # b) = (if c = newline then [] # split_lines b
     else case split_lines b of [] \<Rightarrow> [[c]] | l # ls \<Rightarrow> (c # l) # ls)"

definition delete_MarshalSize :: "bytes list \<Rightarrow> nat" where
  "delete_MarshalSize keys = (if keys = [] then 0 else length keys + sum_list (map length keys))"

definition encode_delete :: "bytes list \<Rightarrow> wal_error + bytes" where
  "encode_delete keys = (if keys = [] then Inl WalPanic else Inr (butlast (concat (map (\<lambda>k. k @ [newline]) keys))))"

definition range_MarshalSize :: "bytes list \<Rightarrow> nat" where
  "range_MarshalSize keys = 16 + 4 * length keys + sum_list (map length keys)"

definition encode_range :: "bytes list \<Rightarrow> int \<Rightarrow> int \<Rightarrow> bytes" where
  "encode_range keys mn mx = PutUint64 (u64_of mn) @ PutUint64 (u64_of mx) @ concat (map (\<lambda>k. PutUint32 (length k mod 2 ^ 32) @ k) keys)"

function range_keys :: "bytes \<Rightarrow> bytes list \<Rightarrow> wal_error option \<times> bytes list" where
  "range_keys b keys = (if b = [] then (None, keys)
     else if 4 > length b then (Some ErrWALCorrupt, keys)
     else let sz = Uint32 b; b' = drop 4 b in
       if sz > length b' then (Some ErrWALCorrupt, keys)
       else range_keys (drop sz b') (keys @ [take sz b']))"
  by pat_completeness auto
termination by (relation "measure (\<lambda>(b, keys). length b)") auto

declare range_keys.simps [simp del]

subsection \<open>Entries\<close>

fun entry_Type :: "walEntry \<Rightarrow> byte" where
  "entry_Type (WriteWALEntry kvs) = WriteWALEntryType"
| "entry_Type (DeleteWALEntry keys) = DeleteWALEntryType"
| "entry_Type (DeleteRangeWALEntry keys mn mx) = DeleteRangeWALEntryType"

fun MarshalSize :: "walEntry \<Rightarrow> nat" where
  "MarshalSize (WriteWALEntry kvs) = write_MarshalSize kvs"
| "MarshalSize (DeleteWALEntry keys) = delete_MarshalSize keys"
| "MarshalSize (DeleteRangeWALEntry keys mn mx) = range_MarshalSize keys"

fun entry_Encode :: "walEntry \<Rightarrow> wal_error + bytes" where
  "entry_Encode (WriteWALEntry kvs) = encode_write kvs"
| "entry_Encode (DeleteWALEntry keys) = encode_delete keys"
| "entry_Encode (DeleteRangeWALEntry keys mn mx) = Inr (encode_range keys mn mx)"

text \<open>\<^verbatim>\<open>UnmarshalBinary\<close>, as a function from the entry before it to the error and the entry after it.\<close>

fun entry_UnmarshalBinary :: "walEntry \<Rightarrow> bytes \<Rightarrow> wal_error option \<times> walEntry" where
  "entry_UnmarshalBinary (WriteWALEntry kvs) b = map_prod (\<lambda>e. e) WriteWALEntry (unmarshal_write (length b) b kvs)"
| "entry_UnmarshalBinary (DeleteWALEntry keys) b = (None, DeleteWALEntry (split_lines b))"
| "entry_UnmarshalBinary (DeleteRangeWALEntry keys mn mx) b =
     (if length b < 16 then (Some ErrWALCorrupt, DeleteRangeWALEntry keys mn mx)
      else map_prod (\<lambda>e. e) (\<lambda>ks. DeleteRangeWALEntry ks (i64_of (Uint64 b)) (i64_of (Uint64 (drop 8 b)))) (range_keys (drop 16 b) keys))"

text \<open>The empty entry that the reader allocates for a type byte.\<close>

definition new_entry :: "byte \<Rightarrow> walEntry option" where
  "new_entry t =
     (if t = WriteWALEntryType then Some (WriteWALEntry [])
      else if t = DeleteWALEntryType then Some (DeleteWALEntry [])
      else if t = DeleteRangeWALEntryType then Some (DeleteRangeWALEntry [] 0 0)
      else None)"

subsection \<open>Segments\<close>

text \<open>The bytes that \<^verbatim>\<open>WALSegmentWriter.Write\<close> adds to a segment.\<close>

definition wal_frame :: "byte \<Rightarrow> bytes \<Rightarrow> bytes" where
  "wal_frame t compressed = [t] @ PutUint32 (length compressed mod 2 ^ 32) @ compressed"

record segmentReader =
  sr_rest :: bytes
  sr_entry :: "walEntry option"
  sr_n :: nat
  sr_err :: "wal_error option"

definition NewWALSegmentReader :: "bytes \<Rightarrow> segmentReader" where
  "NewWALSegmentReader file = \<lparr> sr_rest = file, sr_entry = None, sr_n = 0, sr_err = None \<rparr>"

text \<open>\<^verbatim>\<open>io.ReadFull\<close>: the bytes, or the error, and what is left of the input.\<close>

definition ReadFull :: "nat \<Rightarrow> bytes \<Rightarrow> (wal_error + bytes) \<times> bytes" where
  "ReadFull n b = (if n \<le> length b then (Inr (take n b), drop n b) else (Inl (if b = [] then WalEOF else UnexpectedEOF), []))"

definition segment_decode :: "snappy \<Rightarrow> byte \<Rightarrow> bytes \<Rightarrow> segmentReader \<Rightarrow> segmentReader" where
  "segment_decode sn t compressed r = (case snappy_Decode sn compressed of
      Inl e \<Rightarrow> r\<lparr> sr_err := Some (WalError e) \<rparr>
    | Inr data \<Rightarrow> (case new_entry t of
        None \<Rightarrow> r\<lparr> sr_err := Some (WalError ''unknown wal entry type'') \<rparr>
      | Some e \<Rightarrow> (case entry_UnmarshalBinary e data of (err, e') \<Rightarrow>
          r\<lparr> sr_entry := Some e', sr_err := err, sr_n := sr_n r + (if err = None then 5 + length compressed else 0) \<rparr>)))"

definition segment_Next :: "snappy \<Rightarrow> segmentReader \<Rightarrow> bool \<times> segmentReader" where
  "segment_Next sn r = (case ReadFull 5 (sr_rest r) of
      (Inl e, b) \<Rightarrow> if e = WalEOF then (False, r) else (True, r\<lparr> sr_rest := b, sr_err := Some e \<rparr>)
    | (Inr lv, b) \<Rightarrow> (case ReadFull (Uint32 (drop 1 lv)) b of
        (Inl e, b') \<Rightarrow> (True, r\<lparr> sr_rest := b', sr_err := Some e \<rparr>)
      | (Inr compressed, b') \<Rightarrow> (True, segment_decode sn (lv ! 0) compressed (r\<lparr> sr_rest := b' \<rparr>))))"

definition segment_Read :: "segmentReader \<Rightarrow> wal_error + walEntry option" where
  "segment_Read r = (case sr_err r of Some e \<Rightarrow> Inl e | None \<Rightarrow> Inr (sr_entry r))"

lemma segment_Next_shorter: "segment_Next sn r = (True, r') \<Longrightarrow> length (sr_rest r') < length (sr_rest r)"
  by (auto simp: segment_Next_def ReadFull_def segment_decode_def split: if_splits sum.splits option.splits prod.splits)

text \<open>
  The loop that loads a segment: the entries it hands on, whether it stopped at an error (the file is then truncated to the count of the
  reader), and the reader afterwards.
\<close>

function read_segment :: "snappy \<Rightarrow> segmentReader \<Rightarrow> walEntry list \<times> bool \<times> segmentReader" where
  "read_segment sn r = (case segment_Next sn r of
      (False, r') \<Rightarrow> ([], False, r')
    | (True, r') \<Rightarrow> (case segment_Read r' of
        Inl e \<Rightarrow> ([], True, r')
      | Inr entry \<Rightarrow> (case read_segment sn r' of (es, rest) \<Rightarrow> ((case entry of None \<Rightarrow> es | Some e \<Rightarrow> e # es), rest))))"
  by pat_completeness auto
termination by (relation "measure (\<lambda>(sn, r). length (sr_rest r))") (auto dest: segment_Next_shorter [OF sym])

declare read_segment.simps [simp del]

subsection \<open>Round trips\<close>

fun value_bytes :: "Value \<Rightarrow> bytes" where
  "value_bytes (FloatValue t x) = PutUint64 (u64_of t) @ PutUint64 x"
| "value_bytes (IntegerValue t x) = PutUint64 (u64_of t) @ PutUint64 (u64_of x)"
| "value_bytes (UnsignedValue t x) = PutUint64 (u64_of t) @ PutUint64 x"
| "value_bytes (BooleanValue t x) = PutUint64 (u64_of t) @ [if x then 1 else 0]"
| "value_bytes (StringValue t x) = PutUint64 (u64_of t) @ PutUint32 (length x) @ x"
| "value_bytes EmptyValue = []"

fun value_ok :: "Value \<Rightarrow> bool" where
  "value_ok (FloatValue t x) = in_i64 t"
| "value_ok (IntegerValue t x) = (in_i64 t \<and> in_i64 x)"
| "value_ok (UnsignedValue t x) = in_i64 t"
| "value_ok (BooleanValue t x) = in_i64 t"
| "value_ok (StringValue t x) = (in_i64 t \<and> length x < 2 ^ 32)"
| "value_ok EmptyValue = False"

definition values_ok :: "Value list \<Rightarrow> bool" where
  "values_ok vs \<longleftrightarrow> vs \<noteq> [] \<and> length vs < 2 ^ 32 \<and> list_all value_ok vs \<and> list_all (\<lambda>v. value_type v = value_type (hd vs)) vs"

fun entry_ok :: "walEntry \<Rightarrow> bool" where
  "entry_ok (WriteWALEntry kvs) = (distinct (map fst kvs) \<and> list_all (\<lambda>(k, vs). length k < 2 ^ 16 \<and> values_ok vs) kvs)"
| "entry_ok (DeleteWALEntry keys) = (keys \<noteq> [] \<and> list_all (\<lambda>k. newline \<notin> set k) keys)"
| "entry_ok (DeleteRangeWALEntry keys mn mx) = (list_all (\<lambda>k. length k < 2 ^ 32) keys \<and> in_i64 mn \<and> in_i64 mx)"

definition key_bytes :: "bytes \<times> Value list \<Rightarrow> bytes" where
  "key_bytes kv = [the (value_type (hd (snd kv)))] @ PutUint16 (length (fst kv)) @ fst kv @ PutUint32 (length (snd kv)) @ concat (map value_bytes (snd kv))"

lemma value_ok_type: "value_ok v \<Longrightarrow> \<exists>t. value_type v = Some t"
  by (cases v) auto

lemma encode_value_bytes: "value_ok v \<Longrightarrow> value_type v = Some t \<Longrightarrow> encode_value t v = Inr (value_bytes v)"
  by (cases v) auto

lemma append_all_Inr: "append_all (map (\<lambda>x. Inr (f x)) xs) = Inr (concat (map f xs))"
  by (induction xs) auto

lemma append_all_map: "(\<And>x. x \<in> set xs \<Longrightarrow> g x = Inr (f x)) \<Longrightarrow> append_all (map g xs) = Inr (concat (map f xs))"
  by (metis (no_types, lifting) append_all_Inr map_eq_conv)

lemma encode_key_bytes:
  assumes "length k < 2 ^ 16" "values_ok vs"
  shows "encode_key (k, vs) = Inr (key_bytes (k, vs))"
proof -
  obtain v vs' where vs: "vs = v # vs'" using assms(2) by (cases vs) (auto simp: values_ok_def)
  obtain t where t: "value_type v = Some t" using assms(2) value_ok_type by (auto simp: values_ok_def vs)
  have "append_all (map (encode_value t) vs) = Inr (concat (map value_bytes vs))"
    using assms(2) t by (intro append_all_map) (auto simp: values_ok_def vs list_all_iff intro!: encode_value_bytes)
  then show ?thesis using assms t by (simp add: encode_key_def key_bytes_def vs values_ok_def)
qed

lemma string_sizes_ok: "list_all (\<lambda>v. value_type v = Some stringEntryType) vs \<Longrightarrow>
   string_sizes vs = Some (length (concat (map value_bytes vs)) - 8 * length vs) \<and> 8 * length vs \<le> length (concat (map value_bytes vs))"
proof (induction vs)
  case (Cons v vs)
  then show ?case by (cases v) (auto simp: entry_types)
qed simp

lemma fixed_sizes: "list_all (\<lambda>v. length (value_bytes v) = n) vs \<Longrightarrow> length (concat (map value_bytes vs)) = n * length vs"
  by (induction vs) auto

lemma values_size_ok:
  assumes "values_ok vs"
  shows "values_size vs = Some (length (concat (map value_bytes vs)))"
proof -
  obtain v vs' where vs: "vs = v # vs'" using assms by (cases vs) (auto simp: values_ok_def)
  have same: "list_all (\<lambda>w. value_type w = value_type v) vs" using assms by (simp add: values_ok_def vs)
  have fixed: "list_all (\<lambda>w. length (value_bytes w) = (case v of BooleanValue _ _ \<Rightarrow> 9 | _ \<Rightarrow> 16)) vs"
    if "value_type v \<noteq> Some stringEntryType" "value_type v \<noteq> None"
    using same that unfolding list_all_iff
  proof (intro ballI)
    fix w assume "w \<in> set vs"
    then have "value_type w = value_type v" using same by (simp add: list_all_iff)
    then show "length (value_bytes w) = (case v of BooleanValue _ _ \<Rightarrow> 9 | _ \<Rightarrow> 16)"
      using that by (cases v; cases w) (auto simp: entry_types)
  qed
  show ?thesis
  proof (cases "value_type v = Some stringEntryType")
    case True
    then have "list_all (\<lambda>w. value_type w = Some stringEntryType) vs" using same by simp
    from string_sizes_ok [OF this] True show ?thesis
      by (cases v) (auto simp: values_size_def vs entry_types)
  next
    case False
    have "value_type v \<noteq> None" using assms value_ok_type by (auto simp: values_ok_def vs)
    from fixed_sizes [OF fixed [OF False this]] False this show ?thesis
      by (cases v) (simp_all add: values_size_def vs entry_types)
  qed
qed

lemma write_size_ok: "list_all (\<lambda>(k, vs). length k < 2 ^ 16 \<and> values_ok vs) kvs \<Longrightarrow> write_size kvs = Some (length (concat (map key_bytes kvs)))"
  by (induction kvs rule: write_size.induct) (auto simp: values_size_ok key_bytes_def)

lemma encode_write_bytes:
  assumes "list_all (\<lambda>(k, vs). length k < 2 ^ 16 \<and> values_ok vs) kvs"
  shows "encode_write kvs = Inr (concat (map key_bytes kvs))"
proof -
  have "append_all (map encode_key kvs) = Inr (concat (map key_bytes kvs))"
    using assms by (intro append_all_map) (auto simp: list_all_iff intro!: encode_key_bytes)
  moreover have "kvs \<noteq> [] \<Longrightarrow> write_MarshalSize kvs \<noteq> 0"
    using write_size_ok [OF assms] by (cases kvs) (auto simp: write_MarshalSize_def key_bytes_def)
  ultimately show ?thesis by (auto simp: encode_write_def)
qed

lemma rd_append [simp]: "n = length xs \<Longrightarrow> rd n (xs @ ys) = Inr (xs, ys)"
  by (simp add: rd_def)

lemma decode_fixed_bytes:
  assumes "\<And>v. v \<in> set vs \<Longrightarrow> \<exists>t p. value_bytes v = PutUint64 (u64_of t) @ p \<and> length p = m \<and> in_i64 t \<and> mk t p = v"
  shows "decode_fixed mk m (length vs) (concat (map value_bytes vs) @ rest) = Inr (vs, rest)"
  using assms
proof (induction vs)
  case (Cons v vs)
  from Cons.prems [of v] obtain t p where v: "value_bytes v = PutUint64 (u64_of t) @ p" "length p = m" "in_i64 t" "mk t p = v" by auto
  show ?case using Cons.IH Cons.prems v by (simp add: i64_id)
qed simp

lemma decode_strings_bytes:
  assumes "list_all (\<lambda>v. value_ok v \<and> value_type v = Some stringEntryType) vs"
  shows "decode_strings (length vs) (concat (map value_bytes vs) @ rest) = Inr (vs, rest)"
  using assms
proof (induction vs)
  case (Cons v vs)
  then obtain t x where v: "v = StringValue t x" by (cases v) (auto simp: entry_types)
  show ?case using Cons by (simp add: v Let_def Uint32_PutUint32 i64_id)
qed simp

text \<open>The four types of a fixed size.\<close>

lemma decode_floats:
  assumes "list_all (\<lambda>v. value_ok v \<and> value_type v = Some float64EntryType) vs"
  shows "decode_fixed (\<lambda>un v. FloatValue un (Uint64 v)) 8 (length vs) (concat (map value_bytes vs) @ rest) = Inr (vs, rest)"
proof (rule decode_fixed_bytes)
  fix w assume "w \<in> set vs"
  then have "value_ok w" "value_type w = Some float64EntryType" using assms by (auto simp: list_all_iff)
  then show "\<exists>t p. value_bytes w = PutUint64 (u64_of t) @ p \<and> length p = 8 \<and> in_i64 t \<and> FloatValue t (Uint64 p) = w"
    by (cases w) (fastforce simp: entry_types)+
qed

lemma decode_integers:
  assumes "list_all (\<lambda>v. value_ok v \<and> value_type v = Some integerEntryType) vs"
  shows "decode_fixed (\<lambda>un v. IntegerValue un (i64_of (Uint64 v))) 8 (length vs) (concat (map value_bytes vs) @ rest) = Inr (vs, rest)"
proof (rule decode_fixed_bytes)
  fix w assume "w \<in> set vs"
  then have "value_ok w" "value_type w = Some integerEntryType" using assms by (auto simp: list_all_iff)
  then show "\<exists>t p. value_bytes w = PutUint64 (u64_of t) @ p \<and> length p = 8 \<and> in_i64 t \<and> IntegerValue t (i64_of (Uint64 p)) = w"
    by (cases w) (fastforce simp: entry_types)+
qed

lemma decode_unsigneds:
  assumes "list_all (\<lambda>v. value_ok v \<and> value_type v = Some unsignedEntryType) vs"
  shows "decode_fixed (\<lambda>un v. UnsignedValue un (Uint64 v)) 8 (length vs) (concat (map value_bytes vs) @ rest) = Inr (vs, rest)"
proof (rule decode_fixed_bytes)
  fix w assume "w \<in> set vs"
  then have "value_ok w" "value_type w = Some unsignedEntryType" using assms by (auto simp: list_all_iff)
  then show "\<exists>t p. value_bytes w = PutUint64 (u64_of t) @ p \<and> length p = 8 \<and> in_i64 t \<and> UnsignedValue t (Uint64 p) = w"
    by (cases w) (fastforce simp: entry_types)+
qed

lemma decode_booleans:
  assumes "list_all (\<lambda>v. value_ok v \<and> value_type v = Some booleanEntryType) vs"
  shows "decode_fixed (\<lambda>un v. BooleanValue un (v ! 0 = 1)) 1 (length vs) (concat (map value_bytes vs) @ rest) = Inr (vs, rest)"
proof (rule decode_fixed_bytes)
  fix w assume "w \<in> set vs"
  then have "value_ok w" "value_type w = Some booleanEntryType" using assms by (auto simp: list_all_iff)
  then show "\<exists>t p. value_bytes w = PutUint64 (u64_of t) @ p \<and> length p = 1 \<and> in_i64 t \<and> BooleanValue t (p ! 0 = 1) = w"
    by (cases w) (fastforce simp: entry_types)+
qed

lemma decode_values_bytes:
  assumes "values_ok vs"
  shows "decode_wal_values (the (value_type (hd vs))) (length vs) (concat (map value_bytes vs) @ rest) = Inr (vs, rest)"
proof -
  obtain v vs' where vs: "vs = v # vs'" using assms by (cases vs) (auto simp: values_ok_def)
  obtain t where t: "value_type v = Some t" using assms value_ok_type by (auto simp: values_ok_def vs)
  have all: "list_all (\<lambda>w. value_ok w \<and> value_type w = Some t) vs"
    using assms t by (auto simp: values_ok_def vs list_all_iff)
  have size: "values_size vs = Some (length (concat (map value_bytes vs)))" by (rule values_size_ok [OF assms])
  show ?thesis
    using all t size decode_floats [of vs rest] decode_integers [of vs rest] decode_unsigneds [of vs rest] decode_booleans [of vs rest]
      decode_strings_bytes [of vs rest]
    by (cases v) (auto simp: decode_wal_values_def vs values_size_def entry_types)
qed

lemma decode_key_bytes:
  assumes "length k < 2 ^ 16" "values_ok vs" "length vs \<le> L"
  shows "decode_key L (key_bytes (k, vs) @ rest) = Inr ((k, vs), rest)"
proof -
  have "length vs > 0" "length vs < 2 ^ 32" using assms(2) by (auto simp: values_ok_def)
  moreover have "rd (Suc 0) (t # b) = Inr ([t], b)" for t b by (simp add: rd_def)
  moreover have "Uint16 (PutUint16 (length k)) = length k" using Uint16_PutUint16 [of "length k" "[]"] assms(1) by simp
  moreover have "Uint32 (PutUint32 (length vs)) = length vs" using Uint32_PutUint32 [of "length vs" "[]"] calculation(2) by simp
  ultimately show ?thesis using assms decode_values_bytes [OF assms(2), of rest]
    by (simp add: decode_key_def key_bytes_def Let_def)
qed

lemma update_new: "k \<notin> set (map fst m) \<Longrightarrow> AList.update k v m = m @ [(k, v)]"
  by (induction m) auto

lemma length_value_bytes: "value_ok v \<Longrightarrow> 0 < length (value_bytes v)"
  by (cases v) auto

lemma length_values_bytes: "list_all value_ok vs \<Longrightarrow> length vs \<le> length (concat (map value_bytes vs))"
proof (induction vs)
  case (Cons v vs)
  then show ?case using length_value_bytes [of v] by (simp del: length_greater_0_conv)
qed simp

lemma unmarshal_write_bytes:
  assumes "list_all (\<lambda>(k, vs). length k < 2 ^ 16 \<and> values_ok vs) kvs" "distinct (map fst (m @ kvs))"
    "length (concat (map key_bytes kvs)) \<le> L"
  shows "unmarshal_write L (concat (map key_bytes kvs)) m = (None, m @ kvs)"
  using assms
proof (induction kvs arbitrary: m)
  case Nil
  then show ?case by (simp add: unmarshal_write.simps)
next
  case (Cons kv kvs)
  obtain k vs where kv: "kv = (k, vs)" by (cases kv)
  have vs: "length k < 2 ^ 16" "values_ok vs" using Cons.prems(1) by (auto simp: kv)
  then have "length vs \<le> L" using Cons.prems(3) length_values_bytes [of vs] by (simp add: kv key_bytes_def values_ok_def)
  from decode_key_bytes [OF vs this, of "concat (map key_bytes kvs)"]
  have "unmarshal_write L (concat (map key_bytes (kv # kvs))) m = unmarshal_write L (concat (map key_bytes kvs)) (AList.update k vs m)"
    by (subst unmarshal_write.simps) (auto simp: kv key_bytes_def)
  also have "AList.update k vs m = m @ [kv]" using Cons.prems(2) by (auto simp: kv intro: update_new)
  also have "unmarshal_write L (concat (map key_bytes kvs)) (m @ [kv]) = (None, (m @ [kv]) @ kvs)"
    using Cons.prems by (intro Cons.IH) auto
  finally show ?case by simp
qed

lemma split_lines_not_Nil [simp]: "split_lines b \<noteq> []"
  by (cases b) (auto split: list.splits)

lemma split_lines_append: "newline \<notin> set k \<Longrightarrow> split_lines (k @ newline # b) = k # split_lines b"
  by (induction k) auto

lemma split_lines_last: "newline \<notin> set k \<Longrightarrow> split_lines k = [k]"
  by (induction k) auto

lemma split_lines_join:
  assumes "keys \<noteq> []" "list_all (\<lambda>k. newline \<notin> set k) keys"
  shows "split_lines (butlast (concat (map (\<lambda>k. k @ [newline]) keys))) = keys"
  using assms
proof (induction keys)
  case (Cons k keys)
  then show ?case by (cases keys) (auto simp: butlast_append split_lines_append split_lines_last)
qed simp

lemma range_keys_bytes:
  "list_all (\<lambda>k. length k < 2 ^ 32) keys \<Longrightarrow> range_keys (concat (map (\<lambda>k. PutUint32 (length k mod 2 ^ 32) @ k) keys)) acc = (None, acc @ keys)"
proof (induction keys arbitrary: acc)
  case Nil
  then show ?case by (simp add: range_keys.simps)
next
  case (Cons k keys)
  have "PutUint32 (length k) \<noteq> []" using length_PutUint32 [of "length k"] by (metis list.size(3) zero_neq_numeral)
  then show ?case using Cons by (subst range_keys.simps) (simp add: Let_def Uint32_PutUint32)
qed

lemma entry_roundtrip:
  assumes "entry_ok e"
  shows "\<exists>b e0. entry_Encode e = Inr b \<and> new_entry (entry_Type e) = Some e0 \<and> entry_UnmarshalBinary e0 b = (None, e)"
proof (cases e)
  case (WriteWALEntry kvs)
  with assms encode_write_bytes [of kvs] unmarshal_write_bytes [of kvs "[]"] show ?thesis
    by (simp add: new_entry_def)
next
  case (DeleteWALEntry keys)
  with assms show ?thesis
    by (simp add: encode_delete_def new_entry_def split_lines_join WriteWALEntryType_def DeleteWALEntryType_def)
next
  case (DeleteRangeWALEntry keys mn mx)
  with assms range_keys_bytes [of keys "[]"] show ?thesis
    by (simp add: new_entry_def encode_range_def WriteWALEntryType_def DeleteWALEntryType_def DeleteRangeWALEntryType_def)
qed

text \<open>The buffer of \<^verbatim>\<open>MarshalSize\<close> bytes is large enough.\<close>

lemma encode_length:
  assumes "entry_ok e" "entry_Encode e = Inr b"
  shows "length b \<le> MarshalSize e"
proof (cases e)
  case (WriteWALEntry kvs)
  with assms encode_write_bytes [of kvs] write_size_ok [of kvs] show ?thesis by (auto simp: write_MarshalSize_def)
next
  case (DeleteWALEntry keys)
  with assms show ?thesis
    by (auto simp: encode_delete_def delete_MarshalSize_def length_concat comp_def sum_list_Suc split: if_splits)
next
  case (DeleteRangeWALEntry keys mn mx)
  with assms show ?thesis by (auto simp: encode_range_def range_MarshalSize_def length_concat comp_def sum_list_addf sum_list_triv)
qed

subsection \<open>Corrupt entries\<close>

text \<open>The checks of the lengths keep every index in range.\<close>

lemma decode_fixed_total: "(8 + m) * n \<le> length b \<Longrightarrow> \<exists>vs b'. decode_fixed mk m n b = Inr (vs, b')"
proof (induction n arbitrary: b)
  case (Suc n)
  have "(8 + m) * n \<le> length (drop m (drop 8 b))" using Suc.prems by (simp add: algebra_simps)
  from Suc.IH [OF this] Suc.prems show ?case by (auto simp: rd_def algebra_simps)
qed simp

lemma decode_strings_no_panic: "decode_strings n b \<noteq> Inl WalPanic"
  by (induction n arbitrary: b) (auto simp: rd_def Let_def split: sum.splits)

lemma decode_values_no_panic: "decode_wal_values t n b \<noteq> Inl WalPanic"
proof -
  have "16 * n \<le> length b \<Longrightarrow> decode_fixed mk 8 n b \<noteq> Inl WalPanic" "9 * n \<le> length b \<Longrightarrow> decode_fixed mk 1 n b \<noteq> Inl WalPanic" for mk
    using decode_fixed_total [of 8 n b mk] decode_fixed_total [of 1 n b mk] by auto
  then show ?thesis by (auto simp: decode_wal_values_def decode_strings_no_panic)
qed

lemma decode_key_no_panic: "b \<noteq> [] \<Longrightarrow> decode_key L b \<noteq> Inl WalPanic"
  by (cases b) (auto simp: decode_key_def rd_def Let_def decode_values_no_panic split: sum.splits)

lemma unmarshal_write_no_panic: "fst (unmarshal_write L b m) \<noteq> Some WalPanic"
  by (induction L b m rule: unmarshal_write.induct)
    (subst unmarshal_write.simps, auto split: sum.splits prod.splits dest: decode_key_no_panic)

lemma range_keys_no_panic: "fst (range_keys b keys) \<noteq> Some WalPanic"
  by (induction b keys rule: range_keys.induct) (subst range_keys.simps, auto simp: Let_def)

lemma unmarshal_no_panic: "fst (entry_UnmarshalBinary e b) \<noteq> Some WalPanic"
  by (cases e) (auto simp: unmarshal_write_no_panic range_keys_no_panic)

subsection \<open>Torn segments\<close>

definition entry_frame :: "snappy \<Rightarrow> walEntry \<Rightarrow> bytes" where
  "entry_frame sn e = (case entry_Encode e of Inl _ \<Rightarrow> [] | Inr b \<Rightarrow> wal_frame (entry_Type e) (snappy_Encode sn b))"

definition entry_fits :: "snappy \<Rightarrow> walEntry \<Rightarrow> bool" where
  "entry_fits sn e \<longleftrightarrow> entry_ok e \<and> length (entry_frame sn e) < 2 ^ 32"

lemma entry_fits_cases:
  assumes "snappy_ok sn" "entry_fits sn e"
  obtains c b e0 where "entry_frame sn e = [entry_Type e] @ PutUint32 (length c) @ c" "length c < 2 ^ 32"
    "snappy_Decode sn c = Inr b" "new_entry (entry_Type e) = Some e0" "entry_UnmarshalBinary e0 b = (None, e)"
proof -
  obtain b e0 where b: "entry_Encode e = Inr b" "new_entry (entry_Type e) = Some e0" "entry_UnmarshalBinary e0 b = (None, e)"
    using entry_roundtrip [of e] assms(2) by (auto simp: entry_fits_def)
  show ?thesis
    by (rule that [of "snappy_Encode sn b" b e0]) (use assms b in \<open>auto simp: entry_fits_def entry_frame_def wal_frame_def snappy_ok_def\<close>)
qed

lemma segment_Next_frame:
  assumes "snappy_ok sn" "entry_fits sn e" "sr_rest r = entry_frame sn e @ b"
  shows "segment_Next sn r = (True, r\<lparr> sr_rest := b, sr_entry := Some e, sr_err := None, sr_n := sr_n r + length (entry_frame sn e) \<rparr>)"
proof -
  from assms(1, 2) obtain c d e0 where c: "entry_frame sn e = [entry_Type e] @ PutUint32 (length c) @ c" "length c < 2 ^ 32"
    "snappy_Decode sn c = Inr d" "new_entry (entry_Type e) = Some e0" "entry_UnmarshalBinary e0 d = (None, e)" by (rule entry_fits_cases)
  have "ReadFull 5 (sr_rest r) = (Inr (entry_Type e # PutUint32 (length c)), c @ b)"
    by (simp add: ReadFull_def assms(3) c(1) numeral_eq_Suc)
  moreover have "Uint32 (PutUint32 (length c)) = length c" using Uint32_PutUint32 [OF c(2), of "[]"] by simp
  moreover have "ReadFull (length c) (c @ b) = (Inr c, b)" by (simp add: ReadFull_def)
  ultimately show ?thesis by (simp add: segment_Next_def segment_decode_def c)
qed

lemma segment_Next_torn:
  assumes "snappy_ok sn" "entry_fits sn e" "sr_rest r = take k (entry_frame sn e)" "0 < k" "k < length (entry_frame sn e)"
  shows "\<exists>r' err. segment_Next sn r = (True, r') \<and> sr_err r' = Some err \<and> sr_n r' = sr_n r"
proof -
  from assms(1, 2) obtain c d e0 where c: "entry_frame sn e = [entry_Type e] @ PutUint32 (length c) @ c" "length c < 2 ^ 32" by (rule entry_fits_cases)
  have len: "length (sr_rest r) = k" using assms(3, 5) by simp
  show ?thesis
  proof (cases "5 \<le> k")
    case True
    then have "sr_rest r = (entry_Type e # PutUint32 (length c)) @ take (k - 5) c"
      by (simp add: assms(3) c(1) take_Cons' numeral_eq_Suc)
    then have "ReadFull 5 (sr_rest r) = (Inr (entry_Type e # PutUint32 (length c)), take (k - 5) c)"
      by (simp add: ReadFull_def numeral_eq_Suc)
    moreover have "Uint32 (PutUint32 (length c)) = length c" using Uint32_PutUint32 [OF c(2), of "[]"] by simp
    moreover have "k - 5 < length c" using True assms(5) c(1) by simp
    ultimately show ?thesis by (simp add: segment_Next_def ReadFull_def)
  next
    case False
    have "sr_rest r \<noteq> []" using len assms(4) by auto
    then show ?thesis using False len by (simp add: segment_Next_def ReadFull_def)
  qed
qed

definition segment_bytes :: "snappy \<Rightarrow> walEntry list \<Rightarrow> bytes" where
  "segment_bytes sn es = concat (map (entry_frame sn) es)"

lemma segment_bytes_simps [simp]: "segment_bytes sn [] = []" "segment_bytes sn (e # es) = entry_frame sn e @ segment_bytes sn es"
  "segment_bytes sn (es @ es') = segment_bytes sn es @ segment_bytes sn es'"
  by (simp_all add: segment_bytes_def)

text \<open>The first \<open>m\<close> entries are the ones that end within the first \<open>k\<close> bytes.\<close>

definition complete_within :: "snappy \<Rightarrow> walEntry list \<Rightarrow> nat \<Rightarrow> nat \<Rightarrow> bool" where
  "complete_within sn es k m \<longleftrightarrow> m \<le> length es \<and> length (segment_bytes sn (take m es)) \<le> k
     \<and> (m < length es \<longrightarrow> k < length (segment_bytes sn (take (Suc m) es)))"

lemma complete_within_Suc:
  "length (entry_frame sn e) \<le> k \<Longrightarrow> complete_within sn es (k - length (entry_frame sn e)) m \<Longrightarrow> complete_within sn (e # es) k (Suc m)"
  by (auto simp: complete_within_def)

lemma read_segment_prefix:
  assumes "snappy_ok sn" "list_all (entry_fits sn) es" "sr_rest r = take k (segment_bytes sn es)" "sr_err r = None" "k \<le> length (segment_bytes sn es)"
  shows "\<exists>m r'. complete_within sn es k m \<and> read_segment sn r = (take m es, length (segment_bytes sn (take m es)) < k, r')
    \<and> sr_n r' = sr_n r + length (segment_bytes sn (take m es))"
  using assms(2-)
proof (induction es arbitrary: r k)
  case Nil
  then show ?case by (subst read_segment.simps) (simp add: segment_Next_def ReadFull_def complete_within_def)
next
  case (Cons e es)
  let ?f = "entry_frame sn e"
  have fits: "entry_fits sn e" using Cons.prems(1) by simp
  consider "k = 0" "k < length ?f" | "0 < k" "k < length ?f" | "length ?f \<le> k" by linarith
  then show ?case
  proof cases
    case 1
    then show ?thesis using Cons.prems
      by (subst read_segment.simps) (auto simp: segment_Next_def ReadFull_def complete_within_def intro!: exI [of _ 0])
  next
    case 2
    then obtain r' err where "segment_Next sn r = (True, r')" "sr_err r' = Some err" "sr_n r' = sr_n r"
      using segment_Next_torn [OF assms(1) fits _ 2, of r] Cons.prems by auto
    then show ?thesis using 2
      by (subst read_segment.simps) (auto simp: segment_Read_def complete_within_def intro!: exI [of _ 0])
  next
    case 3
    let ?r = "r\<lparr> sr_rest := take (k - length ?f) (segment_bytes sn es), sr_entry := Some e, sr_err := None, sr_n := sr_n r + length ?f \<rparr>"
    have nxt: "segment_Next sn r = (True, ?r)"
      by (rule segment_Next_frame [OF assms(1) fits]) (use Cons.prems 3 in simp)
    have "k - length ?f \<le> length (segment_bytes sn es)" using Cons.prems(4) by simp
    with Cons.prems(1) Cons.IH [of ?r "k - length ?f"]
    obtain m r' where m: "complete_within sn es (k - length ?f) m"
      "read_segment sn ?r = (take m es, length (segment_bytes sn (take m es)) < k - length ?f, r')"
      "sr_n r' = sr_n ?r + length (segment_bytes sn (take m es))" by auto
    have "read_segment sn r = (take (Suc m) (e # es), length (segment_bytes sn (take (Suc m) (e # es))) < k, r')"
      using nxt m(2) 3 by (subst read_segment.simps) (auto simp: segment_Read_def)
    then show ?thesis using m complete_within_Suc [OF 3 m(1)] by (intro exI [of _ "Suc m"] exI [of _ r']) auto
  qed
qed

subsection \<open>What a decoded entry looks like\<close>

lemma getBE_take_bound: "getBE (take n b) < 256 ^ n"
  by (rule less_le_trans [OF getBE_bound]) (simp add: power_increasing)

lemma Uint32_bound: "Uint32 b < 2 ^ 32"
  using getBE_take_bound [of 4 b] by (simp add: Uint32_def)

lemma Uint16_bound: "Uint16 b < 2 ^ 16"
  using getBE_take_bound [of 2 b] by (simp add: Uint16_def)

lemma decode_fixed_type:
  "decode_fixed mk m n b = Inr (vs, b') \<Longrightarrow> (\<And>t p. in_i64 t \<Longrightarrow> P (mk t p)) \<Longrightarrow> length vs = n \<and> list_all P vs"
  by (induction n arbitrary: b vs b') (fastforce simp: rd_def split: sum.splits prod.splits if_splits)+

lemma decode_strings_type:
  "decode_strings n b = Inr (vs, b') \<Longrightarrow> length vs = n \<and> list_all (\<lambda>v. value_ok v \<and> value_type v = Some stringEntryType) vs"
proof (induction n arbitrary: b vs b')
  case (Suc n)
  then show ?case using Uint32_bound [of "drop 8 b"]
    by (fastforce simp: rd_def Let_def split: sum.splits prod.splits if_splits)
qed simp

lemma decode_values_type:
  assumes "decode_wal_values t n b = Inr (vs, b')"
  shows "length vs = n \<and> list_all (\<lambda>v. value_ok v \<and> value_type v = Some t) vs"
  using assms unfolding decode_wal_values_def
  by (auto split: if_splits elim!: decode_fixed_type [THEN conjunct1] decode_fixed_type [THEN conjunct2] dest: decode_strings_type)

lemma decode_key_type:
  assumes "decode_key L b = Inr ((k, vs), b')"
  shows "length k < 2 ^ 16 \<and> values_ok vs"
proof -
  from assms obtain t n b4 b5 where d: "decode_wal_values t n b4 = Inr (vs, b5)" "0 < n" "n < 2 ^ 32" "length k < 2 ^ 16"
    using Uint16_bound [of "take 2 (drop 1 b)"] Uint32_bound
    by (fastforce simp: decode_key_def rd_def Let_def split: sum.splits prod.splits if_splits)
  from decode_values_type [OF d(1)] d(2-) show ?thesis by (cases vs) (auto simp: values_ok_def list_all_iff)
qed

lemma list_all_update: "list_all P m \<Longrightarrow> P (k, vs) \<Longrightarrow> list_all P (AList.update k vs m)"
  by (induction m) auto

lemma unmarshal_write_type:
  "entry_ok (WriteWALEntry m) \<Longrightarrow> entry_ok (WriteWALEntry (snd (unmarshal_write L b m)))"
proof (induction L b m rule: unmarshal_write.induct)
  case (1 L b m)
  show ?case
  proof (cases "b = [] \<or> (\<exists>e. decode_key L b = Inl e)")
    case True
    then show ?thesis using 1 by (subst unmarshal_write.simps) auto
  next
    case False
    then obtain k vs b' where d: "decode_key L b = Inr ((k, vs), b')" by (metis sumE surj_pair)
    have "entry_ok (WriteWALEntry (AList.update k vs m))"
      using 1(2) decode_key_type [OF d] by (simp add: list_all_update distinct_update)
    from 1(1) [OF _ d refl refl this] False d show ?thesis by (subst unmarshal_write.simps) auto
  qed
qed

lemma split_lines_type: "list_all (\<lambda>k. newline \<notin> set k) (split_lines b)"
  by (induction b) (auto split: list.splits)

lemma range_keys_type: "list_all (\<lambda>k. length k < 2 ^ 32) keys \<Longrightarrow> list_all (\<lambda>k. length k < 2 ^ 32) (snd (range_keys b keys))"
proof (induction b keys rule: range_keys.induct)
  case (1 b keys)
  show ?case using 1 Uint32_bound [of b] by (subst range_keys.simps) (auto simp: Let_def)
qed

lemma in_i64_0: "in_i64 0"
  by (simp add: in_i64_def)

text \<open>C39: Whatever bytes a block of the log holds, the entry that is decoded from them is well typed, also when decoding stops at an
  error. The keys of a write are distinct, every key has at least one value and values of one type only, times and integers fit 64 bits, a
  deleted key has no newline.\<close>

theorem unmarshal_well_typed:
  assumes "new_entry t = Some e0"
  shows "entry_ok (snd (entry_UnmarshalBinary e0 b)) \<and> entry_Type (snd (entry_UnmarshalBinary e0 b)) = t"
  using assms unmarshal_write_type [of "[]" "length b" b] split_lines_type [of b] range_keys_type [of "[]" "drop 16 b"] in_i64_0
  by (auto simp: new_entry_def split: if_splits)

theorem unmarshal_well_typed_witness:
  "entry_ok (snd (entry_UnmarshalBinary (DeleteWALEntry []) [97, 10, 98])) \<and> entry_Type (snd (entry_UnmarshalBinary (DeleteWALEntry []) [97, 10, 98])) = DeleteWALEntryType"
  by (rule unmarshal_well_typed) (simp add: new_entry_def WriteWALEntryType_def DeleteWALEntryType_def)

lemma segment_decode_no_panic: "sr_err (segment_decode sn t c r) \<noteq> Some WalPanic"
  by (cases "snappy_Decode sn c"; cases "new_entry t") (simp_all add: segment_decode_def case_prod_unfold unmarshal_no_panic)

text \<open>Reading a segment never indexes out of range, whatever the file holds: no call of the reader ends in a panic.\<close>

theorem segment_Next_no_panic:
  assumes "sr_err r \<noteq> Some WalPanic"
  shows "sr_err (snd (segment_Next sn r)) \<noteq> Some WalPanic"
  using assms by (simp add: segment_Next_def ReadFull_def segment_decode_no_panic)

theorem segment_Next_no_panic_witness: "sr_err (snd (segment_Next plain_snappy (NewWALSegmentReader [1, 0, 0, 0, 1, 4]))) \<noteq> Some WalPanic"
  by (rule segment_Next_no_panic) (simp add: NewWALSegmentReader_def)

text \<open>C3: A segment that was cut at any byte gives back exactly the entries that were completely written, in their order. The loader sees an
  error exactly when a part of an entry is left behind them, and the count of the reader, to which the loader then truncates the file, is the
  end of the last complete entry.\<close>

theorem torn_segment:
  assumes "snappy_ok sn" "list_all (entry_fits sn) es" "k \<le> length (segment_bytes sn es)"
  shows "\<exists>m r'. complete_within sn es k m
    \<and> read_segment sn (NewWALSegmentReader (take k (segment_bytes sn es))) = (take m es, length (segment_bytes sn (take m es)) < k, r')
    \<and> sr_n r' = length (segment_bytes sn (take m es))"
  using read_segment_prefix [OF assms(1, 2) _ _ assms(3), of "NewWALSegmentReader (take k (segment_bytes sn es))"]
  by (simp add: NewWALSegmentReader_def)

theorem torn_segment_witness:
  "\<exists>m r'. complete_within plain_snappy [DeleteWALEntry [[97]], DeleteRangeWALEntry [[98]] 1 2] 8 m
    \<and> read_segment plain_snappy (NewWALSegmentReader (take 8 (segment_bytes plain_snappy [DeleteWALEntry [[97]], DeleteRangeWALEntry [[98]] 1 2])))
      = (take m [DeleteWALEntry [[97]], DeleteRangeWALEntry [[98]] 1 2],
         length (segment_bytes plain_snappy (take m [DeleteWALEntry [[97]], DeleteRangeWALEntry [[98]] 1 2])) < 8, r')
    \<and> sr_n r' = length (segment_bytes plain_snappy (take m [DeleteWALEntry [[97]], DeleteRangeWALEntry [[98]] 1 2]))"
  by (rule torn_segment [OF plain_snappy_ok])
    (simp_all add: entry_fits_def entry_frame_def wal_frame_def encode_delete_def encode_range_def plain_snappy_def newline_def in_i64_def segment_bytes_def)

end
