(* ===== verification/Wal.thy ===== *)
theory Wal
  imports Wal_Entry Go_Strconv
begin

text \<open>
  The write-ahead log, type \<^verbatim>\<open>WAL\<close> and \<^verbatim>\<open>WALSegmentWriter\<close> of \<^verbatim>\<open>tsdb/engine/tsm1/wal.go\<close>: segment files in a directory, the writer of the
  current segment, and the calls that append entries, sync, roll, close, reopen and remove segments.

  The directory is an association list from names to contents, with paths relative to it. An open file is written at the position of its writer,
  without truncating what the file held before, as the code opens it. Opening a file may fail; writing to an open file succeeds, and
  syncing or closing a file that is closed already fails. Bytes reach the file when the writer is flushed. Times and trace logs are left out,
  and the goroutine that syncs is the step \<open>wal_sync\<close>, which may come at any moment after an append.
\<close>

type_synonym wal_dir = "(string \<times> bytes) list"

record segmentWriter =
  sw_name :: string
  sw_pos :: nat
  sw_open :: bool
  sw_buffered :: bytes
  sw_size :: nat

record wal =
  w_currentSegmentID :: nat
  w_writer :: "segmentWriter option"
  w_closing :: bool
  w_once :: bool
  w_waiters :: nat
  w_OldBytes :: nat
  w_CurrentBytes :: nat
  w_WriteOK :: nat
  w_WriteErr :: nat

definition DefaultSegmentSize :: nat where "DefaultSegmentSize = 10 * 1024 * 1024"
definition WALFileExtension :: string where "WALFileExtension = ''wal''"
definition WALFilePrefix :: string where "WALFilePrefix = ''_''"

text \<open>The capacity of the channel of goroutines that wait for a sync.\<close>

abbreviation syncWaiters_cap :: nat where "syncWaiters_cap \<equiv> 1024"

definition NewWAL :: wal where
  "NewWAL = \<lparr> w_currentSegmentID = 0, w_writer = None, w_closing = False, w_once = False, w_waiters = 0,
     w_OldBytes = 0, w_CurrentBytes = 0, w_WriteOK = 0, w_WriteErr = 0 \<rparr>"

subsection \<open>The writer of a segment\<close>

definition content :: "wal_dir \<Rightarrow> string \<Rightarrow> bytes" where
  "content d n = (case map_of d n of None \<Rightarrow> [] | Some b \<Rightarrow> b)"

definition NewWALSegmentWriter :: "string \<Rightarrow> segmentWriter" where
  "NewWALSegmentWriter n = \<lparr> sw_name = n, sw_pos = 0, sw_open = True, sw_buffered = [], sw_size = 0 \<rparr>"

text \<open>A written entry goes to the buffer of the writer. The buffer of the source has a bound and passes bytes on to the file whenever it is full;
  how much of it has reached the file matters after a crash only, and a crash below leaves an arbitrary number of the buffered bytes.\<close>

definition segment_Write :: "byte \<Rightarrow> bytes \<Rightarrow> segmentWriter \<Rightarrow> segmentWriter" where
  "segment_Write t compressed w = w\<lparr> sw_buffered := sw_buffered w @ wal_frame t compressed, sw_size := sw_size w + (5 + length compressed) \<rparr>"

definition overwrite :: "nat \<Rightarrow> bytes \<Rightarrow> bytes \<Rightarrow> bytes" where
  "overwrite p b f = take p f @ b @ drop (p + length b) f"

text \<open>A flush; a flush of a closed file with something to write fails.\<close>

definition segment_Flush :: "segmentWriter \<Rightarrow> wal_dir \<Rightarrow> wal_error option \<times> segmentWriter \<times> wal_dir" where
  "segment_Flush w d =
     (if sw_buffered w = [] then (None, w, d)
      else if \<not> sw_open w then (Some (WalError ''file already closed''), w, d)
      else (None, w\<lparr> sw_buffered := [], sw_pos := sw_pos w + length (sw_buffered w) \<rparr>,
            AList.update (sw_name w) (overwrite (sw_pos w) (sw_buffered w) (content d (sw_name w))) d))"

definition segment_sync :: "segmentWriter \<Rightarrow> wal_dir \<Rightarrow> wal_error option \<times> segmentWriter \<times> wal_dir" where
  "segment_sync w d = (case segment_Flush w d of
      (Some e, r) \<Rightarrow> (Some e, r)
    | (None, w', d') \<Rightarrow> (if sw_open w' then None else Some (WalError ''file already closed''), w', d'))"

definition segment_close :: "segmentWriter \<Rightarrow> wal_dir \<Rightarrow> wal_error option \<times> segmentWriter \<times> wal_dir" where
  "segment_close w d = (case segment_Flush w d of
      (Some e, r) \<Rightarrow> (Some e, r)
    | (None, w', d') \<Rightarrow> if sw_open w' then (None, w'\<lparr> sw_open := False \<rparr>, d') else (Some (WalError ''file already closed''), w', d'))"

subsection \<open>Segment files\<close>

definition segment_name :: "nat \<Rightarrow> string" where
  "segment_name i = WALFilePrefix @ format_padded 5 i @ ''.'' @ WALFileExtension"

text \<open>The pattern \<^verbatim>\<open>_*.wal\<close>.\<close>

definition is_segment :: "string \<Rightarrow> bool" where
  "is_segment n \<longleftrightarrow> length n \<ge> 5 \<and> take 1 n = WALFilePrefix \<and> drop (length n - 4) n = ''.'' @ WALFileExtension"

definition segmentFileNames :: "wal_dir \<Rightarrow> string list" where
  "segmentFileNames d = sort (filter is_segment (map fst d))"

fun split_dots :: "string \<Rightarrow> string list" where
  "split_dots [] = [[]]"
| "split_dots (c # s) = (if c = CHR ''.'' then [] # split_dots s else case split_dots s of [] \<Rightarrow> [[c]] | p # ps \<Rightarrow> (c # p) # ps)"

definition idFromFileName :: "string \<Rightarrow> wal_error + nat" where
  "idFromFileName n = (case split_dots n of
      [p, _] \<Rightarrow> (if p = [] then Inl WalPanic else case ParseUint (tl p) of
          Some i \<Rightarrow> if i < 2 ^ 32 then Inr i else Inl (WalError ''value out of range'')
        | None \<Rightarrow> Inl (WalError ''invalid syntax''))
    | _ \<Rightarrow> Inl (WalError ''wrong name format''))"

definition disk_size :: "wal_dir \<Rightarrow> string list \<Rightarrow> nat" where
  "disk_size d ns = sum_list (map (\<lambda>n. length (content d n)) ns)"

subsection \<open>The log\<close>

text \<open>\<^verbatim>\<open>WAL.sync\<close>: syncs the current segment and answers every waiter with the outcome.\<close>

definition wal_sync :: "wal \<Rightarrow> wal_dir \<Rightarrow> wal_error option \<times> wal \<times> wal_dir" where
  "wal_sync l d = (case w_writer l of
      None \<Rightarrow> (Some WalPanic, l, d)
    | Some w \<Rightarrow> (case segment_sync w d of (err, w', d') \<Rightarrow> (err, l\<lparr> w_writer := Some w', w_waiters := 0 \<rparr>, d')))"

text \<open>The first argument says whether a file can be opened for writing.\<close>

definition wal_open_segment :: "(string \<Rightarrow> bool) \<Rightarrow> wal \<Rightarrow> wal_dir \<Rightarrow> wal_error option \<times> wal \<times> wal_dir" where
  "wal_open_segment can l d = (let n = segment_name (w_currentSegmentID l) in
     if \<not> can n then (Some (WalError ''open''), l, d)
     else (None, l\<lparr> w_writer := Some (NewWALSegmentWriter n), w_CurrentBytes := 0 \<rparr>, AList.update n (content d n) d))"

definition newSegmentFile :: "(string \<Rightarrow> bool) \<Rightarrow> wal \<Rightarrow> wal_dir \<Rightarrow> wal_error option \<times> wal \<times> wal_dir" where
  "newSegmentFile can l d = (let l = l\<lparr> w_currentSegmentID := w_currentSegmentID l + 1 \<rparr> in
     case w_writer l of
       None \<Rightarrow> wal_open_segment can l d
     | Some _ \<Rightarrow> (case wal_sync l d of (_, l1, d1) \<Rightarrow>
         (case segment_close (the (w_writer l1)) d1 of
            (Some e, w', d2) \<Rightarrow> (Some e, l1\<lparr> w_writer := Some w' \<rparr>, d2)
          | (None, w', d2) \<Rightarrow> wal_open_segment can (l1\<lparr> w_writer := Some w', w_OldBytes := sw_size w' \<rparr>) d2)))"

definition due :: "nat \<Rightarrow> wal \<Rightarrow> bool" where
  "due n l \<longleftrightarrow> (case w_writer l of None \<Rightarrow> True | Some w \<Rightarrow> sw_size w > n)"

definition rollSegment :: "(string \<Rightarrow> bool) \<Rightarrow> wal \<Rightarrow> wal_dir \<Rightarrow> wal_error option \<times> wal \<times> wal_dir" where
  "rollSegment can l d = (if due DefaultSegmentSize l then newSegmentFile can l d else (None, l, d))"

definition CloseSegment :: "(string \<Rightarrow> bool) \<Rightarrow> wal \<Rightarrow> wal_dir \<Rightarrow> wal_error option \<times> wal \<times> wal_dir" where
  "CloseSegment can l d = (if due 0 l then newSegmentFile can l d else (None, l, d))"

text \<open>The part of \<^verbatim>\<open>writeToLog\<close> under the lock.\<close>

definition append_entry :: "(string \<Rightarrow> bool) \<Rightarrow> byte \<Rightarrow> bytes \<Rightarrow> wal \<Rightarrow> wal_dir \<Rightarrow> (wal_error + nat) \<times> wal \<times> wal_dir" where
  "append_entry can t compressed l d =
     (if w_closing l then (Inl ErrWALClosed, l, d)
      else case rollSegment can l d of
        (Some e, r) \<Rightarrow> (Inl e, r)
      | (None, l1, d1) \<Rightarrow> (let w = segment_Write t compressed (the (w_writer l1)); l2 = l1\<lparr> w_writer := Some w \<rparr> in
          if w_waiters l2 \<ge> syncWaiters_cap then (Inl (WalError ''error syncing wal''), l2, d1)
          else (Inr (w_currentSegmentID l2), l2\<lparr> w_waiters := w_waiters l2 + 1, w_CurrentBytes := sw_size w \<rparr>, d1)))"

text \<open>An append whose sync comes before the next append.\<close>

definition writeToLog :: "snappy \<Rightarrow> (string \<Rightarrow> bool) \<Rightarrow> walEntry \<Rightarrow> wal \<Rightarrow> wal_dir \<Rightarrow> (wal_error + nat) \<times> wal \<times> wal_dir" where
  "writeToLog sn can e l d = (case entry_Encode e of
      Inl err \<Rightarrow> (Inl err, l, d)
    | Inr b \<Rightarrow> (case append_entry can (entry_Type e) (snappy_Encode sn b) l d of
        (Inl err, r) \<Rightarrow> (Inl err, r)
      | (Inr segID, l1, d1) \<Rightarrow> (case wal_sync l1 d1 of
          (Some err, r) \<Rightarrow> (Inl err, r)
        | (None, r) \<Rightarrow> (Inr segID, r))))"

definition WriteMulti :: "snappy \<Rightarrow> (string \<Rightarrow> bool) \<Rightarrow> (bytes \<times> Value list) list \<Rightarrow> wal \<Rightarrow> wal_dir \<Rightarrow> (wal_error + nat) \<times> wal \<times> wal_dir" where
  "WriteMulti sn can values l d = (case writeToLog sn can (WriteWALEntry values) l d of
      (Inl e, l', d') \<Rightarrow> (Inl e, l'\<lparr> w_WriteErr := w_WriteErr l' + 1 \<rparr>, d')
    | (Inr i, l', d') \<Rightarrow> (Inr i, l'\<lparr> w_WriteOK := w_WriteOK l' + 1 \<rparr>, d'))"

definition wal_Delete :: "snappy \<Rightarrow> (string \<Rightarrow> bool) \<Rightarrow> bytes list \<Rightarrow> wal \<Rightarrow> wal_dir \<Rightarrow> (wal_error + nat) \<times> wal \<times> wal_dir" where
  "wal_Delete sn can keys l d = (if keys = [] then (Inr 0, l, d) else writeToLog sn can (DeleteWALEntry keys) l d)"

definition wal_DeleteRange :: "snappy \<Rightarrow> (string \<Rightarrow> bool) \<Rightarrow> bytes list \<Rightarrow> int \<Rightarrow> int \<Rightarrow> wal \<Rightarrow> wal_dir \<Rightarrow> (wal_error + nat) \<times> wal \<times> wal_dir" where
  "wal_DeleteRange sn can keys mn mx l d = (if keys = [] then (Inr 0, l, d) else writeToLog sn can (DeleteRangeWALEntry keys mn mx) l d)"

definition wal_Close :: "wal \<Rightarrow> wal_dir \<Rightarrow> wal \<times> wal_dir" where
  "wal_Close l d =
     (if w_once l then (l, d)
      else let l = l\<lparr> w_once := True, w_closing := True \<rparr> in
        case w_writer l of
          None \<Rightarrow> (l, d)
        | Some _ \<Rightarrow> (case wal_sync l d of (_, l1, d1) \<Rightarrow>
            (case segment_close (the (w_writer l1)) d1 of (_, _, d2) \<Rightarrow> (l1\<lparr> w_writer := None \<rparr>, d2))))"

definition wal_Open :: "(string \<Rightarrow> bool) \<Rightarrow> wal \<Rightarrow> wal_dir \<Rightarrow> wal_error option \<times> wal \<times> wal_dir" where
  "wal_Open can l d = (let segments = segmentFileNames d in
     if segments = [] then (None, l\<lparr> w_OldBytes := 0, w_closing := False \<rparr>, d)
     else case idFromFileName (last segments) of
       Inl e \<Rightarrow> (Some e, l, d)
     | Inr i \<Rightarrow>
        (let l = l\<lparr> w_currentSegmentID := i \<rparr>;
             empty = (content d (last segments) = []);
             d1 = (if empty then AList.delete (last segments) d else d);
             segments = (if empty then butlast segments else segments)
         in case newSegmentFile can l d1 of
              (Some e, r) \<Rightarrow> (Some e, r)
            | (None, l2, d2) \<Rightarrow> (None, l2\<lparr> w_OldBytes := disk_size d2 segments, w_closing := False \<rparr>, d2)))"

definition ClosedSegments :: "wal \<Rightarrow> wal_dir \<Rightarrow> string list" where
  "ClosedSegments l d = filter (\<lambda>n. n \<noteq> (case w_writer l of None \<Rightarrow> [] | Some w \<Rightarrow> sw_name w)) (segmentFileNames d)"

definition wal_Remove :: "string list \<Rightarrow> wal \<Rightarrow> wal_dir \<Rightarrow> wal \<times> wal_dir" where
  "wal_Remove files l d = (let d' = fold AList.delete files d in (l\<lparr> w_OldBytes := disk_size d' (segmentFileNames d') \<rparr>, d'))"

definition DiskSizeBytes :: "wal \<Rightarrow> nat" where
  "DiskSizeBytes l = w_OldBytes l + w_CurrentBytes l"

subsection \<open>Loading the segments\<close>

text \<open>
  \<^verbatim>\<open>CacheLoader.Load\<close> of \<^verbatim>\<open>cache.go\<close>: the entries of the files in their order. A file with a corrupt entry is truncated after the last good one.
\<close>

definition load_file :: "snappy \<Rightarrow> string \<Rightarrow> wal_dir \<Rightarrow> walEntry list \<times> wal_dir" where
  "load_file sn n d = (let b = content d n; d1 = AList.update n b d in
     if b = [] then ([], d1)
     else case read_segment sn (NewWALSegmentReader b) of (es, corrupt, r) \<Rightarrow> (es, if corrupt then AList.update n (take (sr_n r) b) d1 else d1))"

fun load_files :: "snappy \<Rightarrow> string list \<Rightarrow> wal_dir \<Rightarrow> walEntry list \<times> wal_dir" where
  "load_files sn [] d = ([], d)"
| "load_files sn (n # ns) d = (case load_file sn n d of (es, d1) \<Rightarrow> (case load_files sn ns d1 of (es', d') \<Rightarrow> (es @ es', d')))"

subsection \<open>Names of segments\<close>

lemma length_padded: "i < 100000 \<Longrightarrow> length (format_padded 5 i) = 5"
  using format_padded_digits [of i 4] by simp

lemma segment_name_less: "i < 100000 \<Longrightarrow> j < 100000 \<Longrightarrow> segment_name i < segment_name j \<longleftrightarrow> i < j"
  using format_padded_less [of i 4 j] by (simp add: segment_name_def WALFilePrefix_def append_same_less length_padded)

lemma segment_name_eq: "i < 100000 \<Longrightarrow> j < 100000 \<Longrightarrow> segment_name i = segment_name j \<longleftrightarrow> i = j"
  by (metis linorder_neq_iff segment_name_less)

lemma is_segment_name: "i < 100000 \<Longrightarrow> is_segment (segment_name i)"
  by (simp add: is_segment_def segment_name_def WALFilePrefix_def WALFileExtension_def length_padded)

lemma split_dots_append: "CHR ''.'' \<notin> set p \<Longrightarrow> split_dots (p @ CHR ''.'' # s) = p # split_dots s"
  by (induction p) auto

lemma split_dots_last: "CHR ''.'' \<notin> set p \<Longrightarrow> split_dots p = [p]"
  by (induction p) auto

lemma dot_not_digit: "CHR ''.'' \<notin> set (format_padded k n)"
  using is_digit_format_padded [of k n] by (auto simp: list_all_iff is_digit_def)

lemma idFromFileName_name: "i < 2 ^ 32 \<Longrightarrow> idFromFileName (segment_name i) = Inr i"
  using split_dots_append [of "CHR ''_'' # format_padded 5 i" "''wal''"] dot_not_digit [of 5 i] ParseUint_format_padded [of i 5]
  by (simp add: idFromFileName_def segment_name_def WALFilePrefix_def WALFileExtension_def split_dots_last)

subsection \<open>Directories of segments\<close>

text \<open>The directory holds exactly the given segments, in the order of their numbers.\<close>

definition dir_inv :: "wal_dir \<Rightarrow> (nat \<times> bytes) list \<Rightarrow> bool" where
  "dir_inv d fs \<longleftrightarrow> sorted_wrt (<) (map fst fs) \<and> list_all (\<lambda>f. fst f < 100000) fs \<and> distinct (map fst d)
     \<and> map_of d = map_of (map (\<lambda>f. (segment_name (fst f), snd f)) fs)"

lemma dir_inv_names:
  assumes "dir_inv d fs"
  shows "set (map fst d) = segment_name ` set (map fst fs)"
proof -
  have "dom (map_of d) = dom (map_of (map (\<lambda>f. (segment_name (fst f), snd f)) fs))" using assms by (simp add: dir_inv_def)
  then show ?thesis by (simp add: dom_map_of_conv_image_fst image_image)
qed

lemma segmentFileNames_dir:
  assumes "dir_inv d fs"
  shows "segmentFileNames d = map (\<lambda>f. segment_name (fst f)) fs"
proof (rule sorted_distinct_set_unique)
  have bound: "\<And>f. f \<in> set fs \<Longrightarrow> fst f < 100000" using assms by (auto simp: dir_inv_def list_all_iff)
  have "sorted_wrt (\<lambda>f g. fst f < fst g) fs" using assms by (simp add: dir_inv_def sorted_wrt_map)
  then have "sorted_wrt (\<lambda>f g. segment_name (fst f) < segment_name (fst g)) fs"
    by (rule sorted_wrt_mono_rel [rotated]) (simp add: bound segment_name_less)
  then have less: "sorted_wrt (<) (map (\<lambda>f. segment_name (fst f)) fs)" by (simp add: sorted_wrt_map)
  then show "sorted (map (\<lambda>f. segment_name (fst f)) fs)" "distinct (map (\<lambda>f. segment_name (fst f)) fs)"
    by (simp_all only: strict_sorted_iff)
  show "sorted (segmentFileNames d)" by (simp add: segmentFileNames_def)
  show "distinct (segmentFileNames d)" using assms by (simp add: segmentFileNames_def dir_inv_def)
  show "set (segmentFileNames d) = set (map (\<lambda>f. segment_name (fst f)) fs)"
    using dir_inv_names [OF assms] bound by (auto simp: segmentFileNames_def is_segment_name)
qed

lemma map_of_segments:
  assumes "list_all (\<lambda>f. fst f < 100000) fs" "i < 100000"
  shows "map_of (map (\<lambda>f. (segment_name (fst f), snd f)) fs) (segment_name i) = map_of fs i"
  using assms by (induction fs) (auto simp: segment_name_eq)

lemma content_dir: "dir_inv d fs \<Longrightarrow> i < 100000 \<Longrightarrow> content d (segment_name i) = (case map_of fs i of None \<Rightarrow> [] | Some b \<Rightarrow> b)"
  by (simp add: content_def dir_inv_def map_of_segments)

lemma map_of_upd_middle:
  assumes "k \<notin> fst ` set pre"
  shows "(map_of (pre @ (k, b) # post))(k \<mapsto> b') = map_of (pre @ (k, b') # post)"
proof
  show "((map_of (pre @ (k, b) # post))(k \<mapsto> b')) x = map_of (pre @ (k, b') # post) x" for x
    using assms by (induction pre) (auto simp del: map_of_append)
qed

lemma map_of_upd_new:
  assumes "k \<notin> fst ` set xs"
  shows "(map_of xs)(k \<mapsto> b) = map_of (xs @ [(k, b)])"
proof
  show "((map_of xs)(k \<mapsto> b)) x = map_of (xs @ [(k, b)]) x" for x
    using assms by (induction xs) (auto simp del: map_of_append)
qed

lemma map_of_filter_upd: "(map_of xs)(k := None) = map_of (filter (\<lambda>x. fst x \<noteq> k) xs)"
proof
  show "((map_of xs)(k := None)) x = map_of (filter (\<lambda>x. fst x \<noteq> k) xs) x" for x
    by (induction xs) auto
qed

lemma map_of_middle: "i \<notin> fst ` set pre \<Longrightarrow> map_of (pre @ (i, b) # post) i = Some b"
  by (induction pre) auto

lemma sorted_middle: "sorted_wrt (<) (map fst (pre @ (i, b) # post)) \<Longrightarrow> (i :: nat) \<notin> fst ` set pre"
  by (auto simp: sorted_wrt_append)

lemma content_middle:
  assumes "dir_inv d (pre @ (i, b) # post)"
  shows "content d (segment_name i) = b"
proof -
  have "i < 100000" "i \<notin> fst ` set pre" using assms sorted_middle by (auto simp: dir_inv_def)
  with content_dir [OF assms, of i] show ?thesis by (simp add: map_of_middle del: map_of_append)
qed

lemma dir_inv_update:
  assumes "dir_inv d (pre @ (i, b) # post)"
  shows "dir_inv (AList.update (segment_name i) b' d) (pre @ (i, b') # post)"
proof -
  have "i \<notin> fst ` set pre" using assms sorted_middle by (auto simp: dir_inv_def)
  moreover have "\<And>f. f \<in> set pre \<Longrightarrow> fst f < 100000" "i < 100000" using assms by (auto simp: dir_inv_def list_all_iff)
  ultimately have "segment_name i \<notin> fst ` set (map (\<lambda>f. (segment_name (fst f), snd f)) pre)"
    by (fastforce simp: segment_name_eq image_iff)
  from map_of_upd_middle [OF this] show ?thesis using assms
    by (simp add: dir_inv_def update_conv' distinct_update del: map_of_append)
qed

lemma dir_inv_new:
  assumes "dir_inv d fs" "list_all (\<lambda>f. fst f < i) fs" "i < 100000"
  shows "dir_inv (AList.update (segment_name i) b d) (fs @ [(i, b)])" "content d (segment_name i) = []"
proof -
  have fresh: "i \<notin> fst ` set fs" using assms(2) by (auto simp: list_all_iff)
  then show "content d (segment_name i) = []" using content_dir [OF assms(1, 3)] by (simp add: map_of_eq_None_iff [THEN iffD2])
  have "segment_name i \<notin> fst ` set (map (\<lambda>f. (segment_name (fst f), snd f)) fs)"
    using fresh assms by (fastforce simp: dir_inv_def list_all_iff segment_name_eq image_iff)
  from map_of_upd_new [OF this, of b] show "dir_inv (AList.update (segment_name i) b d) (fs @ [(i, b)])"
    using assms by (simp add: dir_inv_def update_conv' distinct_update sorted_wrt_append list_all_iff del: map_of_append)
qed

lemma dir_inv_delete:
  assumes "dir_inv d fs"
  shows "dir_inv (AList.delete n d) (filter (\<lambda>f. segment_name (fst f) \<noteq> n) fs)"
proof -
  have "filter (\<lambda>x. fst x \<noteq> n) (map (\<lambda>f. (segment_name (fst f), snd f)) fs)
    = map (\<lambda>f. (segment_name (fst f), snd f)) (filter (\<lambda>f. segment_name (fst f) \<noteq> n) fs)"
    by (simp add: filter_map comp_def)
  then show ?thesis using assms map_of_filter_upd [of "map (\<lambda>f. (segment_name (fst f), snd f)) fs" n]
    by (simp add: dir_inv_def delete_conv' distinct_delete sorted_wrt_map list_all_iff sorted_wrt_filter)
qed

subsection \<open>The abstract log\<close>

text \<open>Closed segments, and the synced and the buffered entries of the current segment.\<close>

record wal_log =
  lg_closed :: "(nat \<times> walEntry list) list"
  lg_synced :: "walEntry list"
  lg_pending :: "walEntry list"

definition log_sync :: "wal_log \<Rightarrow> wal_log" where
  "log_sync a = a\<lparr> lg_synced := lg_synced a @ lg_pending a, lg_pending := [] \<rparr>"

definition log_roll :: "wal \<Rightarrow> wal_log \<Rightarrow> wal_log" where
  "log_roll l a = (case w_writer l of None \<Rightarrow> a
     | Some _ \<Rightarrow> \<lparr> lg_closed = lg_closed a @ [(w_currentSegmentID l, lg_synced a @ lg_pending a)], lg_synced = [], lg_pending = [] \<rparr>)"

definition log_write :: "wal \<Rightarrow> walEntry \<Rightarrow> wal_log \<Rightarrow> wal_log" where
  "log_write l e a = (let a' = (if due DefaultSegmentSize l then log_roll l a else a) in a'\<lparr> lg_pending := lg_pending a' @ [e] \<rparr>)"

definition log_remove :: "string list \<Rightarrow> wal_log \<Rightarrow> wal_log" where
  "log_remove files a = a\<lparr> lg_closed := filter (\<lambda>s. segment_name (fst s) \<notin> set files) (lg_closed a) \<rparr>"

definition log_entries :: "wal_log \<Rightarrow> walEntry list" where
  "log_entries a = concat (map snd (lg_closed a)) @ lg_synced a @ lg_pending a"

definition closed_files :: "snappy \<Rightarrow> (nat \<times> walEntry list) list \<Rightarrow> (nat \<times> bytes) list" where
  "closed_files sn segs = map (\<lambda>s. (fst s, segment_bytes sn (snd s))) segs"

definition log_files :: "snappy \<Rightarrow> wal \<Rightarrow> wal_log \<Rightarrow> (nat \<times> bytes) list" where
  "log_files sn l a = closed_files sn (lg_closed a)
     @ (case w_writer l of None \<Rightarrow> [] | Some _ \<Rightarrow> [(w_currentSegmentID l, segment_bytes sn (lg_synced a))])"

definition writer_inv :: "snappy \<Rightarrow> wal \<Rightarrow> segmentWriter \<Rightarrow> wal_log \<Rightarrow> bool" where
  "writer_inv sn l w a \<longleftrightarrow> sw_name w = segment_name (w_currentSegmentID l) \<and> sw_open w
     \<and> sw_pos w = length (segment_bytes sn (lg_synced a)) \<and> sw_buffered w = segment_bytes sn (lg_pending a)
     \<and> sw_size w = length (segment_bytes sn (lg_synced a @ lg_pending a))"

definition wal_inv :: "snappy \<Rightarrow> wal \<Rightarrow> wal_dir \<Rightarrow> wal_log \<Rightarrow> bool" where
  "wal_inv sn l d a \<longleftrightarrow> dir_inv d (log_files sn l a)
     \<and> list_all (\<lambda>s. list_all (entry_fits sn) (snd s) \<and> fst s \<le> w_currentSegmentID l) (lg_closed a)
     \<and> list_all (entry_fits sn) (lg_synced a @ lg_pending a)
     \<and> (case w_writer l of None \<Rightarrow> lg_synced a = [] \<and> lg_pending a = [] | Some w \<Rightarrow> writer_inv sn l w a)"

lemma wal_inv_writer: "wal_inv sn l d a \<Longrightarrow> w_writer l = Some w \<Longrightarrow> writer_inv sn l w a"
  by (simp add: wal_inv_def)

lemma overwrite_end: "overwrite (length f) b f = f @ b"
  by (simp add: overwrite_def)

lemma content_current:
  assumes "wal_inv sn l d a" "w_writer l = Some w"
  shows "content d (sw_name w) = segment_bytes sn (lg_synced a)"
  using assms content_middle [of d "closed_files sn (lg_closed a)" _ _ "[]"] by (simp add: wal_inv_def log_files_def writer_inv_def)

lemma segment_Flush_inv:
  assumes "wal_inv sn l d a" "w_writer l = Some w"
  obtains w' d' where "segment_Flush w d = (None, w', d')" "wal_inv sn (l\<lparr> w_writer := Some w' \<rparr>) d' (log_sync a)" "sw_size w' = sw_size w"
proof (cases "sw_buffered w = []")
  case True
  have w: "writer_inv sn l w a" by (rule wal_inv_writer [OF assms])
  have "segment_bytes sn (lg_pending a) = []" using True w by (simp add: writer_inv_def)
  then show ?thesis using assms w True
    by (intro that [of w d]) (auto simp: segment_Flush_def wal_inv_def log_sync_def log_files_def writer_inv_def)
next
  case False
  have w: "writer_inv sn l w a" by (rule wal_inv_writer [OF assms])
  let ?d = "AList.update (sw_name w) (segment_bytes sn (lg_synced a @ lg_pending a)) d"
  have "dir_inv ?d (closed_files sn (lg_closed a) @ [(w_currentSegmentID l, segment_bytes sn (lg_synced a @ lg_pending a))])"
    using assms w dir_inv_update [of d "closed_files sn (lg_closed a)" "w_currentSegmentID l" "segment_bytes sn (lg_synced a)" "[]"] by (simp add: wal_inv_def log_files_def writer_inv_def)
  then show ?thesis using False w assms content_current [OF assms]
    by (intro that [of "w\<lparr> sw_buffered := [], sw_pos := sw_pos w + length (sw_buffered w) \<rparr>" ?d])
      (auto simp: segment_Flush_def writer_inv_def overwrite_end wal_inv_def log_sync_def log_files_def)
qed

lemma segment_sync_inv:
  assumes "wal_inv sn l d a" "w_writer l = Some w"
  obtains w' d' where "segment_sync w d = (None, w', d')"
    "wal_inv sn (l\<lparr> w_writer := Some w', w_waiters := n \<rparr>) d' (log_sync a)" "sw_size w' = sw_size w"
proof -
  from assms obtain w' d' where f: "segment_Flush w d = (None, w', d')" "wal_inv sn (l\<lparr> w_writer := Some w' \<rparr>) d' (log_sync a)" "sw_size w' = sw_size w"
    by (rule segment_Flush_inv)
  have "sw_open w'" using wal_inv_writer [OF f(2)] by (simp add: writer_inv_def)
  with f show ?thesis
    by (intro that [of w' d']) (auto simp: segment_sync_def wal_inv_def log_files_def writer_inv_def)
qed

lemma wal_open_segment_inv:
  assumes "wal_inv sn (l\<lparr> w_writer := None \<rparr>) d a" "list_all (\<lambda>s. fst s < w_currentSegmentID l) (lg_closed a)" "w_currentSegmentID l < 100000"
    "wal_open_segment can l d = (None, l', d')"
  shows "wal_inv sn l' d' a \<and> w_currentSegmentID l' = w_currentSegmentID l \<and> w_writer l' \<noteq> None \<and> w_waiters l' = w_waiters l \<and> w_closing l' = w_closing l"
proof -
  let ?n = "segment_name (w_currentSegmentID l)"
  have dir: "dir_inv d (closed_files sn (lg_closed a))" using assms(1) by (simp add: wal_inv_def log_files_def)
  have ids: "list_all (\<lambda>f. fst f < w_currentSegmentID l) (closed_files sn (lg_closed a))"
    using assms(2) by (simp add: closed_files_def list_all_iff)
  note new = dir_inv_new [OF dir ids assms(3)]
  have l': "l' = l\<lparr> w_writer := Some (NewWALSegmentWriter ?n), w_CurrentBytes := 0 \<rparr>" "d' = AList.update ?n [] d"
    using assms(4) new(2) by (auto simp: wal_open_segment_def Let_def split: if_splits)
  show ?thesis using assms(1) new(1) [of "[]"]
    by (simp add: l' wal_inv_def log_files_def writer_inv_def NewWALSegmentWriter_def)
qed

text \<open>Closing the writer moves the current segment to the closed ones.\<close>

lemma close_writer_inv:
  assumes "wal_inv sn l d a" "w_writer l = Some w"
  obtains w1 d1 w2 d2 where "segment_sync w d = (None, w1, d1)" "segment_close w1 d1 = (None, w2, d2)"
    "wal_inv sn (l\<lparr> w_writer := None, w_waiters := n \<rparr>) d2 (log_roll l a)"
proof -
  from assms obtain w1 d1 where sync: "segment_sync w d = (None, w1, d1)"
    "wal_inv sn (l\<lparr> w_writer := Some w1, w_waiters := n \<rparr>) d1 (log_sync a)" by (rule segment_sync_inv)
  have w1: "writer_inv sn (l\<lparr> w_writer := Some w1, w_waiters := n \<rparr>) w1 (log_sync a)" by (rule wal_inv_writer [OF sync(2)]) simp
  have "segment_close w1 d1 = (None, w1\<lparr> sw_open := False \<rparr>, d1)"
    using w1 by (simp add: segment_close_def segment_Flush_def writer_inv_def log_sync_def)
  moreover have "wal_inv sn (l\<lparr> w_writer := None, w_waiters := n \<rparr>) d1 (log_roll l a)"
    using sync(2) assms(2) by (auto simp: wal_inv_def log_files_def log_roll_def log_sync_def closed_files_def)
  ultimately show ?thesis by (rule that [OF sync(1)])
qed

lemma wal_inv_next_id:
  "wal_inv sn (l\<lparr> w_writer := None \<rparr>) d a \<Longrightarrow> wal_inv sn (l\<lparr> w_currentSegmentID := Suc (w_currentSegmentID l), w_writer := None \<rparr>) d a"
  by (auto simp: wal_inv_def log_files_def list_all_iff)

lemma wal_inv_None: "w_writer l = None \<Longrightarrow> wal_inv sn (l\<lparr> w_writer := None \<rparr>) d a = wal_inv sn l d a"
  by (simp add: wal_inv_def log_files_def)

lemma wal_inv_stats [simp]:
  "wal_inv sn (l\<lparr> w_OldBytes := n \<rparr>) d a = wal_inv sn l d a" "wal_inv sn (l\<lparr> w_CurrentBytes := n \<rparr>) d a = wal_inv sn l d a"
  "wal_inv sn (l\<lparr> w_waiters := n \<rparr>) d a = wal_inv sn l d a" "wal_inv sn (l\<lparr> w_closing := b \<rparr>) d a = wal_inv sn l d a"
  "wal_inv sn (l\<lparr> w_once := b \<rparr>) d a = wal_inv sn l d a"
  by (simp_all add: wal_inv_def log_files_def writer_inv_def cong: option.case_cong)

lemma newSegmentFile_inv:
  assumes "wal_inv sn l d a" "newSegmentFile can l d = (None, l', d')" "w_currentSegmentID l + 1 < 100000"
  shows "wal_inv sn l' d' (log_roll l a) \<and> w_currentSegmentID l' = w_currentSegmentID l + 1 \<and> w_writer l' \<noteq> None"
proof (cases "w_writer l")
  case None
  have "list_all (\<lambda>s. fst s < Suc (w_currentSegmentID l)) (lg_closed a)" using assms(1) by (auto simp: wal_inv_def list_all_iff)
  with wal_open_segment_inv [OF wal_inv_next_id, of sn l d a can l' d'] assms None show ?thesis
    by (simp add: newSegmentFile_def log_roll_def wal_inv_None)
next
  case (Some w)
  from assms(1) Some obtain w1 d1 w2 d2 where c: "segment_sync w d = (None, w1, d1)" "segment_close w1 d1 = (None, w2, d2)"
    "wal_inv sn (l\<lparr> w_writer := None, w_waiters := 0 \<rparr>) d2 (log_roll l a)" by (rule close_writer_inv)
  let ?l2 = "l\<lparr> w_currentSegmentID := Suc (w_currentSegmentID l), w_waiters := 0, w_writer := Some w2, w_OldBytes := sw_size w2 \<rparr>"
  have "wal_inv sn (?l2\<lparr> w_writer := None \<rparr>) d2 (log_roll l a)" using c(3) by (auto simp: wal_inv_def log_files_def list_all_iff)
  moreover have "list_all (\<lambda>s. fst s < Suc (w_currentSegmentID l)) (lg_closed (log_roll l a))"
    using c(3) by (auto simp: wal_inv_def list_all_iff)
  ultimately show ?thesis using wal_open_segment_inv [of sn ?l2 d2 "log_roll l a" can l' d'] c(1, 2) Some assms(2, 3)
    by (simp add: newSegmentFile_def wal_sync_def Let_def)
qed

subsection \<open>Runs of the log\<close>

text \<open>What a crash leaves: the first \<open>k\<close> of the buffered bytes have reached the file.\<close>

definition crash :: "nat \<Rightarrow> wal \<Rightarrow> wal_dir \<Rightarrow> wal_dir" where
  "crash k l d = (case w_writer l of None \<Rightarrow> d
     | Some w \<Rightarrow> AList.update (sw_name w) (content d (sw_name w) @ take k (sw_buffered w)) d)"

fun count_complete :: "snappy \<Rightarrow> walEntry list \<Rightarrow> nat \<Rightarrow> nat" where
  "count_complete sn [] k = 0"
| "count_complete sn (e # es) k = (if length (entry_frame sn e) \<le> k then Suc (count_complete sn es (k - length (entry_frame sn e))) else 0)"

text \<open>
  The log after a restart: all segments are closed, the last one keeps its complete entries, and a last file without a byte is gone.
\<close>

definition crash_segments :: "snappy \<Rightarrow> nat \<Rightarrow> wal \<Rightarrow> wal_log \<Rightarrow> (nat \<times> walEntry list) list" where
  "crash_segments sn k l a = lg_closed a @ (case w_writer l of None \<Rightarrow> []
     | Some _ \<Rightarrow> [(w_currentSegmentID l, lg_synced a @ take (count_complete sn (lg_pending a) k) (lg_pending a))])"

definition crash_files :: "snappy \<Rightarrow> nat \<Rightarrow> wal \<Rightarrow> wal_log \<Rightarrow> (nat \<times> bytes) list" where
  "crash_files sn k l a = closed_files sn (lg_closed a) @ (case w_writer l of None \<Rightarrow> []
     | Some _ \<Rightarrow> [(w_currentSegmentID l, segment_bytes sn (lg_synced a) @ take k (segment_bytes sn (lg_pending a)))])"

definition last_empty :: "(nat \<times> bytes) list \<Rightarrow> bool" where
  "last_empty fs \<longleftrightarrow> fs \<noteq> [] \<and> snd (last fs) = []"

definition log_restart :: "snappy \<Rightarrow> nat \<Rightarrow> wal \<Rightarrow> wal_log \<Rightarrow> wal_log" where
  "log_restart sn k l a =
     \<lparr> lg_closed = (if last_empty (crash_files sn k l a) then butlast (crash_segments sn k l a) else crash_segments sn k l a), lg_synced = [], lg_pending = [] \<rparr>"

text \<open>
  The runs of a log with less than 100000 segments in its life: appends by any number of goroutines, syncs, closed segments, removals of closed segments, closing the log,
  and restarts, which open a new log on what a crash left and then load it, as one step. Rolling to a new segment succeeds in these runs; what a
  failed roll does is shown separately, in \<open>failed_roll_disables_log\<close>.
\<close>

inductive wal_run :: "snappy \<Rightarrow> wal \<Rightarrow> wal_dir \<Rightarrow> wal_log \<Rightarrow> bool" for sn where
  start: "wal_run sn NewWAL [] \<lparr> lg_closed = [], lg_synced = [], lg_pending = [] \<rparr>"
| append: "wal_run sn l d a \<Longrightarrow> entry_fits sn e \<Longrightarrow> entry_Encode e = Inr b \<Longrightarrow> \<not> w_closing l \<Longrightarrow> fst (rollSegment can l d) = None
    \<Longrightarrow> append_entry can (entry_Type e) (snappy_Encode sn b) l d = (res, l', d') \<Longrightarrow> w_currentSegmentID l' < 100000
    \<Longrightarrow> wal_run sn l' d' (log_write l e a)"
| sync: "wal_run sn l d a \<Longrightarrow> w_writer l \<noteq> None \<Longrightarrow> wal_sync l d = (err, l', d') \<Longrightarrow> wal_run sn l' d' (log_sync a)"
| close_segment: "wal_run sn l d a \<Longrightarrow> CloseSegment can l d = (None, l', d') \<Longrightarrow> w_currentSegmentID l' < 100000
    \<Longrightarrow> wal_run sn l' d' (if due 0 l then log_roll l a else a)"
| close: "wal_run sn l d a \<Longrightarrow> \<not> w_once l \<Longrightarrow> wal_Close l d = (l', d') \<Longrightarrow> wal_run sn l' d' (log_roll l a)"
| remove: "wal_run sn l d a \<Longrightarrow> set files \<subseteq> set (ClosedSegments l d) \<Longrightarrow> wal_Remove files l d = (l', d') \<Longrightarrow> wal_run sn l' d' (log_remove files a)"
| restart: "wal_run sn l d a \<Longrightarrow> wal_Open can NewWAL (crash k l d) = (None, l', d1) \<Longrightarrow> w_currentSegmentID l' < 100000
    \<Longrightarrow> load_files sn (segmentFileNames d1) d1 = (es, d2) \<Longrightarrow> wal_run sn l' d2 (log_restart sn k l a)"

subsection \<open>Every step keeps the invariant\<close>

lemma newSegmentFile_id: "newSegmentFile can l d = (None, l', d') \<Longrightarrow> w_currentSegmentID l' = w_currentSegmentID l + 1"
  by (auto simp: newSegmentFile_def Let_def wal_sync_def wal_open_segment_def split: option.splits prod.splits if_splits)

lemma roll_inv:
  assumes "wal_inv sn l d a" "(if due n l then newSegmentFile can l d else (None, l, d)) = (None, l1, d1)" "w_currentSegmentID l1 < 100000"
  shows "wal_inv sn l1 d1 (if due n l then log_roll l a else a) \<and> (\<exists>w. w_writer l1 = Some w)"
proof (cases "due n l")
  case True
  then have new: "newSegmentFile can l d = (None, l1, d1)" using assms(2) by simp
  then have "w_currentSegmentID l + 1 < 100000" using newSegmentFile_id [OF new] assms(3) by simp
  from newSegmentFile_inv [OF assms(1) new this] show ?thesis using True by auto
next
  case False
  then show ?thesis using assms(1, 2) by (auto simp: due_def split: option.splits)
qed

lemma append_inv:
  assumes "wal_inv sn l d a" "entry_fits sn e" "entry_Encode e = Inr b" "\<not> w_closing l" "fst (rollSegment can l d) = None"
    "append_entry can (entry_Type e) (snappy_Encode sn b) l d = (res, l', d')" "w_currentSegmentID l' < 100000"
  shows "wal_inv sn l' d' (log_write l e a)"
proof -
  obtain l1 d1 where r: "rollSegment can l d = (None, l1, d1)" using assms(5) by (cases "rollSegment can l d") auto
  have "w_currentSegmentID l' = w_currentSegmentID l1" using assms(4, 6) r by (auto simp: append_entry_def Let_def split: if_splits)
  with roll_inv [OF assms(1), of DefaultSegmentSize can l1 d1] r assms(7) obtain w where
    inv: "wal_inv sn l1 d1 (if due DefaultSegmentSize l then log_roll l a else a)" and w: "w_writer l1 = Some w"
    unfolding rollSegment_def by auto
  define a1 where "a1 = (if due DefaultSegmentSize l then log_roll l a else a)"
  have inv1: "wal_inv sn l1 d1 a1" using inv by (simp only: a1_def)
  have f: "wal_frame (entry_Type e) (snappy_Encode sn b) = entry_frame sn e" "length (entry_frame sn e) = 5 + length (snappy_Encode sn b)"
    using assms(3) by (simp_all add: entry_frame_def wal_frame_def)
  have "wal_inv sn (l1\<lparr> w_writer := Some (segment_Write (entry_Type e) (snappy_Encode sn b) w) \<rparr>) d1 (a1\<lparr> lg_pending := lg_pending a1 @ [e] \<rparr>)"
    using inv1 w assms(2) f by (auto simp: wal_inv_def log_files_def writer_inv_def segment_Write_def)
  then show ?thesis using assms(4, 6) r w
    by (auto simp: append_entry_def log_write_def a1_def [symmetric] Let_def wal_inv_def log_files_def writer_inv_def split: if_splits)
qed

lemma sync_inv:
  assumes "wal_inv sn l d a" "w_writer l \<noteq> None" "wal_sync l d = (err, l', d')"
  shows "wal_inv sn l' d' (log_sync a)"
proof -
  obtain w where w: "w_writer l = Some w" using assms(2) by auto
  from assms(1) w obtain w' d1 where "segment_sync w d = (None, w', d1)" "wal_inv sn (l\<lparr> w_writer := Some w', w_waiters := 0 \<rparr>) d1 (log_sync a)"
    by (rule segment_sync_inv)
  with assms(3) w show ?thesis by (auto simp: wal_sync_def)
qed

lemma close_inv:
  assumes "wal_inv sn l d a" "wal_Close l d = (l', d')" "\<not> w_once l"
  shows "wal_inv sn l' d' (log_roll l a)"
proof (cases "w_writer l")
  case None
  then show ?thesis using assms by (auto simp: wal_Close_def log_roll_def wal_inv_def log_files_def)
next
  case (Some w)
  from assms(1) Some obtain w1 d1 w2 d2 where c: "segment_sync w d = (None, w1, d1)" "segment_close w1 d1 = (None, w2, d2)"
    "wal_inv sn (l\<lparr> w_writer := None, w_waiters := 0 \<rparr>) d2 (log_roll l a)" by (rule close_writer_inv)
  then show ?thesis using assms(2, 3) Some by (auto simp: wal_Close_def wal_sync_def Let_def wal_inv_def log_files_def)
qed

lemma dir_inv_deletes: "dir_inv d fs \<Longrightarrow> dir_inv (fold AList.delete ns d) (filter (\<lambda>f. segment_name (fst f) \<notin> set ns) fs)"
proof (induction ns arbitrary: d fs)
  case (Cons n ns)
  from Cons.IH [OF dir_inv_delete [OF Cons.prems, of n]] show ?case by (simp add: conj_commute)
qed simp

lemma remove_inv:
  assumes "wal_inv sn l d a" "set files \<subseteq> set (ClosedSegments l d)" "wal_Remove files l d = (l', d')"
  shows "wal_inv sn l' d' (log_remove files a)"
proof -
  have "\<And>w. w_writer l = Some w \<Longrightarrow> segment_name (w_currentSegmentID l) \<notin> set files"
    using assms(2) wal_inv_writer [OF assms(1)] by (fastforce simp: ClosedSegments_def writer_inv_def)
  then have "filter (\<lambda>f. segment_name (fst f) \<notin> set files) (log_files sn l a) = log_files sn l (log_remove files a)"
    by (auto simp: log_files_def log_remove_def closed_files_def filter_map comp_def split: option.splits)
  then have dir: "dir_inv (fold AList.delete files d) (log_files sn l (log_remove files a))"
    using dir_inv_deletes [of d "log_files sn l a" files] assms(1) by (simp add: wal_inv_def)
  have "wal_inv sn l (fold AList.delete files d) (log_remove files a)"
    using dir assms(1) by (cases "w_writer l") (auto simp: wal_inv_def log_remove_def writer_inv_def list_all_iff)
  then show ?thesis using assms(3) by (auto simp: wal_Remove_def Let_def)
qed

subsection \<open>Restarts\<close>

text \<open>The file was cut so that exactly the entries \<open>es\<close> are complete.\<close>

definition holds :: "snappy \<Rightarrow> bytes \<Rightarrow> walEntry list \<Rightarrow> bool" where
  "holds sn b es \<longleftrightarrow> (\<exists>es' k m. list_all (entry_fits sn) es' \<and> k \<le> length (segment_bytes sn es') \<and> b = take k (segment_bytes sn es')
     \<and> complete_within sn es' k m \<and> es = take m es')"

lemma length_entry_frame: "entry_fits sn e \<Longrightarrow> 0 < length (entry_frame sn e)"
  using entry_roundtrip [of e] by (auto simp: entry_fits_def entry_frame_def wal_frame_def)

lemma complete_within_unique:
  assumes "complete_within sn es k m" "complete_within sn es k m'"
  shows "m = m'"
proof -
  have mono: "length (segment_bytes sn (take i es)) \<le> length (segment_bytes sn (take j es))" if "i \<le> j" for i j
    using that by (metis le_add1 length_append min.absorb1 segment_bytes_simps(3) append_take_drop_id take_take)
  show ?thesis
  proof (rule ccontr)
    assume "m \<noteq> m'"
    then consider "m < m'" | "m' < m" by linarith
    then show False
    proof cases
      case 1
      then show False using assms mono [of "Suc m" m'] by (auto simp: complete_within_def)
    next
      case 2
      then show False using assms mono [of "Suc m'" m] by (auto simp: complete_within_def)
    qed
  qed
qed

lemma read_segment_empty: "read_segment sn (NewWALSegmentReader []) = ([], False, NewWALSegmentReader [])"
  by (subst read_segment.simps) (simp add: segment_Next_def ReadFull_def NewWALSegmentReader_def)

lemma holds_read:
  assumes "snappy_ok sn" "holds sn b es"
  obtains r where "read_segment sn (NewWALSegmentReader b) = (es, length (segment_bytes sn es) < length b, r)" "sr_n r = length (segment_bytes sn es)"
    "take (length (segment_bytes sn es)) b = segment_bytes sn es" "length (segment_bytes sn es) \<le> length b"
proof -
  from assms(2) obtain es' k m where h: "list_all (entry_fits sn) es'" "k \<le> length (segment_bytes sn es')" "b = take k (segment_bytes sn es')"
    "complete_within sn es' k m" "es = take m es'" by (auto simp: holds_def)
  have "segment_bytes sn es' = segment_bytes sn es @ segment_bytes sn (drop m es')"
    using segment_bytes_simps(3) [of sn "take m es'" "drop m es'"] by (simp add: h(5))
  moreover have "length (segment_bytes sn es) \<le> k" using h(4, 5) by (simp add: complete_within_def)
  ultimately have pre: "take (length (segment_bytes sn es)) b = segment_bytes sn es" "length (segment_bytes sn es) \<le> length b"
    using h(2, 3) by (simp_all add: min_def)
  from read_segment_prefix [OF assms(1) h(1), of "NewWALSegmentReader b" k] h(2, 3) obtain m' r where
    m': "complete_within sn es' k m'" "read_segment sn (NewWALSegmentReader b) = (take m' es', length (segment_bytes sn (take m' es')) < k, r)"
    "sr_n r = length (segment_bytes sn (take m' es'))" by (auto simp: NewWALSegmentReader_def)
  have "m' = m" by (rule complete_within_unique [OF m'(1) h(4)])
  then have "read_segment sn (NewWALSegmentReader b) = (es, length (segment_bytes sn es) < length b, r)" "sr_n r = length (segment_bytes sn es)"
    using m' h(2, 3, 5) by (simp_all add: min_def)
  then show ?thesis using pre by (rule that)
qed

lemma load_file_holds:
  assumes "snappy_ok sn" "dir_inv d (pre @ (i, b) # post)" "holds sn b es"
  obtains d' where "load_file sn (segment_name i) d = (es, d')" "dir_inv d' (pre @ (i, segment_bytes sn es) # post)"
proof -
  let ?n = "segment_name i"
  have c: "content d ?n = b" by (rule content_middle [OF assms(2)])
  have d1: "dir_inv (AList.update ?n b d) (pre @ (i, b) # post)" by (rule dir_inv_update [OF assms(2)])
  from assms(1, 3) obtain r where r: "read_segment sn (NewWALSegmentReader b) = (es, length (segment_bytes sn es) < length b, r)"
    "sr_n r = length (segment_bytes sn es)" and pre: "take (length (segment_bytes sn es)) b = segment_bytes sn es" "length (segment_bytes sn es) \<le> length b"
    by (rule holds_read)
  show ?thesis
  proof (cases "length (segment_bytes sn es) < length b")
    case True
    then have "b \<noteq> []" by auto
    then have "load_file sn ?n d = (es, AList.update ?n (segment_bytes sn es) (AList.update ?n b d))"
      by (simp add: load_file_def Let_def c r True pre(1))
    then show ?thesis by (rule that) (rule dir_inv_update [OF d1])
  next
    case False
    then have "segment_bytes sn es = b" using pre by (metis linorder_not_less take_all)
    moreover have "load_file sn ?n d = (es, AList.update ?n b d)"
    proof (cases "b = []")
      case True
      with r(1) have "es = []" by (simp add: read_segment_empty)
      then show ?thesis by (simp add: load_file_def Let_def c True)
    next
      case b: False
      show ?thesis by (simp add: load_file_def Let_def c r(1) b False)
    qed
    ultimately show ?thesis using d1 by (intro that) auto
  qed
qed

lemma load_files_holds:
  assumes "snappy_ok sn" "list_all2 (\<lambda>f es. holds sn (snd f) es) fs ess" "dir_inv d (pre @ fs)"
  shows "\<exists>d'. load_files sn (map (\<lambda>f. segment_name (fst f)) fs) d = (concat ess, d')
    \<and> dir_inv d' (pre @ map2 (\<lambda>f es. (fst f, segment_bytes sn es)) fs ess)"
  using assms(2, 3)
proof (induction fs ess arbitrary: d pre rule: list_all2_induct)
  case Nil
  then show ?case by simp
next
  case (Cons f fs es ess)
  obtain i b where f: "f = (i, b)" by (cases f)
  from Cons.hyps(1) Cons.prems assms(1) obtain d1 where d1: "load_file sn (segment_name i) d = (es, d1)" "dir_inv d1 (pre @ (i, segment_bytes sn es) # fs)"
    by (auto simp: f elim: load_file_holds)
  from Cons.IH [of d1 "pre @ [(i, segment_bytes sn es)]"] d1(2) obtain d2 where
    "load_files sn (map (\<lambda>f. segment_name (fst f)) fs) d1 = (concat ess, d2)"
    "dir_inv d2 ((pre @ [(i, segment_bytes sn es)]) @ map2 (\<lambda>f es. (fst f, segment_bytes sn es)) fs ess)" by auto
  with d1(1) show ?case by (simp add: f)
qed

lemma count_complete_within: "k \<le> length (segment_bytes sn es) \<Longrightarrow> complete_within sn es k (count_complete sn es k)"
proof (induction es arbitrary: k)
  case (Cons e es)
  show ?case
  proof (cases "length (entry_frame sn e) \<le> k")
    case True
    then have "k - length (entry_frame sn e) \<le> length (segment_bytes sn es)" using Cons.prems by simp
    from complete_within_Suc [OF True Cons.IH [OF this]] show ?thesis using True by simp
  next
    case False
    then show ?thesis by (simp add: complete_within_def)
  qed
qed (simp add: complete_within_def)

lemma complete_within_append: "complete_within sn es k m \<Longrightarrow> complete_within sn (es0 @ es) (length (segment_bytes sn es0) + k) (length es0 + m)"
proof (induction es0)
  case (Cons e es0)
  from complete_within_Suc [OF _ , of sn e "length (segment_bytes sn (e # es0)) + k" "es0 @ es" "length es0 + m"] Cons show ?case by simp
qed simp

lemma count_complete_min: "count_complete sn es (min k (length (segment_bytes sn es))) = count_complete sn es k"
proof (induction es arbitrary: k)
  case (Cons e es)
  have "min k (length (entry_frame sn e) + n) - length (entry_frame sn e) = min (k - length (entry_frame sn e)) n" for n by linarith
  with Cons show ?case by (auto simp: min_le_iff_disj)
qed simp

lemma holds_torn:
  assumes "list_all (entry_fits sn) (sy @ pe)"
  shows "holds sn (segment_bytes sn sy @ take k (segment_bytes sn pe)) (sy @ take (count_complete sn pe k) pe)"
proof -
  let ?k = "min k (length (segment_bytes sn pe))"
  have c: "complete_within sn (sy @ pe) (length (segment_bytes sn sy) + ?k) (length sy + count_complete sn pe k)"
    using complete_within_append [OF count_complete_within [of ?k sn pe], of sy] by (simp add: count_complete_min)
  show ?thesis unfolding holds_def
    by (rule exI [of _ "sy @ pe"], rule exI [of _ "length (segment_bytes sn sy) + ?k"], rule exI [of _ "length sy + count_complete sn pe k"])
      (use assms c in \<open>simp add: min_def\<close>)
qed

lemma holds_complete: "list_all (entry_fits sn) es \<Longrightarrow> holds sn (segment_bytes sn es) es"
  using holds_torn [of sn es "[]" 0] by simp

lemma crash_dir:
  assumes "wal_inv sn l d a"
  shows "dir_inv (crash k l d) (crash_files sn k l a)"
proof (cases "w_writer l")
  case None
  then show ?thesis using assms by (simp add: crash_def crash_files_def wal_inv_def log_files_def)
next
  case (Some w)
  have "writer_inv sn l w a" using assms Some by (rule wal_inv_writer)
  then show ?thesis
    using dir_inv_update [of d "closed_files sn (lg_closed a)" "w_currentSegmentID l" "segment_bytes sn (lg_synced a)" "[]"]
      assms Some content_current [OF assms Some] by (simp add: crash_def crash_files_def wal_inv_def log_files_def writer_inv_def)
qed

definition segment_of :: "snappy \<Rightarrow> nat \<times> bytes \<Rightarrow> nat \<times> walEntry list \<Rightarrow> bool" where
  "segment_of sn f s \<longleftrightarrow> fst f = fst s \<and> holds sn (snd f) (snd s)"

lemma closed_segment_of: "list_all (\<lambda>s. list_all (entry_fits sn) (snd s)) segs \<Longrightarrow> list_all2 (segment_of sn) (closed_files sn segs) segs"
  by (induction segs) (auto simp: closed_files_def segment_of_def holds_complete)

lemma crash_segment_of:
  assumes "wal_inv sn l d a"
  shows "list_all2 (segment_of sn) (crash_files sn k l a) (crash_segments sn k l a)"
proof -
  have "list_all2 (segment_of sn) (closed_files sn (lg_closed a)) (lg_closed a)"
    using assms by (intro closed_segment_of) (auto simp: wal_inv_def list_all_iff)
  moreover have "holds sn (segment_bytes sn (lg_synced a) @ take k (segment_bytes sn (lg_pending a)))
      (lg_synced a @ take (count_complete sn (lg_pending a) k) (lg_pending a))"
    using assms by (intro holds_torn) (simp add: wal_inv_def)
  ultimately show ?thesis
    by (cases "w_writer l") (auto simp: crash_files_def crash_segments_def segment_of_def intro: list_all2_appendI)
qed

lemma wal_Open_dir:
  assumes "dir_inv d (gs @ [(i, b)])" "wal_Open can NewWAL d = (None, l', d1)" "w_currentSegmentID l' < 100000"
  shows "w_currentSegmentID l' = Suc i \<and> w_writer l' = Some (NewWALSegmentWriter (segment_name (Suc i)))
    \<and> dir_inv d1 ((if b = [] then gs else gs @ [(i, b)]) @ [(Suc i, [])])"
proof -
  have i: "i < 100000" and less: "\<And>f. f \<in> set gs \<Longrightarrow> fst f < i" "\<And>f. f \<in> set gs \<Longrightarrow> fst f < 100000"
    using assms(1) by (auto simp: dir_inv_def sorted_wrt_append list_all_iff)
  have names: "segmentFileNames d = map (\<lambda>f. segment_name (fst f)) gs @ [segment_name i]"
    using segmentFileNames_dir [OF assms(1)] by simp
  have c: "content d (segment_name i) = b" using content_middle [of d gs i b "[]"] assms(1) by simp
  define d0 where "d0 = (if b = [] then AList.delete (segment_name i) d else d)"
  define fs0 where "fs0 = (if b = [] then gs else gs @ [(i, b)])"
  have "filter (\<lambda>f. segment_name (fst f) \<noteq> segment_name i) gs = gs"
    using less i by (auto simp: filter_id_conv segment_name_eq)
  then have dir: "dir_inv d0 fs0" using dir_inv_delete [OF assms(1), of "segment_name i"] assms(1) by (simp add: d0_def fs0_def)
  have le: "list_all (\<lambda>f. fst f < Suc i) fs0" using less(1) by (auto simp: fs0_def list_all_iff less_Suc_eq)
  have "newSegmentFile can (NewWAL\<lparr> w_currentSegmentID := i \<rparr>) e = wal_open_segment can (NewWAL\<lparr> w_currentSegmentID := Suc i \<rparr>) e" for e
    by (simp add: newSegmentFile_def NewWAL_def)
  then have "wal_Open can NewWAL d = (case wal_open_segment can (NewWAL\<lparr> w_currentSegmentID := Suc i \<rparr>) d0 of
      (Some e, r) \<Rightarrow> (Some e, r)
    | (None, l2, d2) \<Rightarrow> (None, l2\<lparr> w_OldBytes := disk_size d2 (if b = [] then butlast (segmentFileNames d) else segmentFileNames d), w_closing := False \<rparr>, d2))"
    using i idFromFileName_name [of i] by (cases "b = []") (simp_all add: wal_Open_def Let_def names c d0_def split: prod.split option.split)
  with assms(2) obtain l2 d2 where o: "wal_open_segment can (NewWAL\<lparr> w_currentSegmentID := Suc i \<rparr>) d0 = (None, l2, d2)"
    "w_currentSegmentID l' = w_currentSegmentID l2" "w_writer l' = w_writer l2" "d1 = d2"
    by (auto split: prod.splits option.splits)
  have new: "w_currentSegmentID l2 = Suc i" "w_writer l2 = Some (NewWALSegmentWriter (segment_name (Suc i)))"
    "d2 = AList.update (segment_name (Suc i)) (content d0 (segment_name (Suc i))) d0"
    using o(1) by (auto simp: wal_open_segment_def Let_def split: if_splits)
  have "Suc i < 100000" using assms(3) o(2) new(1) by simp
  from dir_inv_new [OF dir le this] new o show ?thesis by (simp add: fs0_def)
qed

lemma holds_fits: "holds sn b es \<Longrightarrow> list_all (entry_fits sn) es"
  by (auto simp: holds_def list_all_iff dest: in_set_takeD)

lemma holds_Nil:
  assumes "snappy_ok sn" "holds sn [] es"
  shows "es = []"
proof -
  from assms obtain r where "length (segment_bytes sn es) \<le> length ([] :: bytes)" by (rule holds_read)
  then show ?thesis using holds_fits [OF assms(2)] length_entry_frame by (cases es) auto
qed

lemma segment_of_fits: "list_all2 (segment_of sn) fs segs \<Longrightarrow> list_all (\<lambda>s. list_all (entry_fits sn) (snd s)) segs"
  by (induction rule: list_all2_induct) (auto simp: segment_of_def holds_fits)

lemma map2_segment_of: "list_all2 (segment_of sn) fs segs \<Longrightarrow> map2 (\<lambda>f es. (fst f, segment_bytes sn es)) fs (map snd segs) = closed_files sn segs"
  by (induction rule: list_all2_induct) (auto simp: closed_files_def segment_of_def)

text \<open>Loading a directory of torn segments behind which a new segment was opened.\<close>

lemma load_restart:
  assumes "snappy_ok sn" "list_all2 (segment_of sn) fs segs" "dir_inv d (fs @ [(j, [])])" "load_files sn (segmentFileNames d) d = (es, d')"
  shows "es = concat (map snd segs) \<and> dir_inv d' (closed_files sn segs @ [(j, [])])"
proof -
  let ?fs = "fs @ [(j, [])]" and ?segs = "segs @ [(j, [])]"
  have all: "list_all2 (segment_of sn) ?fs ?segs"
    using assms(2) holds_complete [of sn "[]"] by (auto simp: segment_of_def intro: list_all2_appendI)
  then have "list_all2 (\<lambda>f s. holds sn (snd f) (snd s)) ?fs ?segs" by (rule list_all2_mono) (simp add: segment_of_def)
  then have "list_all2 (\<lambda>f es. holds sn (snd f) es) ?fs (map snd ?segs)" by (simp only: list_all2_map2)
  from load_files_holds [OF assms(1) this, of d "[]"] assms(3, 4) map2_segment_of [OF all] show ?thesis
    by (auto simp: segmentFileNames_dir [OF assms(3)] closed_files_def)
qed

lemma restart_inv:
  assumes "snappy_ok sn" "wal_inv sn l d a" "wal_Open can NewWAL (crash k l d) = (None, l', d1)" "w_currentSegmentID l' < 100000"
    "load_files sn (segmentFileNames d1) d1 = (es, d2)"
  shows "wal_inv sn l' d2 (log_restart sn k l a) \<and> es = concat (map snd (crash_segments sn k l a))"
proof (cases "crash_files sn k l a = []")
  case True
  have dir: "dir_inv (crash k l d) []" using crash_dir [OF assms(2), of k] True by simp
  have "crash_segments sn k l a = []" using crash_segment_of [OF assms(2), of k] True by simp
  moreover have "l' = NewWAL" "d1 = crash k l d" using assms(3) segmentFileNames_dir [OF dir] by (auto simp: wal_Open_def NewWAL_def)
  moreover have "es = []" "d2 = d1" using assms(5) segmentFileNames_dir [OF dir] calculation(3) by auto
  ultimately show ?thesis using dir True
    by (simp add: wal_inv_def log_restart_def last_empty_def log_files_def NewWAL_def closed_files_def)
next
  case False
  let ?fs = "crash_files sn k l a" and ?segs = "crash_segments sn k l a"
  obtain gs i b where fs: "?fs = gs @ [(i, b)]" using False by (metis rev_exhaust surj_pair)
  have all: "list_all2 (segment_of sn) ?fs ?segs" by (rule crash_segment_of [OF assms(2)])
  then obtain ss es' where segs: "?segs = ss @ [(i, es')]" "list_all2 (segment_of sn) gs ss" "holds sn b es'"
    unfolding fs by (auto simp: list_all2_append1 list_all2_Cons1 segment_of_def)
  have "dir_inv (crash k l d) (gs @ [(i, b)])" using crash_dir [OF assms(2), of k] fs by simp
  from wal_Open_dir [OF this assms(3, 4)] have o: "w_currentSegmentID l' = Suc i" "w_writer l' = Some (NewWALSegmentWriter (segment_name (Suc i)))"
    "dir_inv d1 ((if b = [] then gs else gs @ [(i, b)]) @ [(Suc i, [])])" by auto
  define ts where "ts = (if b = [] then ss else ?segs)"
  have ts: "list_all2 (segment_of sn) (if b = [] then gs else gs @ [(i, b)]) ts" using all segs(2) by (simp add: ts_def fs)
  from load_restart [OF assms(1) ts o(3) assms(5)] have load: "es = concat (map snd ts)" "dir_inv d2 (closed_files sn ts @ [(Suc i, [])])" by auto
  have "b = [] \<Longrightarrow> es' = []" using segs(3) holds_Nil [OF assms(1), of es'] by simp
  then have "concat (map snd ts) = concat (map snd ?segs)" by (simp add: ts_def segs(1))
  moreover have "lg_closed (log_restart sn k l a) = ts" by (simp add: log_restart_def last_empty_def fs ts_def segs(1))
  moreover have "list_all (\<lambda>s. list_all (entry_fits sn) (snd s) \<and> fst s \<le> Suc i) ts"
    using segment_of_fits [OF ts] load(2) by (fastforce simp: list_all_iff dir_inv_def sorted_wrt_append closed_files_def)
  ultimately show ?thesis using load o
    by (simp add: wal_inv_def log_files_def writer_inv_def NewWALSegmentWriter_def log_restart_def)
qed

lemma wal_run_inv:
  assumes "snappy_ok sn"
  shows "wal_run sn l d a \<Longrightarrow> wal_inv sn l d a"
proof (induction rule: wal_run.induct)
  case start
  show ?case by (simp add: wal_inv_def NewWAL_def log_files_def closed_files_def dir_inv_def)
next
  case (append l d a e b can res l' d')
  then show ?case by (blast intro: append_inv)
next
  case (sync l d a err l' d')
  then show ?case by (blast intro: sync_inv)
next
  case (close_segment l d a can l' d')
  then show ?case using roll_inv [of sn l d a 0 can l' d'] by (simp add: CloseSegment_def)
next
  case (close l d a l' d')
  then show ?case by (blast intro: close_inv)
next
  case (remove l d a files l' d')
  then show ?case by (blast intro: remove_inv)
next
  case (restart l d a can k l' d1 es d2)
  then show ?case using restart_inv [OF assms] by blast
qed

lemma wal_open_segment_succeeds: "\<forall>n. can n \<Longrightarrow> \<exists>l' d'. wal_open_segment can l d = (None, l', d')"
  by (simp add: wal_open_segment_def Let_def)

lemma wal_Open_succeeds:
  assumes "dir_inv d fs" "\<forall>n. can n" "list_all (\<lambda>f. fst f < 99999) fs"
  shows "\<exists>l' d1. wal_Open can NewWAL d = (None, l', d1) \<and> w_currentSegmentID l' < 100000"
proof (cases "fs = []")
  case True
  then show ?thesis using segmentFileNames_dir [OF assms(1)] by (simp add: wal_Open_def NewWAL_def)
next
  case False
  let ?i = "fst (last fs)"
  have i: "?i < 99999" using assms(3) False by (simp add: list_all_iff)
  have names: "segmentFileNames d \<noteq> []" "last (segmentFileNames d) = segment_name ?i"
    using segmentFileNames_dir [OF assms(1)] False by (simp_all add: last_map)
  define d0 where "d0 = (if content d (segment_name ?i) = [] then AList.delete (segment_name ?i) d else d)"
  from wal_open_segment_succeeds [OF assms(2)] obtain l2 d2 where o: "newSegmentFile can (NewWAL\<lparr> w_currentSegmentID := ?i \<rparr>) d0 = (None, l2, d2)"
    by (fastforce simp: newSegmentFile_def NewWAL_def)
  from newSegmentFile_id [OF o] i have "w_currentSegmentID l2 < 100000" by simp
  with o show ?thesis using names i idFromFileName_name [of ?i]
    by (cases "content d (segment_name ?i) = []") (simp_all add: wal_Open_def Let_def d0_def)
qed

lemma crash_files_ids:
  assumes "wal_inv sn l d a" "w_currentSegmentID l < n"
  shows "list_all (\<lambda>f. fst f < n) (crash_files sn k l a)"
  using assms by (cases "w_writer l") (auto simp: wal_inv_def crash_files_def closed_files_def list_all_iff)

lemma crash_entries:
  assumes "wal_inv sn l d a"
  shows "concat (map snd (crash_segments sn k l a))
    = concat (map snd (lg_closed a)) @ lg_synced a @ take (count_complete sn (lg_pending a) k) (lg_pending a)"
  using assms by (cases "w_writer l") (auto simp: crash_segments_def wal_inv_def)

lemma append_entry_runs:
  assumes "wal_run sn l d a" "entry_fits sn e" "entry_Encode e = Inr b" "append_entry can (entry_Type e) (snappy_Encode sn b) l d = (Inr i, l', d')"
    "w_currentSegmentID l' < 100000"
  shows "wal_run sn l' d' (log_write l e a)"
proof -
  have "\<not> w_closing l" "fst (rollSegment can l d) = None"
    using assms(4) by (auto simp: append_entry_def split: if_splits prod.splits option.splits)
  from wal_run.append [OF assms(1-3) this assms(4, 5)] show ?thesis .
qed

lemma example_fits: "entry_fits plain_snappy (DeleteWALEntry [[97]])" "entry_Encode (DeleteWALEntry [[97]]) = Inr [97]"
  by (simp_all add: entry_fits_def entry_frame_def wal_frame_def encode_delete_def plain_snappy_def newline_def)

lemma example_append:
  "\<exists>l d. append_entry (\<lambda>n. True) (entry_Type (DeleteWALEntry [[97]])) (snappy_Encode plain_snappy [97]) NewWAL [] = (Inr 1, l, d) \<and> w_currentSegmentID l = 1"
  by (simp add: append_entry_def rollSegment_def due_def newSegmentFile_def wal_open_segment_def NewWAL_def Let_def)

lemma example_pending: "\<exists>l d a. wal_run plain_snappy l d a \<and> lg_pending a = [DeleteWALEntry [[97]]] \<and> w_currentSegmentID l = 1"
proof -
  obtain l d where e: "append_entry (\<lambda>n. True) (entry_Type (DeleteWALEntry [[97]])) (snappy_Encode plain_snappy [97]) NewWAL [] = (Inr 1, l, d)"
    "w_currentSegmentID l = 1" using example_append by blast
  from append_entry_runs [OF wal_run.start example_fits e(1)] e(2)
  have "wal_run plain_snappy l d (log_write NewWAL (DeleteWALEntry [[97]]) \<lparr> lg_closed = [], lg_synced = [], lg_pending = [] \<rparr>)" by simp
  moreover have "lg_pending (log_write NewWAL (DeleteWALEntry [[97]]) \<lparr> lg_closed = [], lg_synced = [], lg_pending = [] \<rparr>) = [DeleteWALEntry [[97]]]"
    by (simp add: log_write_def log_roll_def NewWAL_def Let_def)
  ultimately show ?thesis using e(2) by blast
qed

text \<open>C1: A log can be opened again after a crash at any moment of any run of appends, syncs, rolls, removals and earlier restarts, with any part of
  the buffered bytes in the file. Loading it gives back all entries of the segments that were not removed, in the order they were written: every synced
  entry, and of the entries that were not synced yet those that reached the file completely. The log then runs on from there.\<close>

theorem crash_recovery:
  assumes "snappy_ok sn" "wal_run sn l d a" "w_currentSegmentID l < 99999" "\<forall>n. can n"
  shows "\<exists>l' d1 d2. wal_Open can NewWAL (crash k l d) = (None, l', d1)
    \<and> load_files sn (segmentFileNames d1) d1
      = (concat (map snd (lg_closed a)) @ lg_synced a @ take (count_complete sn (lg_pending a) k) (lg_pending a), d2)
    \<and> wal_run sn l' d2 (log_restart sn k l a)"
proof -
  have inv: "wal_inv sn l d a" by (rule wal_run_inv [OF assms(1, 2)])
  from wal_Open_succeeds [OF crash_dir [OF inv] assms(4) crash_files_ids [OF inv assms(3)]] obtain l' d1 where
    o: "wal_Open can NewWAL (crash k l d) = (None, l', d1)" "w_currentSegmentID l' < 100000" by blast
  obtain es d2 where load: "load_files sn (segmentFileNames d1) d1 = (es, d2)" by (metis surj_pair)
  have "es = concat (map snd (lg_closed a)) @ lg_synced a @ take (count_complete sn (lg_pending a) k) (lg_pending a)"
    using restart_inv [OF assms(1) inv o load] crash_entries [OF inv] by simp
  with o load wal_run.restart [OF assms(2) o load] show ?thesis by blast
qed

theorem crash_recovery_witness:
  "\<exists>l d a. wal_run plain_snappy l d a \<and> lg_pending a = [DeleteWALEntry [[97]]]
    \<and> (\<exists>l' d1 d2. wal_Open (\<lambda>n. True) NewWAL (crash 3 l d) = (None, l', d1)
      \<and> load_files plain_snappy (segmentFileNames d1) d1
        = (concat (map snd (lg_closed a)) @ lg_synced a @ take (count_complete plain_snappy (lg_pending a) 3) (lg_pending a), d2)
      \<and> wal_run plain_snappy l' d2 (log_restart plain_snappy 3 l a))"
proof -
  obtain l d a where r: "wal_run plain_snappy l d a" "lg_pending a = [DeleteWALEntry [[97]]]" "w_currentSegmentID l = 1" using example_pending by blast
  have "\<exists>l' d1 d2. wal_Open (\<lambda>n. True) NewWAL (crash 3 l d) = (None, l', d1)
      \<and> load_files plain_snappy (segmentFileNames d1) d1
        = (concat (map snd (lg_closed a)) @ lg_synced a @ take (count_complete plain_snappy (lg_pending a) 3) (lg_pending a), d2)
      \<and> wal_run plain_snappy l' d2 (log_restart plain_snappy 3 l a)"
    by (rule crash_recovery [OF plain_snappy_ok r(1)]) (simp_all add: r(3))
  with r show ?thesis by blast
qed

lemma log_write_entries:
  assumes "wal_inv sn l d a"
  shows "log_entries (log_write l e a) = log_entries a @ [e]"
  using assms by (cases "w_writer l") (auto simp: log_write_def log_roll_def log_entries_def wal_inv_def Let_def)

lemma wal_sync_id: "w_currentSegmentID (fst (snd (wal_sync l d))) = w_currentSegmentID l"
  by (auto simp: wal_sync_def split: option.splits prod.splits)

lemma append_entry_writer: "append_entry can t c l d = (Inr i, l', d') \<Longrightarrow> w_writer l' \<noteq> None"
  by (auto simp: append_entry_def Let_def split: if_splits prod.splits option.splits)

text \<open>C2: When a write to the log succeeds the entry is durable: whatever happens to the process then, reopening and loading the log gives
  back all entries that the log held before, and this one as the last.\<close>

theorem writeToLog_durable:
  assumes "snappy_ok sn" "wal_run sn l d a" "entry_fits sn e" "writeToLog sn can e l d = (Inr i, l', d')" "w_currentSegmentID l' < 99999" "\<forall>n. can' n"
  shows "\<exists>l2 d1 d2. wal_Open can' NewWAL (crash k l' d') = (None, l2, d1) \<and> load_files sn (segmentFileNames d1) d1 = (log_entries a @ [e], d2)"
proof -
  from assms(4) obtain b l1 d1 where w: "entry_Encode e = Inr b" "append_entry can (entry_Type e) (snappy_Encode sn b) l d = (Inr i, l1, d1)"
    "wal_sync l1 d1 = (None, l', d')" by (auto simp: writeToLog_def split: sum.splits prod.splits option.splits)
  have "w_currentSegmentID l1 < 100000" using wal_sync_id [of l1 d1] w(3) assms(5) by simp
  then have run1: "wal_run sn l1 d1 (log_write l e a)" by (rule append_entry_runs [OF assms(2, 3) w(1, 2)])
  then have run: "wal_run sn l' d' (log_sync (log_write l e a))" by (rule wal_run.sync [OF _ append_entry_writer [OF w(2)] w(3)])
  let ?a = "log_sync (log_write l e a)"
  from wal_run_inv [OF assms(1) run] have inv: "wal_inv sn l' d' ?a" .
  from wal_Open_succeeds [OF crash_dir [OF inv, of k] assms(6) crash_files_ids [OF inv assms(5)]] obtain l2 d1 where
    o: "wal_Open can' NewWAL (crash k l' d') = (None, l2, d1)" "w_currentSegmentID l2 < 100000" by blast
  obtain es d2 where load: "load_files sn (segmentFileNames d1) d1 = (es, d2)" by (metis surj_pair)
  have "es = log_entries a @ [e]"
    using restart_inv [OF assms(1) inv o load] crash_entries [OF inv, of k] log_write_entries [OF wal_run_inv [OF assms(1, 2)], of e]
    by (simp add: log_sync_def log_entries_def)
  with o load show ?thesis by blast
qed

theorem writeToLog_durable_witness:
  "\<exists>l' d' l2 d1 d2. writeToLog plain_snappy (\<lambda>n. True) (DeleteWALEntry [[97]]) NewWAL [] = (Inr 1, l', d')
    \<and> wal_Open (\<lambda>n. True) NewWAL (crash 0 l' d') = (None, l2, d1) \<and> load_files plain_snappy (segmentFileNames d1) d1 = ([DeleteWALEntry [[97]]], d2)"
proof -
  obtain l' d' where w: "writeToLog plain_snappy (\<lambda>n. True) (DeleteWALEntry [[97]]) NewWAL [] = (Inr 1, l', d')" "w_currentSegmentID l' = 1"
    by (simp add: writeToLog_def encode_delete_def append_entry_def rollSegment_def due_def newSegmentFile_def wal_open_segment_def NewWAL_def Let_def
      wal_sync_def segment_sync_def segment_Flush_def segment_Write_def wal_frame_def NewWALSegmentWriter_def)
  from writeToLog_durable [OF plain_snappy_ok wal_run.start example_fits(1) w(1), of "\<lambda>n. True" 0] w show ?thesis
    by (simp add: log_entries_def)
qed

subsection \<open>Failures\<close>

text \<open>A sequence of writes, each with its own outcome of opening files.\<close>

fun write_entries :: "snappy \<Rightarrow> ((string \<Rightarrow> bool) \<times> walEntry) list \<Rightarrow> wal \<Rightarrow> wal_dir \<Rightarrow> (wal_error + nat) list" where
  "write_entries sn [] l d = []"
| "write_entries sn ((can, e) # calls) l d = (case writeToLog sn can e l d of (r, l', d') \<Rightarrow> r # write_entries sn calls l' d')"

definition broken :: "wal \<Rightarrow> bool" where
  "broken l \<longleftrightarrow> (case w_writer l of None \<Rightarrow> False | Some w \<Rightarrow> \<not> sw_open w)"

lemma segment_Flush_closed: "\<not> sw_open w \<Longrightarrow> \<exists>err. segment_Flush w d = (err, w, d)"
  by (simp add: segment_Flush_def)

lemma segment_sync_closed: "\<not> sw_open w \<Longrightarrow> \<exists>e. segment_sync w d = (Some e, w, d)"
  using segment_Flush_closed [of w d] by (auto simp: segment_sync_def split: option.splits)

lemma segment_close_closed: "\<not> sw_open w \<Longrightarrow> \<exists>e. segment_close w d = (Some e, w, d)"
  using segment_Flush_closed [of w d] by (auto simp: segment_close_def split: option.splits)

lemma segment_sync_open: "sw_open w \<Longrightarrow> \<exists>w1 d1. segment_sync w d = (None, w1, d1) \<and> sw_open w1 \<and> sw_buffered w1 = []"
  by (cases "sw_buffered w = []") (simp_all add: segment_sync_def segment_Flush_def)

lemma broken_sync:
  assumes "broken l"
  shows "\<exists>e l'. wal_sync l d = (Some e, l', d) \<and> broken l'"
proof -
  obtain w where w: "w_writer l = Some w" "\<not> sw_open w" using assms by (auto simp: broken_def split: option.splits)
  with segment_sync_closed [of w d] show ?thesis by (auto simp: wal_sync_def broken_def)
qed

lemma broken_newSegmentFile:
  assumes "broken l"
  shows "\<exists>e l'. newSegmentFile can l d = (Some e, l', d) \<and> broken l'"
proof -
  obtain w where w: "w_writer l = Some w" "\<not> sw_open w" using assms by (auto simp: broken_def split: option.splits)
  with segment_sync_closed [of w d] segment_close_closed [of w d] show ?thesis
    by (auto simp: newSegmentFile_def wal_sync_def broken_def Let_def)
qed

lemma broken_append:
  assumes "broken l" "append_entry can t c l d = (r, l', d')"
  shows "broken l' \<and> d' = d"
proof -
  obtain e l1 where "newSegmentFile can l d = (Some e, l1, d)" "broken l1" using broken_newSegmentFile [OF assms(1)] by blast
  with assms show ?thesis
    by (auto simp: append_entry_def rollSegment_def Let_def broken_def segment_Write_def split: if_splits option.splits)
qed

lemma broken_write:
  assumes "broken l" "writeToLog sn can e l d = (r, l', d')"
  shows "isl r \<and> broken l'"
proof (cases "entry_Encode e")
  case (Inl err)
  then show ?thesis using assms by (auto simp: writeToLog_def)
next
  case (Inr b)
  obtain r1 l1 d1 where a: "append_entry can (entry_Type e) (snappy_Encode sn b) l d = (r1, l1, d1)" by (metis surj_pair)
  have "broken l1" using broken_append [OF assms(1) a] by simp
  with broken_sync [of l1 d1] obtain err l2 where "wal_sync l1 d1 = (Some err, l2, d1)" "broken l2" by blast
  with a \<open>broken l1\<close> assms(2) Inr show ?thesis by (auto simp: writeToLog_def split: sum.splits)
qed

lemma broken_writes: "broken l \<Longrightarrow> list_all isl (write_entries sn calls l d)"
proof (induction calls arbitrary: l d)
  case (Cons c calls)
  obtain can e where c: "c = (can, e)" by (cases c)
  obtain r l' d' where "writeToLog sn can e l d = (r, l', d')" by (metis surj_pair)
  with broken_write [OF Cons.prems this] Cons.IH [of l' d'] show ?case by (simp add: c)
qed simp

text \<open>When the file for a new segment cannot be opened once, the log stays without an open segment: every later write fails, also when files can
  be opened again, until the log is closed and opened anew.\<close>

theorem failed_roll_disables_log:
  assumes "w_writer l = Some w" "sw_open w" "sw_size w > 0" "\<not> can (segment_name (Suc (w_currentSegmentID l)))"
  shows "\<exists>e l' d'. CloseSegment can l d = (Some e, l', d') \<and> list_all isl (write_entries sn calls l' d')"
proof -
  obtain w1 d1 where f: "segment_sync w d = (None, w1, d1)" "sw_open w1" "sw_buffered w1 = []"
    using segment_sync_open [OF assms(2)] by blast
  then have "segment_close w1 d1 = (None, w1\<lparr> sw_open := False \<rparr>, d1)" by (simp add: segment_close_def segment_Flush_def)
  then obtain e l' where "newSegmentFile can l d = (Some e, l', d1)" "w_writer l' = Some (w1\<lparr> sw_open := False \<rparr>)"
    using assms(1, 4) f(1) by (auto simp: newSegmentFile_def wal_sync_def wal_open_segment_def Let_def)
  then show ?thesis using assms(1, 3) broken_writes [of l' sn calls d1] by (auto simp: CloseSegment_def due_def broken_def)
qed

theorem failed_roll_disables_log_witness:
  "\<exists>e l' d'. CloseSegment (\<lambda>n. False) (NewWAL\<lparr> w_writer := Some (segment_Write 2 [97] (NewWALSegmentWriter ''_00000.wal'')) \<rparr>) [] = (Some e, l', d')
    \<and> list_all isl (write_entries plain_snappy [(\<lambda>n. True, DeleteWALEntry [[98]]), (\<lambda>n. True, DeleteWALEntry [[99]])] l' d')"
  by (rule failed_roll_disables_log [where w = "segment_Write 2 [97] (NewWALSegmentWriter ''_00000.wal'')"])
    (simp_all add: segment_Write_def NewWALSegmentWriter_def)

lemma segment_name_99999: "segment_name 99999 = ''_99999.wal''"
  by (simp add: segment_name_def format_padded_def FormatUint.simps WALFilePrefix_def WALFileExtension_def digit_char_def char_of_def bit_0)

lemma segment_name_100000: "segment_name 100000 = ''_100000.wal''"
  by (simp add: segment_name_def format_padded_def FormatUint.simps WALFilePrefix_def WALFileExtension_def digit_char_def char_of_def bit_0)

lemma names_reversed: "segmentFileNames [(segment_name 99999, b0), (segment_name 100000, b1)] = [segment_name 100000, segment_name 99999]"
  by (simp add: segmentFileNames_def segment_name_99999 segment_name_100000 is_segment_def WALFilePrefix_def WALFileExtension_def less_eq_char_def less_char_def)

text \<open>C40: The names of segments are compared as strings, and beyond five digits this is not the order of their numbers: a log that is opened with the
  segments 99999 and 100000 takes 99999 for the last one, opens segment 100000 again and writes over its entries.\<close>

theorem segment_100000_overwritten:
  assumes "b0 \<noteq> []" "entry_Encode e = Inr b"
  shows "\<exists>l d1 l' d2. wal_Open (\<lambda>n. True) NewWAL [(segment_name 99999, b0), (segment_name 100000, b1)] = (None, l, d1)
    \<and> writeToLog sn (\<lambda>n. True) e l d1 = (Inr 100000, l', d2)
    \<and> content d2 (segment_name 100000) = overwrite 0 (entry_frame sn e) b1"
proof -
  let ?d = "[(segment_name 99999, b0), (segment_name 100000, b1)]"
  let ?w = "NewWALSegmentWriter (segment_name 100000)"
  have ne: "segment_name 99999 \<noteq> segment_name 100000" by (simp add: segment_name_99999 segment_name_100000)
  then have c: "content ?d (segment_name 99999) = b0" "content ?d (segment_name 100000) = b1" "AList.update (segment_name 100000) b1 ?d = ?d"
    by (simp_all add: content_def)
  obtain l where l: "wal_Open (\<lambda>n. True) NewWAL ?d = (None, l, ?d)" "w_writer l = Some ?w" "w_currentSegmentID l = 100000" "\<not> w_closing l" "w_waiters l = 0"
    using assms(1) idFromFileName_name [of 99999] c
    by (simp add: wal_Open_def Let_def names_reversed newSegmentFile_def wal_open_segment_def NewWAL_def ne)
  have f: "wal_frame (entry_Type e) (snappy_Encode sn b) = entry_frame sn e" "entry_frame sn e \<noteq> []" using assms(2) by (simp_all add: entry_frame_def wal_frame_def)
  obtain l' d2 where "writeToLog sn (\<lambda>n. True) e l ?d = (Inr 100000, l', d2)" "d2 = AList.update (segment_name 100000) (overwrite 0 (entry_frame sn e) b1) ?d"
    using assms(2) l(2-5) f c(2)
    by (simp add: writeToLog_def append_entry_def rollSegment_def due_def NewWALSegmentWriter_def segment_Write_def
      wal_sync_def segment_sync_def segment_Flush_def)
  then show ?thesis using l(1) by (auto simp: content_def update_conv')
qed

theorem segment_100000_overwritten_witness:
  "\<exists>l d1 l' d2. wal_Open (\<lambda>n. True) NewWAL [(segment_name 99999, [1]), (segment_name 100000, [2, 0, 0, 0, 1, 98])] = (None, l, d1)
    \<and> writeToLog plain_snappy (\<lambda>n. True) (DeleteWALEntry [[97]]) l d1 = (Inr 100000, l', d2)
    \<and> content d2 (segment_name 100000) = overwrite 0 (entry_frame plain_snappy (DeleteWALEntry [[97]])) [2, 0, 0, 0, 1, 98]"
  by (rule segment_100000_overwritten [OF _ example_fits(2)]) simp

end
