(* ===== verification/Ring.thy ===== *)
theory Ring
  imports Block Values "HOL-Library.AList" "HOL-Library.List_Lexorder"
begin

text \<open>
  The store of the cache: an entry holds the values of one series key, \<^verbatim>\<open>tsdb/engine/tsm1/cache.go\<close> (type \<^verbatim>\<open>entry\<close>), and a ring of partitions maps keys to
  entries, \<^verbatim>\<open>tsdb/engine/tsm1/ring.go\<close>. The hash of a key (\<^verbatim>\<open>github.com/cespare/xxhash\<close>) is an argument. A map is an association list in the order of
  iteration. Locks, sizes of allocations and the hint for the number of keys have no effect on the content and are left out, except that the hint is counted. The
  interface \<^verbatim>\<open>storer\<close> of the cache is the locale \<open>storer\<close>, with a finite map as its abstraction.
\<close>

subsection \<open>Entries\<close>

datatype cache_error = ErrFieldTypeConflict | ErrSnapshotInProgress | ErrCacheMemorySizeLimitExceeded u64 u64 | CachePanic

record cache_entry =
  e_values :: "Value list"
  e_vtype :: int

fun valueType :: "Value \<Rightarrow> int" where
  "valueType (FloatValue t x) = 1"
| "valueType (IntegerValue t x) = 2"
| "valueType (StringValue t x) = 3"
| "valueType (BooleanValue t x) = 4"
| "valueType v = 0"

text \<open>\<^verbatim>\<open>UnixNano\<close>; for the empty value this is the constant \<^verbatim>\<open>tsdb.EOF\<close> of the underlying database, left unspecified.\<close>

fun value_UnixNano :: "Value \<Rightarrow> int" where
  "value_UnixNano (FloatValue t x) = t"
| "value_UnixNano (IntegerValue t x) = t"
| "value_UnixNano (UnsignedValue t x) = t"
| "value_UnixNano (BooleanValue t x) = t"
| "value_UnixNano (StringValue t x) = t"
| "value_UnixNano EmptyValue = undefined"

fun value_Size :: "Value \<Rightarrow> nat" where
  "value_Size (FloatValue t x) = 16"
| "value_Size (IntegerValue t x) = 16"
| "value_Size (UnsignedValue t x) = 16"
| "value_Size (BooleanValue t x) = 9"
| "value_Size (StringValue t x) = 8 + length x"
| "value_Size EmptyValue = 0"

definition values_Size :: "Value list \<Rightarrow> nat" where
  "values_Size vs = sum_list (map value_Size vs)"

text \<open>The operations on slices of values of any type, from those on values with a timestamp.\<close>

definition stamped :: "Value \<Rightarrow> Value tv" where
  "stamped v = \<lparr> unixnano = value_UnixNano v, payload = v \<rparr>"

definition values_Deduplicate :: "Value list \<Rightarrow> Value list" where
  "values_Deduplicate vs = map payload (Deduplicate (map stamped vs))"

definition values_Exclude :: "Value list \<Rightarrow> int \<Rightarrow> int \<Rightarrow> Value list" where
  "values_Exclude vs mn mx = map payload (Exclude (map stamped vs) mn mx)"

definition newEntryValues :: "Value list \<Rightarrow> cache_error + cache_entry" where
  "newEntryValues vs =
     (if vs = [] then Inr \<lparr> e_values = [], e_vtype = 0 \<rparr>
      else let et = valueType (vs ! 0) in
        if \<not> list_all (\<lambda>v. et = valueType v) vs then Inl ErrFieldTypeConflict else Inr \<lparr> e_values = vs, e_vtype = et \<rparr>)"

definition entry_add :: "Value list \<Rightarrow> cache_entry \<Rightarrow> cache_error + cache_entry" where
  "entry_add vs e =
     (if vs = [] then Inr e
      else if \<not> list_all (\<lambda>v. e_vtype e = valueType v) vs then Inl ErrFieldTypeConflict
      else if e_values e = [] then Inr (e\<lparr> e_values := vs \<rparr>)
      else Inr (e\<lparr> e_values := e_values e @ vs \<rparr>))"

definition entry_deduplicate :: "cache_entry \<Rightarrow> cache_entry" where
  "entry_deduplicate e = (if length (e_values e) \<le> 1 then e else e\<lparr> e_values := values_Deduplicate (e_values e) \<rparr>)"

definition entry_count :: "cache_entry \<Rightarrow> nat" where
  "entry_count e = length (e_values e)"

definition entry_filter :: "int \<Rightarrow> int \<Rightarrow> cache_entry \<Rightarrow> cache_entry" where
  "entry_filter mn mx e = e\<lparr> e_values := values_Exclude (e_values e) mn mx \<rparr>"

definition entry_size :: "cache_entry \<Rightarrow> nat" where
  "entry_size e = values_Size (e_values e)"

subsection \<open>Partitions\<close>

type_synonym part = "(bytes \<times> cache_entry) list"

definition partition_entry :: "bytes \<Rightarrow> part \<Rightarrow> cache_entry option" where
  "partition_entry k p = map_of p k"

text \<open>Whether the key is new, or an error, and the partition afterwards.\<close>

definition partition_write :: "bytes \<Rightarrow> Value list \<Rightarrow> part \<Rightarrow> (cache_error + bool) \<times> part" where
  "partition_write k vs p = (case map_of p k of
      Some e \<Rightarrow> (case entry_add vs e of Inl err \<Rightarrow> (Inl err, p) | Inr e' \<Rightarrow> (Inr False, AList.update k e' p))
    | None \<Rightarrow> (case newEntryValues vs of Inl err \<Rightarrow> (Inl err, p) | Inr e \<Rightarrow> (Inr True, AList.update k e p)))"

definition partition_add :: "bytes \<Rightarrow> cache_entry \<Rightarrow> part \<Rightarrow> part" where
  "partition_add k e p = AList.update k e p"

definition partition_remove :: "bytes \<Rightarrow> part \<Rightarrow> part" where
  "partition_remove k p = AList.delete k p"

definition partition_keys :: "part \<Rightarrow> bytes list" where
  "partition_keys p = map fst (filter (\<lambda>(k, e). entry_count e \<noteq> 0) p)"

definition partition_reset :: "part \<Rightarrow> part" where
  "partition_reset p = []"

definition partition_count :: "part \<Rightarrow> nat" where
  "partition_count p = length (filter (\<lambda>(k, e). entry_count e > 0) p)"

subsection \<open>The ring\<close>

record ring =
  r_keysHint :: int
  r_partitions :: "part list"

definition partitions :: nat where "partitions = 4096"
definition ringShards :: nat where "ringShards = 4096"

definition newring :: "int \<Rightarrow> ring option" where
  "newring n = (if n \<le> 0 \<or> n > int partitions then None else Some \<lparr> r_keysHint = 0, r_partitions = replicate (nat n) [] \<rparr>)"

definition ring_reset :: "ring \<Rightarrow> ring" where
  "ring_reset r = \<lparr> r_keysHint = 0, r_partitions = map partition_reset (r_partitions r) \<rparr>"

definition getPartition :: "(bytes \<Rightarrow> u64) \<Rightarrow> bytes \<Rightarrow> nat" where
  "getPartition hash k = unat (hash k mod of_nat partitions)"

definition ring_entry :: "(bytes \<Rightarrow> u64) \<Rightarrow> bytes \<Rightarrow> ring \<Rightarrow> cache_entry option" where
  "ring_entry hash k r = partition_entry k (r_partitions r ! getPartition hash k)"

definition ring_write :: "(bytes \<Rightarrow> u64) \<Rightarrow> bytes \<Rightarrow> Value list \<Rightarrow> ring \<Rightarrow> (cache_error + bool) \<times> ring" where
  "ring_write hash k vs r = (let i = getPartition hash k in case partition_write k vs (r_partitions r ! i) of
     (res, p) \<Rightarrow> (res, r\<lparr> r_partitions := (r_partitions r)[i := p] \<rparr>))"

definition ring_add :: "(bytes \<Rightarrow> u64) \<Rightarrow> bytes \<Rightarrow> cache_entry \<Rightarrow> ring \<Rightarrow> ring" where
  "ring_add hash k e r = (let i = getPartition hash k in
     r\<lparr> r_partitions := (r_partitions r)[i := partition_add k e (r_partitions r ! i)], r_keysHint := r_keysHint r + 1 \<rparr>)"

definition ring_remove :: "(bytes \<Rightarrow> u64) \<Rightarrow> bytes \<Rightarrow> ring \<Rightarrow> ring" where
  "ring_remove hash k r = (let i = getPartition hash k in
     r\<lparr> r_partitions := (r_partitions r)[i := partition_remove k (r_partitions r ! i)],
        r_keysHint := (if r_keysHint r > 0 then r_keysHint r - 1 else r_keysHint r) \<rparr>)"

definition ring_keys :: "bool \<Rightarrow> ring \<Rightarrow> bytes list" where
  "ring_keys srt r = (let keys = concat (map partition_keys (r_partitions r)) in if srt then sort keys else keys)"

definition ring_count :: "ring \<Rightarrow> nat" where
  "ring_count r = sum_list (map partition_count (r_partitions r))"

text \<open>\<^verbatim>\<open>apply\<close> for a function that changes entries and returns no error, which is how it is called.\<close>

definition ring_apply :: "(cache_entry \<Rightarrow> cache_entry) \<Rightarrow> ring \<Rightarrow> ring" where
  "ring_apply f r = r\<lparr> r_partitions := map (map (\<lambda>(k, e). (k, f e))) (r_partitions r) \<rparr>"

text \<open>\<^verbatim>\<open>applySerial\<close> for a function with a state of its own, up to the first error.\<close>

fun apply_entries :: "(bytes \<Rightarrow> cache_entry \<Rightarrow> 's \<Rightarrow> 'e option \<times> 's) \<Rightarrow> (bytes \<times> cache_entry) list \<Rightarrow> 's \<Rightarrow> 'e option \<times> 's" where
  "apply_entries f [] s = (None, s)"
| "apply_entries f ((k, e) # p) s =
     (if entry_count e = 0 then apply_entries f p s
      else case f k e s of (Some err, s') \<Rightarrow> (Some err, s') | (None, s') \<Rightarrow> apply_entries f p s')"

definition ring_applySerial :: "(bytes \<Rightarrow> cache_entry \<Rightarrow> 's \<Rightarrow> 'e option \<times> 's) \<Rightarrow> ring \<Rightarrow> 's \<Rightarrow> 'e option \<times> 's" where
  "ring_applySerial f r s = apply_entries f (concat (r_partitions r)) s"

text \<open>Partition \<open>i\<close> goes to store \<open>i mod n\<close>; the other partitions of that store are empty.\<close>

definition ring_split :: "nat \<Rightarrow> ring \<Rightarrow> ring list" where
  "ring_split n r = map (\<lambda>j. \<lparr> r_keysHint = 0,
     r_partitions = map (\<lambda>i. if i mod n = j then r_partitions r ! i else []) [0..<length (r_partitions r)] \<rparr>) [0..<n]"

text \<open>A change of an entry through the pointer that \<^verbatim>\<open>entry\<close> returns.\<close>

definition ring_update :: "(bytes \<Rightarrow> u64) \<Rightarrow> bytes \<Rightarrow> (cache_entry \<Rightarrow> cache_entry) \<Rightarrow> ring \<Rightarrow> ring" where
  "ring_update hash k f r = (let i = getPartition hash k in
     r\<lparr> r_partitions := (r_partitions r)[i := AList.map_entry k f (r_partitions r ! i)] \<rparr>)"

subsection \<open>The interface of a store\<close>

text \<open>A write to the entry of one key: whether the key is new, or an error, and the entry afterwards.\<close>

definition write_entry :: "Value list \<Rightarrow> cache_entry option \<Rightarrow> (cache_error + bool) \<times> cache_entry option" where
  "write_entry vs eo = (case eo of
      Some e \<Rightarrow> (case entry_add vs e of Inl err \<Rightarrow> (Inl err, Some e) | Inr e' \<Rightarrow> (Inr False, Some e'))
    | None \<Rightarrow> (case newEntryValues vs of Inl err \<Rightarrow> (Inl err, None) | Inr e \<Rightarrow> (Inr True, Some e)))"

definition written_bytes :: "bytes \<Rightarrow> Value list \<Rightarrow> cache_error + bool \<Rightarrow> nat" where
  "written_bytes k vs res = (case res of Inl _ \<Rightarrow> 0 | Inr isnew \<Rightarrow> values_Size vs + (if isnew then length k else 0))"

definition entry_bytes :: "bytes \<Rightarrow> cache_entry option \<Rightarrow> nat" where
  "entry_bytes k eo = (case eo of None \<Rightarrow> 0 | Some e \<Rightarrow> length k + entry_size e)"

lemma write_entry_bytes: "entry_bytes k (snd (write_entry vs eo)) = entry_bytes k eo + written_bytes k vs (fst (write_entry vs eo))"
  by (auto simp: write_entry_def entry_bytes_def written_bytes_def entry_size_def entry_add_def newEntryValues_def values_Size_def Let_def
    split: option.splits sum.splits if_splits)

text \<open>
  The laws of a store, over the entry that it holds for each key and the bytes that all keys and values take. All changes of the cache are writes, removals and
  changes of a present entry.
\<close>

locale storer =
  fixes inv :: "'s \<Rightarrow> bool"
    and get :: "bytes \<Rightarrow> 's \<Rightarrow> cache_entry option"
    and put :: "bytes \<Rightarrow> Value list \<Rightarrow> 's \<Rightarrow> (cache_error + bool) \<times> 's"
    and del :: "bytes \<Rightarrow> 's \<Rightarrow> 's"
    and upd :: "bytes \<Rightarrow> (cache_entry \<Rightarrow> cache_entry) \<Rightarrow> 's \<Rightarrow> 's"
    and size_of :: "'s \<Rightarrow> nat"
  assumes put_result: "inv s \<Longrightarrow> fst (put k vs s) = fst (write_entry vs (get k s))"
    and get_put: "inv s \<Longrightarrow> get k' (snd (put k vs s)) = (if k' = k then snd (write_entry vs (get k s)) else get k' s)"
    and get_del: "inv s \<Longrightarrow> get k' (del k s) = (if k' = k then None else get k' s)"
    and get_upd: "inv s \<Longrightarrow> get k' (upd k f s) = (if k' = k then map_option f (get k s) else get k' s)"
    and inv_put: "inv s \<Longrightarrow> inv (snd (put k vs s))"
    and inv_del: "inv s \<Longrightarrow> inv (del k s)"
    and inv_upd: "inv s \<Longrightarrow> inv (upd k f s)"
    and size_put: "inv s \<Longrightarrow> size_of (snd (put k vs s)) + entry_bytes k (get k s) = size_of s + entry_bytes k (get k (snd (put k vs s)))"
    and size_del: "inv s \<Longrightarrow> size_of (del k s) + entry_bytes k (get k s) = size_of s"
    and size_upd: "inv s \<Longrightarrow> size_of (upd k f s) + entry_bytes k (get k s) = size_of s + entry_bytes k (get k (upd k f s))"
begin

fun put_all :: "(bytes \<times> Value list) list \<Rightarrow> 's \<Rightarrow> 's" where
  "put_all [] s = s"
| "put_all ((k, vs) # kvs) s = put_all kvs (snd (put k vs s))"

lemma inv_put_all: "inv s \<Longrightarrow> inv (put_all kvs s)"
  by (induction kvs s rule: put_all.induct) (simp_all add: inv_put)

lemma size_put_written: "inv s \<Longrightarrow> size_of (snd (put k vs s)) = size_of s + written_bytes k vs (fst (put k vs s))"
  using size_put [of s k vs] write_entry_bytes [of k vs "get k s"] by (simp add: get_put put_result)

text \<open>Writing a map of keys to values writes each key once.\<close>

lemma get_put_all:
  assumes "inv s" "distinct (map fst kvs)"
  shows "get k (put_all kvs s) = (case map_of kvs k of None \<Rightarrow> get k s | Some vs \<Rightarrow> snd (write_entry vs (get k s)))"
  using assms
proof (induction kvs arbitrary: s)
  case (Cons kv kvs)
  obtain k' vs where kv: "kv = (k', vs)" by (cases kv)
  have "map_of kvs k' = None" using Cons.prems(2) by (simp add: kv map_of_eq_None_iff)
  then show ?case using Cons.IH [of "snd (put k' vs s)"] Cons.prems by (simp add: kv inv_put get_put split: option.split)
qed simp

end

subsection \<open>The ring is such a store\<close>

definition part_bytes :: "part \<Rightarrow> nat" where
  "part_bytes p = sum_list (map (\<lambda>(k, e). length k + entry_size e) p)"

definition ring_bytes :: "ring \<Rightarrow> nat" where
  "ring_bytes r = sum_list (map part_bytes (r_partitions r))"

definition ring_inv :: "ring \<Rightarrow> bool" where
  "ring_inv r \<longleftrightarrow> length (r_partitions r) = partitions \<and> list_all (\<lambda>p. distinct (map fst p)) (r_partitions r)"

lemma getPartition_less: "getPartition hash k < partitions"
proof -
  have "hash k mod of_nat partitions < of_nat partitions" by (rule word_mod_less_divisor) (simp add: partitions_def)
  then show ?thesis by (simp add: getPartition_def word_less_nat_alt partitions_def)
qed

lemma ring_inv_index: "ring_inv r \<Longrightarrow> getPartition hash k < length (r_partitions r)"
  by (simp add: ring_inv_def getPartition_less)

lemma ring_inv_part: "ring_inv r \<Longrightarrow> distinct (map fst (r_partitions r ! getPartition hash k))"
  using ring_inv_index [of r hash k] by (simp add: ring_inv_def list_all_length)

lemma ring_inv_update: "ring_inv r \<Longrightarrow> distinct (map fst p) \<Longrightarrow> ring_inv (r\<lparr> r_partitions := (r_partitions r)[i := p] \<rparr>)"
  by (auto simp: ring_inv_def list_all_iff dest!: set_update_subset_insert [THEN subsetD])

lemma sum_list_change: "i < length xs \<Longrightarrow> sum_list (map f (xs[i := y])) + f (xs ! i) = sum_list (map f xs) + (f y :: nat)"
  by (induction xs arbitrary: i) (auto simp: nth_Cons split: nat.splits)

text \<open>One partition of the ring is replaced; the others keep their entries.\<close>

lemma ring_entry_change:
  assumes "ring_inv r" "\<And>k'. map_of p k' = (if k' = k then x else map_of (r_partitions r ! getPartition hash k) k')"
  shows "ring_entry hash k' (r\<lparr> r_partitions := (r_partitions r)[getPartition hash k := p] \<rparr>) = (if k' = k then x else ring_entry hash k' r)"
  using assms(2) ring_inv_index [OF assms(1)] by (auto simp: ring_entry_def partition_entry_def nth_list_update)

lemma part_bytes_update:
  "distinct (map fst p) \<Longrightarrow> part_bytes (AList.update k e p) + entry_bytes k (map_of p k) = part_bytes p + entry_bytes k (Some e)"
  by (induction p) (auto simp: part_bytes_def entry_bytes_def map_of_eq_None_iff [THEN iffD2])

lemma part_bytes_delete: "distinct (map fst p) \<Longrightarrow> part_bytes (AList.delete k p) + entry_bytes k (map_of p k) = part_bytes p"
proof (induction p)
  case (Cons x p)
  then have "fst x = k \<Longrightarrow> AList.delete k p = p" by (auto simp: delete_id)
  with Cons show ?case by (cases x) (auto simp: part_bytes_def entry_bytes_def split: option.splits)
qed (simp add: part_bytes_def entry_bytes_def)

lemma part_bytes_map_entry:
  "distinct (map fst p) \<Longrightarrow> part_bytes (AList.map_entry k f p) + entry_bytes k (map_of p k) = part_bytes p + entry_bytes k (map_option f (map_of p k))"
  by (induction p) (auto simp: part_bytes_def entry_bytes_def split: option.splits)

lemma map_of_map_entry: "map_of (AList.map_entry k f p) k' = (if k' = k then map_option f (map_of p k) else map_of p k')"
  by (induction p) auto

lemma ring_bytes_change:
  assumes "ring_inv r"
  shows "ring_bytes (r\<lparr> r_partitions := (r_partitions r)[getPartition hash k := p] \<rparr>) + part_bytes (r_partitions r ! getPartition hash k)
    = ring_bytes r + part_bytes p"
  using sum_list_change [OF ring_inv_index [OF assms]] by (simp add: ring_bytes_def)

lemma ring_inv_hint [simp]: "ring_inv (r\<lparr> r_keysHint := n \<rparr>) = ring_inv r" "ring_bytes (r\<lparr> r_keysHint := n \<rparr>) = ring_bytes r"
  "ring_entry hash k (r\<lparr> r_keysHint := n \<rparr>) = ring_entry hash k r"
  by (simp_all add: ring_inv_def ring_bytes_def ring_entry_def)

lemma partition_write_entry:
  "fst (partition_write k vs p) = fst (write_entry vs (map_of p k))
   \<and> (\<forall>k'. map_of (snd (partition_write k vs p)) k' = (if k' = k then snd (write_entry vs (map_of p k)) else map_of p k'))"
  by (auto simp: partition_write_def write_entry_def update_conv' split: option.splits sum.splits)

lemma partition_write_distinct: "distinct (map fst p) \<Longrightarrow> distinct (map fst (snd (partition_write k vs p)))"
  by (auto simp: partition_write_def distinct_update split: option.splits sum.splits)

lemma partition_write_bytes:
  assumes "distinct (map fst p)"
  shows "part_bytes (snd (partition_write k vs p)) + entry_bytes k (map_of p k) = part_bytes p + entry_bytes k (map_of (snd (partition_write k vs p)) k)"
  using part_bytes_update [OF assms, of k] by (auto simp: partition_write_def update_conv' split: option.splits sum.splits)

lemma ring_write_parts:
  "fst (ring_write hash k vs r) = fst (partition_write k vs (r_partitions r ! getPartition hash k))"
  "snd (ring_write hash k vs r)
     = r\<lparr> r_partitions := (r_partitions r)[getPartition hash k := snd (partition_write k vs (r_partitions r ! getPartition hash k))] \<rparr>"
  by (simp_all add: ring_write_def Let_def case_prod_unfold)

lemma ring_remove_entry: "ring_inv r \<Longrightarrow> ring_entry hash k' (ring_remove hash k r) = (if k' = k then None else ring_entry hash k' r)"
  using ring_entry_change [where p = "partition_remove k (r_partitions r ! getPartition hash k)"]
  by (simp add: ring_remove_def Let_def partition_remove_def delete_conv')

lemma ring_update_entry: "ring_inv r \<Longrightarrow> ring_entry hash k' (ring_update hash k f r) = (if k' = k then map_option f (ring_entry hash k r) else ring_entry hash k' r)"
  using ring_entry_change [where p = "AList.map_entry k f (r_partitions r ! getPartition hash k)"]
  by (simp add: ring_update_def Let_def map_of_map_entry ring_entry_def partition_entry_def)

interpretation ring_store: storer ring_inv "ring_entry hash" "ring_write hash" "ring_remove hash" "ring_update hash" ring_bytes
proof
  fix r :: ring and k k' vs f
  assume inv: "ring_inv r"
  let ?p = "r_partitions r ! getPartition hash k"
  note part = ring_inv_part [OF inv, of hash k]
  show "fst (ring_write hash k vs r) = fst (write_entry vs (ring_entry hash k r))"
    using partition_write_entry [of k vs ?p] by (simp add: ring_write_parts ring_entry_def partition_entry_def)
  show get: "ring_entry hash k' (snd (ring_write hash k vs r)) = (if k' = k then snd (write_entry vs (ring_entry hash k r)) else ring_entry hash k' r)" for k'
    using partition_write_entry [of k vs ?p] ring_entry_change [OF inv, of "snd (partition_write k vs ?p)"]
    by (simp add: ring_write_parts ring_entry_def [of hash k] partition_entry_def)
  show "ring_entry hash k' (ring_remove hash k r) = (if k' = k then None else ring_entry hash k' r)" by (rule ring_remove_entry [OF inv])
  show "ring_entry hash k' (ring_update hash k f r) = (if k' = k then map_option f (ring_entry hash k r) else ring_entry hash k' r)"
    by (rule ring_update_entry [OF inv])
  show "ring_inv (snd (ring_write hash k vs r))"
    by (simp add: ring_write_parts ring_inv_update [OF inv] partition_write_distinct [OF part])
  show "ring_inv (ring_remove hash k r)"
    by (simp add: ring_remove_def Let_def partition_remove_def ring_inv_update [OF inv] distinct_delete [OF part])
  show "ring_inv (ring_update hash k f r)"
    by (simp add: ring_update_def Let_def ring_inv_update [OF inv] distinct_map_entry [OF part])
  show "ring_bytes (snd (ring_write hash k vs r)) + entry_bytes k (ring_entry hash k r)
      = ring_bytes r + entry_bytes k (ring_entry hash k (snd (ring_write hash k vs r)))"
    using partition_write_bytes [OF part, of k vs] ring_bytes_change [OF inv, of hash k "snd (partition_write k vs ?p)"] partition_write_entry [of k vs ?p]
    by (simp add: get) (simp add: ring_write_parts ring_entry_def partition_entry_def)
  show "ring_bytes (ring_remove hash k r) + entry_bytes k (ring_entry hash k r) = ring_bytes r"
    using part_bytes_delete [OF part, of k] ring_bytes_change [OF inv, of hash k "partition_remove k ?p"]
    by (simp add: ring_remove_def Let_def ring_entry_def partition_entry_def partition_remove_def)
  show "ring_bytes (ring_update hash k f r) + entry_bytes k (ring_entry hash k r)
      = ring_bytes r + entry_bytes k (ring_entry hash k (ring_update hash k f r))"
    using part_bytes_map_entry [OF part, of k f] ring_bytes_change [OF inv, of hash k "AList.map_entry k f ?p"]
    by (simp add: ring_update_entry [OF inv]) (simp add: ring_update_def Let_def ring_entry_def partition_entry_def)
qed

end
