(* ===== verification/Cache.thy ===== *)
theory Cache
  imports Ring Wal_Entry
begin

text \<open>
  The in-memory cache of a shard, type \<^verbatim>\<open>Cache\<close> of \<^verbatim>\<open>tsdb/engine/tsm1/cache.go\<close>: writes, queries, deletions and snapshots. The size counters are 64-bit
  words as in the code, which subtracts by adding the complement. The operations are atomic; times, the age of the cache and the statistics on
  compaction times are left out. The snapshot is a cache of which only the store and the size are used.
\<close>

datatype cacheStore = EmptyStore | RingStore ring

record snapshot =
  sn_store :: cacheStore
  sn_size :: u64

record cache =
  c_size :: u64
  c_snapshotSize :: u64
  c_store :: cacheStore
  c_maxSize :: u64
  c_snapshot :: "snapshot option"
  c_snapshotting :: bool
  c_snapshotAttempts :: int
  c_initialized :: bool
  c_MemSizeBytes :: int
  c_DiskSizeBytes :: int
  c_SnapshotCount :: int
  c_CachedBytes :: int
  c_WriteOK :: nat
  c_WriteErr :: nat
  c_WriteDropped :: nat

subsection \<open>The store\<close>

fun cstore_entry :: "(bytes \<Rightarrow> u64) \<Rightarrow> bytes \<Rightarrow> cacheStore \<Rightarrow> cache_entry option" where
  "cstore_entry hash k EmptyStore = None"
| "cstore_entry hash k (RingStore r) = ring_entry hash k r"

fun cstore_write :: "(bytes \<Rightarrow> u64) \<Rightarrow> bytes \<Rightarrow> Value list \<Rightarrow> cacheStore \<Rightarrow> (cache_error + bool) \<times> cacheStore" where
  "cstore_write hash k vs EmptyStore = (Inr False, EmptyStore)"
| "cstore_write hash k vs (RingStore r) = (case ring_write hash k vs r of (res, r') \<Rightarrow> (res, RingStore r'))"

fun cstore_remove :: "(bytes \<Rightarrow> u64) \<Rightarrow> bytes \<Rightarrow> cacheStore \<Rightarrow> cacheStore" where
  "cstore_remove hash k EmptyStore = EmptyStore"
| "cstore_remove hash k (RingStore r) = RingStore (ring_remove hash k r)"

fun cstore_update :: "(bytes \<Rightarrow> u64) \<Rightarrow> bytes \<Rightarrow> (cache_entry \<Rightarrow> cache_entry) \<Rightarrow> cacheStore \<Rightarrow> cacheStore" where
  "cstore_update hash k f EmptyStore = EmptyStore"
| "cstore_update hash k f (RingStore r) = RingStore (ring_update hash k f r)"

fun cstore_keys :: "bool \<Rightarrow> cacheStore \<Rightarrow> bytes list" where
  "cstore_keys srt EmptyStore = []"
| "cstore_keys srt (RingStore r) = ring_keys srt r"

fun cstore_apply :: "(cache_entry \<Rightarrow> cache_entry) \<Rightarrow> cacheStore \<Rightarrow> cacheStore" where
  "cstore_apply f EmptyStore = EmptyStore"
| "cstore_apply f (RingStore r) = RingStore (ring_apply f r)"

fun cstore_reset :: "cacheStore \<Rightarrow> cacheStore" where
  "cstore_reset EmptyStore = EmptyStore"
| "cstore_reset (RingStore r) = RingStore (ring_reset r)"

subsection \<open>Sizes\<close>

definition cache_Size :: "cache \<Rightarrow> u64" where
  "cache_Size c = c_size c + c_snapshotSize c"

definition increaseSize :: "u64 \<Rightarrow> cache \<Rightarrow> cache" where
  "increaseSize delta c = c\<lparr> c_size := c_size c + delta \<rparr>"

definition decreaseSize :: "u64 \<Rightarrow> cache \<Rightarrow> cache" where
  "decreaseSize delta c = c\<lparr> c_size := c_size c + not (delta - 1) \<rparr>"

definition updateMemSize :: "int \<Rightarrow> cache \<Rightarrow> cache" where
  "updateMemSize b c = c\<lparr> c_MemSizeBytes := i64 (c_MemSizeBytes c + b) \<rparr>"

definition updateCachedBytes :: "u64 \<Rightarrow> cache \<Rightarrow> cache" where
  "updateCachedBytes b c = c\<lparr> c_CachedBytes := i64 (c_CachedBytes c + i64_of b) \<rparr>"

definition updateSnapshots :: "cache \<Rightarrow> cache" where
  "updateSnapshots c = c\<lparr> c_DiskSizeBytes := i64_of (c_snapshotSize c), c_SnapshotCount := c_snapshotAttempts c \<rparr>"

definition SetMaxSize :: "u64 \<Rightarrow> cache \<Rightarrow> cache" where
  "SetMaxSize n c = c\<lparr> c_maxSize := n \<rparr>"

subsection \<open>Life cycle\<close>

definition NewCache :: "u64 \<Rightarrow> cache" where
  "NewCache maxSize = \<lparr> c_size = 0, c_snapshotSize = 0, c_store = EmptyStore, c_maxSize = maxSize, c_snapshot = None, c_snapshotting = False,
     c_snapshotAttempts = 0, c_initialized = False, c_MemSizeBytes = 0, c_DiskSizeBytes = 0, c_SnapshotCount = 0, c_CachedBytes = 0,
     c_WriteOK = 0, c_WriteErr = 0, c_WriteDropped = 0 \<rparr>"

text \<open>A ring of \<^verbatim>\<open>ringShards\<close> partitions; the error of \<^verbatim>\<open>newring\<close> cannot occur.\<close>

definition new_store :: cacheStore where
  "new_store = (case newring (int ringShards) of None \<Rightarrow> EmptyStore | Some r \<Rightarrow> RingStore r)"

definition cache_init :: "cache \<Rightarrow> cache" where
  "cache_init c = (if c_initialized c then c else c\<lparr> c_initialized := True, c_store := new_store \<rparr>)"

definition cache_Free :: "cache \<Rightarrow> cache" where
  "cache_Free c = (if \<not> c_initialized c then c else c\<lparr> c_initialized := False, c_store := EmptyStore \<rparr>)"

subsection \<open>Writing\<close>

definition cache_Write :: "(bytes \<Rightarrow> u64) \<Rightarrow> bytes \<Rightarrow> Value list \<Rightarrow> cache \<Rightarrow> cache_error option \<times> cache" where
  "cache_Write hash k vs c0 = (let c = cache_init c0;
       addedSize = (of_nat (values_Size vs) :: u64);
       limit = c_maxSize c; n = cache_Size c + addedSize in
     if limit > 0 \<and> n > limit then (Some (ErrCacheMemorySizeLimitExceeded n limit), c\<lparr> c_WriteErr := c_WriteErr c + 1 \<rparr>)
     else case cstore_write hash k vs (c_store c) of
       (Inl err, st) \<Rightarrow> (Some err, c\<lparr> c_store := st, c_WriteErr := c_WriteErr c + 1 \<rparr>)
     | (Inr newKey, st) \<Rightarrow>
         (let added = (if newKey then addedSize + of_nat (length k) else addedSize);
              c = updateMemSize (i64_of added) (increaseSize added (c\<lparr> c_store := st \<rparr>))
          in (None, c\<lparr> c_WriteOK := c_WriteOK c + 1 \<rparr>)))"

text \<open>The loop of \<^verbatim>\<open>WriteMulti\<close>: the last error, the added size and the cache.\<close>

fun write_keys :: "(bytes \<Rightarrow> u64) \<Rightarrow> (bytes \<times> Value list) list \<Rightarrow> cache_error option \<Rightarrow> u64 \<Rightarrow> cache \<Rightarrow> cache_error option \<times> u64 \<times> cache" where
  "write_keys hash [] werr added c = (werr, added, c)"
| "write_keys hash ((k, vs) # kvs) werr added c = (case cstore_write hash k vs (c_store c) of
      (Inl err, st) \<Rightarrow> write_keys hash kvs (Some err) (added - of_nat (values_Size vs)) (decreaseSize (of_nat (values_Size vs)) (c\<lparr> c_store := st \<rparr>))
    | (Inr newKey, st) \<Rightarrow>
        if newKey then write_keys hash kvs werr (added + of_nat (length k)) (increaseSize (of_nat (length k)) (c\<lparr> c_store := st \<rparr>))
        else write_keys hash kvs werr added (c\<lparr> c_store := st \<rparr>))"

definition cache_WriteMulti :: "(bytes \<Rightarrow> u64) \<Rightarrow> (bytes \<times> Value list) list \<Rightarrow> cache \<Rightarrow> cache_error option \<times> cache" where
  "cache_WriteMulti hash kvs c0 = (let c = cache_init c0;
       addedSize = (of_nat (sum_list (map (\<lambda>(k, vs). values_Size vs) kvs)) :: u64);
       limit = c_maxSize c; n = cache_Size c + addedSize in
     if limit > 0 \<and> n > limit then (Some (ErrCacheMemorySizeLimitExceeded n limit), c\<lparr> c_WriteErr := c_WriteErr c + 1 \<rparr>)
     else case write_keys hash kvs None addedSize (increaseSize addedSize c) of
       (werr, added, c1) \<Rightarrow>
         (let c2 = (if werr \<noteq> None then c1\<lparr> c_WriteDropped := c_WriteDropped c1 + 1, c_WriteErr := c_WriteErr c1 + 1 \<rparr> else c1);
              c3 = updateMemSize (i64_of added) c2
          in (werr, c3\<lparr> c_WriteOK := c_WriteOK c3 + 1 \<rparr>)))"

subsection \<open>Snapshots\<close>

definition snapshot_of :: "cache \<Rightarrow> snapshot" where
  "snapshot_of c = (case c_snapshot c of None \<Rightarrow> \<lparr> sn_store = new_store, sn_size = 0 \<rparr> | Some s \<Rightarrow> s)"

definition cache_Snapshot :: "cache \<Rightarrow> (cache_error + snapshot) \<times> cache" where
  "cache_Snapshot c0 = (let c = cache_init c0 in
     if c_snapshotting c then (Inl ErrSnapshotInProgress, c)
     else let s = snapshot_of c;
         c = c\<lparr> c_snapshotting := True, c_snapshotAttempts := c_snapshotAttempts c + 1, c_snapshot := Some s \<rparr> in
       if sn_size s > 0 then (Inr s, c)
       else let size = cache_Size c;
           s' = \<lparr> sn_store = c_store c, sn_size = size \<rparr>;
           c = c\<lparr> c_snapshot := Some s', c_snapshotSize := size, c_store := cstore_reset (sn_store s), c_size := 0 \<rparr>
         in (Inr s', updateSnapshots (updateCachedBytes size c)))"

text \<open>\<^verbatim>\<open>Deduplicate\<close>, called on the snapshot.\<close>

definition snapshot_Deduplicate :: "cache \<Rightarrow> cache" where
  "snapshot_Deduplicate c = c\<lparr> c_snapshot := map_option (\<lambda>s. s\<lparr> sn_store := cstore_apply entry_deduplicate (sn_store s) \<rparr>) (c_snapshot c) \<rparr>"

definition ClearSnapshot :: "bool \<Rightarrow> cache \<Rightarrow> cache_error option \<times> cache" where
  "ClearSnapshot success c0 = (let c = cache_init c0 in case c_snapshot c of
      None \<Rightarrow> (Some CachePanic, c)
    | Some s \<Rightarrow>
        (if \<not> success then (None, c\<lparr> c_snapshotting := False \<rparr>)
         else let c = updateMemSize (- i64_of (c_snapshotSize c)) (c\<lparr> c_snapshotting := False, c_snapshotAttempts := 0 \<rparr>)
           in (None, updateSnapshots (c\<lparr> c_snapshot := Some \<lparr> sn_store = cstore_reset (sn_store s), sn_size = 0 \<rparr>, c_snapshotSize := 0 \<rparr>))))"

subsection \<open>Queries and deletions\<close>

definition cache_Count :: "cache \<Rightarrow> nat" where
  "cache_Count c = (case c_store c of EmptyStore \<Rightarrow> 0 | RingStore r \<Rightarrow> ring_count r)"

definition cache_Keys :: "cache \<Rightarrow> bytes list" where
  "cache_Keys c = cstore_keys True (c_store c)"

definition unsortedKeys :: "cache \<Rightarrow> bytes list" where
  "unsortedKeys c = cstore_keys False (c_store c)"

definition cache_values :: "(bytes \<Rightarrow> u64) \<Rightarrow> bytes \<Rightarrow> snapshot \<Rightarrow> Value list" where
  "cache_values hash k s = (case cstore_entry hash k (sn_store s) of None \<Rightarrow> [] | Some e \<Rightarrow> e_values e)"

definition ApplyEntryFn :: "(bytes \<Rightarrow> cache_entry \<Rightarrow> 's \<Rightarrow> 'e option \<times> 's) \<Rightarrow> cache \<Rightarrow> 's \<Rightarrow> 'e option \<times> 's" where
  "ApplyEntryFn f c s = (case c_store c of EmptyStore \<Rightarrow> (None, s) | RingStore r \<Rightarrow> ring_applySerial f r s)"

text \<open>\<open>None\<close> is a panic: indexing the empty result of the empty store, or a division by zero parts.\<close>

definition cache_Split :: "nat \<Rightarrow> snapshot \<Rightarrow> cacheStore list option" where
  "cache_Split n s = (if n = 1 then Some [sn_store s] else case sn_store s of
      EmptyStore \<Rightarrow> if n = 0 then Some [] else None
    | RingStore r \<Rightarrow> if n = 0 \<and> r_partitions r \<noteq> [] then None else Some (map RingStore (ring_split n r)))"

text \<open>The query removes the duplicates of the entries that it reads.\<close>

definition cache_Values :: "(bytes \<Rightarrow> u64) \<Rightarrow> bytes \<Rightarrow> cache \<Rightarrow> Value list \<times> cache" where
  "cache_Values hash k c = (let
       c1 = c\<lparr> c_store := cstore_update hash k entry_deduplicate (c_store c),
              c_snapshot := map_option (\<lambda>s. s\<lparr> sn_store := cstore_update hash k entry_deduplicate (sn_store s) \<rparr>) (c_snapshot c) \<rparr>;
       snap = (case c_snapshot c1 of None \<Rightarrow> None | Some s \<Rightarrow> cstore_entry hash k (sn_store s));
       hot = cstore_entry hash k (c_store c1);
       values = (case snap of None \<Rightarrow> [] | Some e \<Rightarrow> e_values e) @ (case hot of None \<Rightarrow> [] | Some e \<Rightarrow> e_values e)
     in (if values = [] then [] else values_Deduplicate values, c1))"

definition delete_key :: "(bytes \<Rightarrow> u64) \<Rightarrow> int \<Rightarrow> int \<Rightarrow> bytes \<Rightarrow> cache \<Rightarrow> cache" where
  "delete_key hash mn mx k c = (case cstore_entry hash k (c_store c) of
      None \<Rightarrow> c
    | Some e \<Rightarrow> (let origSize = (of_nat (entry_size e) :: u64) in
        if mn = MinInt64 \<and> mx = MaxInt64
        then (decreaseSize (origSize + of_nat (length k)) c)\<lparr> c_store := cstore_remove hash k (c_store c) \<rparr>
        else let e' = entry_filter mn mx e; c = c\<lparr> c_store := cstore_update hash k (entry_filter mn mx) (c_store c) \<rparr> in
          if entry_count e' = 0
          then decreaseSize (origSize + of_nat (length k)) (c\<lparr> c_store := cstore_remove hash k (c_store c) \<rparr>)
          else decreaseSize (origSize - of_nat (entry_size e')) c))"

definition cache_DeleteRange :: "(bytes \<Rightarrow> u64) \<Rightarrow> bytes list \<Rightarrow> int \<Rightarrow> int \<Rightarrow> cache \<Rightarrow> cache" where
  "cache_DeleteRange hash keys mn mx c0 = (let c = fold (delete_key hash mn mx) keys (cache_init c0) in c\<lparr> c_MemSizeBytes := i64_of (cache_Size c) \<rparr>)"

definition cache_Delete :: "(bytes \<Rightarrow> u64) \<Rightarrow> bytes list \<Rightarrow> cache \<Rightarrow> cache" where
  "cache_Delete hash keys c = cache_DeleteRange hash keys MinInt64 MaxInt64 c"

subsection \<open>Loading\<close>

text \<open>What \<^verbatim>\<open>CacheLoader.Load\<close> does with the entries of the log; the first failing write ends it.\<close>

fun load_entry :: "(bytes \<Rightarrow> u64) \<Rightarrow> walEntry \<Rightarrow> cache \<Rightarrow> cache_error option \<times> cache" where
  "load_entry hash (WriteWALEntry kvs) c = cache_WriteMulti hash kvs c"
| "load_entry hash (DeleteRangeWALEntry keys mn mx) c = (None, cache_DeleteRange hash keys mn mx c)"
| "load_entry hash (DeleteWALEntry keys) c = (None, cache_Delete hash keys c)"

fun load_entries :: "(bytes \<Rightarrow> u64) \<Rightarrow> walEntry list \<Rightarrow> cache \<Rightarrow> cache_error option \<times> cache" where
  "load_entries hash [] c = (None, c)"
| "load_entries hash (e # es) c = (case load_entry hash e c of (Some err, c') \<Rightarrow> (Some err, c') | (None, c') \<Rightarrow> load_entries hash es c')"

text \<open>\<^verbatim>\<open>Engine.reloadCache\<close>: the limit is off while the log is loaded.\<close>

definition reloadCache :: "(bytes \<Rightarrow> u64) \<Rightarrow> walEntry list \<Rightarrow> cache \<Rightarrow> cache_error option \<times> cache" where
  "reloadCache hash es c = (case load_entries hash es (SetMaxSize 0 c) of (err, c') \<Rightarrow> (err, SetMaxSize (c_maxSize c) c'))"

subsection \<open>The store of the cache satisfies the interface\<close>

fun cstore_inv :: "cacheStore \<Rightarrow> bool" where
  "cstore_inv EmptyStore = False"
| "cstore_inv (RingStore r) = ring_inv r"

fun cstore_bytes :: "cacheStore \<Rightarrow> nat" where
  "cstore_bytes EmptyStore = 0"
| "cstore_bytes (RingStore r) = ring_bytes r"

lemma cstore_write_ring: "fst (cstore_write hash k vs (RingStore r)) = fst (ring_write hash k vs r)"
  "snd (cstore_write hash k vs (RingStore r)) = RingStore (snd (ring_write hash k vs r))"
  by (simp_all add: case_prod_unfold)

interpretation cache_store: storer cstore_inv "cstore_entry hash" "cstore_write hash" "cstore_remove hash" "cstore_update hash" cstore_bytes
proof
  fix st :: cacheStore and k k' vs f
  assume "cstore_inv st"
  then obtain r where st: "st = RingStore r" and r: "ring_inv r" by (cases st) auto
  show "fst (cstore_write hash k vs st) = fst (write_entry vs (cstore_entry hash k st))"
    unfolding st cstore_write_ring cstore_entry.simps by (rule ring_store.put_result [OF r])
  show "cstore_entry hash k' (snd (cstore_write hash k vs st)) = (if k' = k then snd (write_entry vs (cstore_entry hash k st)) else cstore_entry hash k' st)"
    unfolding st cstore_write_ring cstore_entry.simps by (rule ring_store.get_put [OF r])
  show "cstore_entry hash k' (cstore_remove hash k st) = (if k' = k then None else cstore_entry hash k' st)"
    unfolding st cstore_remove.simps cstore_entry.simps by (rule ring_store.get_del [OF r])
  show "cstore_entry hash k' (cstore_update hash k f st) = (if k' = k then map_option f (cstore_entry hash k st) else cstore_entry hash k' st)"
    unfolding st cstore_update.simps cstore_entry.simps by (rule ring_store.get_upd [OF r])
  show "cstore_inv (snd (cstore_write hash k vs st))" unfolding st cstore_write_ring cstore_inv.simps by (rule ring_store.inv_put [OF r])
  show "cstore_inv (cstore_remove hash k st)" unfolding st cstore_remove.simps cstore_inv.simps by (rule ring_store.inv_del [OF r])
  show "cstore_inv (cstore_update hash k f st)" unfolding st cstore_update.simps cstore_inv.simps by (rule ring_store.inv_upd [OF r])
  show "cstore_bytes (snd (cstore_write hash k vs st)) + entry_bytes k (cstore_entry hash k st)
      = cstore_bytes st + entry_bytes k (cstore_entry hash k (snd (cstore_write hash k vs st)))"
    unfolding st cstore_write_ring cstore_entry.simps cstore_bytes.simps by (rule ring_store.size_put [OF r])
  show "cstore_bytes (cstore_remove hash k st) + entry_bytes k (cstore_entry hash k st) = cstore_bytes st"
    unfolding st cstore_remove.simps cstore_entry.simps cstore_bytes.simps by (rule ring_store.size_del [OF r])
  show "cstore_bytes (cstore_update hash k f st) + entry_bytes k (cstore_entry hash k st)
      = cstore_bytes st + entry_bytes k (cstore_entry hash k (cstore_update hash k f st))"
    unfolding st cstore_update.simps cstore_entry.simps cstore_bytes.simps by (rule ring_store.size_upd [OF r])
qed

lemma new_store_ring: "new_store = RingStore \<lparr> r_keysHint = 0, r_partitions = replicate partitions [] \<rparr>"
  by (simp add: new_store_def newring_def ringShards_def partitions_def)

lemma new_store_inv: "cstore_inv new_store"
  by (simp add: new_store_ring ring_inv_def list_all_iff)

lemma new_store_entry: "cstore_entry hash k new_store = None"
  using getPartition_less [of hash k] by (simp add: new_store_ring ring_entry_def partition_entry_def)

lemma new_store_bytes: "cstore_bytes new_store = 0"
  by (simp add: new_store_ring ring_bytes_def part_bytes_def sum_list_replicate)

lemma cstore_reset_inv:
  assumes "cstore_inv st"
  shows "cstore_inv (cstore_reset st)" "cstore_entry hash k (cstore_reset st) = None" "cstore_bytes (cstore_reset st) = 0"
proof -
  obtain r where st: "st = RingStore r" and r: "ring_inv r" using assms by (cases st) auto
  show "cstore_inv (cstore_reset st)" "cstore_entry hash k (cstore_reset st) = None" "cstore_bytes (cstore_reset st) = 0"
    using r ring_inv_index [OF r, of hash k]
    by (simp_all add: st ring_reset_def ring_inv_def list_all_iff partition_reset_def ring_entry_def partition_entry_def ring_bytes_def part_bytes_def
      comp_def)
qed

lemma map_of_apply: "map_of (map (\<lambda>(k, e). (k, f e)) p) k = map_option f (map_of p k)"
  by (induction p) auto

lemma cstore_apply_inv:
  assumes "cstore_inv st"
  shows "cstore_inv (cstore_apply f st)" "cstore_entry hash k (cstore_apply f st) = map_option f (cstore_entry hash k st)"
proof -
  obtain r where st: "st = RingStore r" and r: "ring_inv r" using assms by (cases st) auto
  have fst: "fst \<circ> (\<lambda>(k, e). (k, f e)) = fst" by (simp add: fun_eq_iff case_prod_unfold)
  show "cstore_inv (cstore_apply f st)" "cstore_entry hash k (cstore_apply f st) = map_option f (cstore_entry hash k st)"
    using r ring_inv_index [OF r, of hash k]
    by (simp_all add: st ring_apply_def ring_inv_def list_all_iff ring_entry_def partition_entry_def map_of_apply fst)
qed

subsection \<open>Values of a key\<close>

lemma payload_stamp [simp]: "payload (stamped v) = v" "unixnano (stamped v) = value_UnixNano v"
  by (simp_all add: stamped_def)

lemma map_stamp_payload: "set xs \<subseteq> stamped ` UNIV \<Longrightarrow> map stamped (map payload xs) = xs"
  by (induction xs) auto

lemma set_Deduplicate: "set (Deduplicate a) \<subseteq> set a"
proof
  fix x assume "x \<in> set (Deduplicate a)"
  then have "val_at (Deduplicate a) (unixnano x) = Some x" using val_at_strict [OF strict_Deduplicate [of a]] by blast
  then have "val_at a (unixnano x) = Some x" by (simp add: val_at_Deduplicate)
  then show "x \<in> set a" using val_at_Some by blast
qed

lemma stamp_Deduplicate: "map stamped (values_Deduplicate vs) = Deduplicate (map stamped vs)"
  unfolding values_Deduplicate_def using set_Deduplicate [of "map stamped vs"] by (intro map_stamp_payload) auto

text \<open>Removing duplicates gives the same for slices that hold the same value for every time.\<close>

lemma Deduplicate_cong: "(\<And>t. val_at a t = val_at b t) \<Longrightarrow> Deduplicate a = Deduplicate b"
  by (rule strict_unique [OF strict_Deduplicate strict_Deduplicate]) (simp add: val_at_Deduplicate fun_eq_iff)

lemma values_Deduplicate_append:
  "values_Deduplicate (values_Deduplicate vs @ ws) = values_Deduplicate (vs @ ws)"
  "values_Deduplicate (vs @ values_Deduplicate ws) = values_Deduplicate (vs @ ws)"
  unfolding values_Deduplicate_def [of "_ @ _"]
  by (auto intro!: arg_cong [where f = "map payload"] Deduplicate_cong simp: stamp_Deduplicate val_at_append val_at_Deduplicate split: option.split)

lemma values_Deduplicate_Nil [simp]: "values_Deduplicate [] = []"
  by (simp add: values_Deduplicate_def Deduplicate_def)

lemma values_Deduplicate_idem [simp]: "values_Deduplicate (values_Deduplicate vs) = values_Deduplicate vs"
  using values_Deduplicate_append(1) [of vs "[]"] by simp

definition entry_values :: "cache_entry option \<Rightarrow> Value list" where
  "entry_values eo = (case eo of None \<Rightarrow> [] | Some e \<Rightarrow> e_values e)"

definition hot_values :: "(bytes \<Rightarrow> u64) \<Rightarrow> bytes \<Rightarrow> cache \<Rightarrow> Value list" where
  "hot_values hash k c = entry_values (cstore_entry hash k (c_store c))"

definition snap_values :: "(bytes \<Rightarrow> u64) \<Rightarrow> bytes \<Rightarrow> cache \<Rightarrow> Value list" where
  "snap_values hash k c = (case c_snapshot c of None \<Rightarrow> [] | Some s \<Rightarrow> entry_values (cstore_entry hash k (sn_store s)))"

definition cache_inv :: "cache \<Rightarrow> bool" where
  "cache_inv c \<longleftrightarrow> (if c_initialized c then cstore_inv (c_store c) else c_store c = EmptyStore)
     \<and> (case c_snapshot c of None \<Rightarrow> True | Some s \<Rightarrow> cstore_inv (sn_store s))"

lemma values_dedup_entry: "values_Deduplicate (e_values (entry_deduplicate e)) = values_Deduplicate (e_values e)"
  by (simp add: entry_deduplicate_def)

lemma cache_init_inv:
  assumes "cache_inv c"
  shows "cache_inv (cache_init c)" "cstore_inv (c_store (cache_init c))" "c_initialized (cache_init c)"
    "hot_values hash k (cache_init c) = hot_values hash k c" "snap_values hash k (cache_init c) = snap_values hash k c"
    "c_snapshot (cache_init c) = c_snapshot c"
  using assms new_store_inv by (auto simp: cache_init_def cache_inv_def hot_values_def snap_values_def new_store_entry split: option.splits)

lemma cstore_update_entry:
  "cstore_inv st \<or> st = EmptyStore \<Longrightarrow> cstore_entry hash k' (cstore_update hash k f st) = (if k' = k then map_option f (cstore_entry hash k st) else cstore_entry hash k' st)"
  using cache_store.get_upd [of st hash k' k f] by auto

lemma cache_inv_store: "cache_inv c \<Longrightarrow> cstore_inv (c_store c) \<or> c_store c = EmptyStore"
  by (auto simp: cache_inv_def split: if_splits)

text \<open>The query returns the canonical form of what snapshot and store hold, the store after the snapshot.\<close>

lemma cache_Values_eq:
  assumes "cache_inv c"
  shows "fst (cache_Values hash k c) = values_Deduplicate (snap_values hash k c @ hot_values hash k c)"
proof -
  define d where "d eo = entry_values (map_option entry_deduplicate eo)" for eo
  have d: "values_Deduplicate (d eo) = values_Deduplicate (entry_values eo)" for eo
    by (cases eo) (simp_all add: d_def entry_values_def values_dedup_entry)
  have hot: "cstore_entry hash k (cstore_update hash k entry_deduplicate (c_store c)) = map_option entry_deduplicate (cstore_entry hash k (c_store c))"
    using cstore_update_entry [OF cache_inv_store [OF assms]] by simp
  define sn where "sn = (case c_snapshot c of None \<Rightarrow> None | Some s \<Rightarrow> cstore_entry hash k (sn_store s))"
  have "fst (cache_Values hash k c) = values_Deduplicate (d sn @ d (cstore_entry hash k (c_store c)))"
  proof (cases "c_snapshot c")
    case None
    then show ?thesis using hot
      by (cases "cstore_entry hash k (c_store c)") (simp_all add: cache_Values_def Let_def d_def entry_values_def sn_def)
  next
    case (Some s)
    then have "cstore_entry hash k (cstore_update hash k entry_deduplicate (sn_store s)) = map_option entry_deduplicate (cstore_entry hash k (sn_store s))"
      using assms cstore_update_entry [of "sn_store s" hash k k] by (simp add: cache_inv_def)
    with Some hot show ?thesis
      by (cases "cstore_entry hash k (c_store c)"; cases "cstore_entry hash k (sn_store s)") (simp_all add: cache_Values_def Let_def d_def entry_values_def sn_def)
  qed
  also have "\<dots> = values_Deduplicate (entry_values sn @ entry_values (cstore_entry hash k (c_store c)))"
    by (metis d values_Deduplicate_append)
  finally show ?thesis by (simp add: snap_values_def hot_values_def sn_def entry_values_def split: option.splits)
qed

subsection \<open>Writing\<close>

lemma write_entry_values:
  "fst (write_entry vs eo) = Inr b \<Longrightarrow> entry_values (snd (write_entry vs eo)) = entry_values eo @ vs"
  by (auto simp: write_entry_def entry_add_def newEntryValues_def entry_values_def Let_def split: option.splits sum.splits if_splits)

lemma write_entry_error: "fst (write_entry vs eo) = Inl err \<Longrightarrow> snd (write_entry vs eo) = eo"
  by (auto simp: write_entry_def split: option.splits sum.splits)

lemma size_changes [simp]:
  "c_store (increaseSize n c) = c_store c" "c_snapshot (increaseSize n c) = c_snapshot c" "c_initialized (increaseSize n c) = c_initialized c"
  "c_store (decreaseSize n c) = c_store c" "c_snapshot (decreaseSize n c) = c_snapshot c" "c_initialized (decreaseSize n c) = c_initialized c"
  "c_store (updateMemSize m c) = c_store c" "c_snapshot (updateMemSize m c) = c_snapshot c" "c_initialized (updateMemSize m c) = c_initialized c"
  "c_snapshotSize (increaseSize n c) = c_snapshotSize c" "c_snapshotSize (decreaseSize n c) = c_snapshotSize c" "c_snapshotSize (updateMemSize m c) = c_snapshotSize c"
  "c_size (increaseSize n c) = c_size c + n" "c_size (decreaseSize n c) = c_size c - n" "c_size (updateMemSize m c) = c_size c"
  by (simp_all add: increaseSize_def decreaseSize_def updateMemSize_def minus_eq_not_plus_1 [symmetric] not_diff_distrib)

text \<open>The loop over the keys is the sequence of writes to the store.\<close>

lemma write_keys_store:
  "c_store (snd (snd (write_keys hash kvs werr added c))) = cache_store.put_all hash kvs (c_store c)
   \<and> c_snapshot (snd (snd (write_keys hash kvs werr added c))) = c_snapshot c
   \<and> c_initialized (snd (snd (write_keys hash kvs werr added c))) = c_initialized c
   \<and> c_snapshotSize (snd (snd (write_keys hash kvs werr added c))) = c_snapshotSize c"
proof (induction kvs arbitrary: werr added c)
  case (Cons kv kvs)
  obtain k vs where kv: "kv = (k, vs)" by (cases kv)
  obtain res st where w: "cstore_write hash k vs (c_store c) = (res, st)" by (metis surj_pair)
  show ?case using w Cons by (cases res) (auto simp: kv)
qed simp

lemma write_keys_error: "fst (write_keys hash kvs (Some e) added c) \<noteq> None"
proof (induction kvs arbitrary: e added c)
  case (Cons kv kvs)
  obtain k vs where kv: "kv = (k, vs)" by (cases kv)
  obtain res st where w: "cstore_write hash k vs (c_store c) = (res, st)" by (metis surj_pair)
  show ?case using w Cons by (cases res) (auto simp: kv)
qed simp

lemma write_keys_ok:
  assumes "cstore_inv (c_store c)" "distinct (map fst kvs)" "fst (write_keys hash kvs None added c) = None" "map_of kvs k = Some vs"
  shows "\<exists>b. fst (write_entry vs (cstore_entry hash k (c_store c))) = Inr b"
  using assms
proof (induction kvs arbitrary: added c)
  case (Cons kv kvs)
  obtain k' vs' where kv: "kv = (k', vs')" by (cases kv)
  obtain res st where w: "cstore_write hash k' vs' (c_store c) = (res, st)" by (metis surj_pair)
  obtain b where res: "res = Inr b" using Cons.prems(3) w write_keys_error by (cases res) (auto simp: kv)
  have fst: "fst (write_entry vs' (cstore_entry hash k' (c_store c))) = Inr b"
    using cache_store.put_result [OF Cons.prems(1), of hash k' vs'] w res by simp
  show ?case
  proof (cases "k = k'")
    case True
    then show ?thesis using Cons.prems(4) fst by (simp add: kv)
  next
    case False
    define c1 where "c1 = (if b then increaseSize (of_nat (length k')) (c\<lparr> c_store := st \<rparr>) else c\<lparr> c_store := st \<rparr>)"
    have st: "c_store c1 = st" by (simp add: c1_def)
    have "cstore_inv (c_store c1)" "cstore_entry hash k (c_store c1) = cstore_entry hash k (c_store c)"
      using cache_store.inv_put [OF Cons.prems(1), of hash k' vs'] cache_store.get_put [OF Cons.prems(1), of hash k k' vs'] w False by (simp_all add: st)
    moreover have "fst (write_keys hash kvs None (if b then added + of_nat (length k') else added) c1) = None"
      using Cons.prems(3) w res by (simp add: kv c1_def split: if_splits)
    ultimately show ?thesis using Cons.IH [of c1] Cons.prems(2, 4) False by (simp add: kv)
  qed
qed simp

lemma cache_WriteMulti_store:
  assumes "cache_inv c" "cache_WriteMulti hash kvs c = (None, c')"
  shows "c_store c' = cache_store.put_all hash kvs (c_store (cache_init c))" "c_snapshot c' = c_snapshot c"
    "fst (write_keys hash kvs None (of_nat (sum_list (map (\<lambda>(k, vs). values_Size vs) kvs)))
      (increaseSize (of_nat (sum_list (map (\<lambda>(k, vs). values_Size vs) kvs))) (cache_init c))) = None"
    "cache_inv c'"
proof -
  define n :: u64 where "n = of_nat (sum_list (map (\<lambda>(k, vs). values_Size vs) kvs))"
  obtain werr added c1 where w: "write_keys hash kvs None n (increaseSize n (cache_init c)) = (werr, added, c1)" by (metis surj_pair)
  have c': "werr = None" "c_store c' = c_store c1" "c_snapshot c' = c_snapshot c1" "c_initialized c' = c_initialized c1"
    using assms(2) w by (auto simp: cache_WriteMulti_def Let_def n_def [symmetric] split: if_splits)
  note s = write_keys_store [of hash kvs None n "increaseSize n (cache_init c)"]
  show store: "c_store c' = cache_store.put_all hash kvs (c_store (cache_init c))" and snap: "c_snapshot c' = c_snapshot c"
    using s w c' cache_init_inv(6) [OF assms(1)] by simp_all
  show "fst (write_keys hash kvs None n (increaseSize n (cache_init c))) = None" using w c' by simp
  show "cache_inv c'" using s w c' store snap cache_store.inv_put_all [OF cache_init_inv(2) [OF assms(1)]] cache_init_inv(3) [OF assms(1)] assms(1)
    by (simp add: cache_inv_def)
qed

text \<open>C24: After a successful write of a batch a query returns, for every key, the values that it returned before with the written ones on top: sorted by
  time, one value per time, the written value where both have one.\<close>

theorem WriteMulti_then_Values:
  assumes "cache_inv c" "distinct (map fst kvs)" "cache_WriteMulti hash kvs c = (None, c')"
  shows "fst (cache_Values hash k c') = values_Deduplicate (fst (cache_Values hash k c) @ (case map_of kvs k of None \<Rightarrow> [] | Some vs \<Rightarrow> vs))"
proof -
  note w = cache_WriteMulti_store [OF assms(1, 3)]
  let ?st = "c_store (cache_init c)"
  have inv: "cstore_inv ?st" by (rule cache_init_inv(2) [OF assms(1)])
  have "hot_values hash k c' = hot_values hash k (cache_init c) @ (case map_of kvs k of None \<Rightarrow> [] | Some vs \<Rightarrow> vs)"
  proof (cases "map_of kvs k")
    case None
    then show ?thesis using cache_store.get_put_all [OF inv assms(2), of hash k] by (simp add: hot_values_def w(1))
  next
    case (Some vs)
    from write_keys_ok [OF _ assms(2) w(3) Some] inv obtain b where "fst (write_entry vs (cstore_entry hash k ?st)) = Inr b" by auto
    from write_entry_values [OF this] Some cache_store.get_put_all [OF inv assms(2), of hash k] show ?thesis by (simp add: hot_values_def w(1))
  qed
  moreover have "snap_values hash k c' = snap_values hash k c" by (simp add: snap_values_def w(2))
  ultimately show ?thesis
    using cache_Values_eq [OF assms(1), of hash k] cache_Values_eq [OF w(4), of hash k] cache_init_inv(4) [OF assms(1), of hash k] values_Deduplicate_append(1)
    by (metis append.assoc)
qed

lemma NewCache_inv: "cache_inv (NewCache m)"
  by (simp add: cache_inv_def NewCache_def)

lemma new_store_write:
  assumes "newEntryValues vs = Inr e"
  shows "\<exists>st. cstore_write hash k vs new_store = (Inr True, st)"
  using cache_store.put_result [OF new_store_inv, of hash k vs] assms
  by (cases "cstore_write hash k vs new_store") (simp add: write_entry_def new_store_entry)

theorem WriteMulti_then_Values_witness:
  "\<exists>c'. cache_WriteMulti (\<lambda>k. 0) [([107], [IntegerValue 1 5])] (NewCache 0) = (None, c')
    \<and> fst (cache_Values (\<lambda>k. 0) [107] c')
      = values_Deduplicate (fst (cache_Values (\<lambda>k. 0) [107] (NewCache 0)) @ (case map_of [([107], [IntegerValue 1 5])] [107] of None \<Rightarrow> [] | Some vs \<Rightarrow> vs))"
proof -
  obtain st where "cstore_write (\<lambda>k. 0) [107] [IntegerValue 1 5] new_store = (Inr True, st)"
    using new_store_write [of "[IntegerValue 1 5]" "\<lparr> e_values = [IntegerValue 1 5], e_vtype = 2 \<rparr>" "\<lambda>k. 0" "[107]"]
    by (auto simp: newEntryValues_def)
  then obtain c' where w: "cache_WriteMulti (\<lambda>k. 0) [([107], [IntegerValue 1 5])] (NewCache 0) = (None, c')"
    by (simp add: cache_WriteMulti_def Let_def cache_init_def NewCache_def increaseSize_def)
  from WriteMulti_then_Values [OF NewCache_inv _ w] w show ?thesis by simp
qed

end
