(* ===== verification/Cache_Props.thy ===== *)
theory Cache_Props
  imports Cache
begin

text \<open>
  Properties of the cache of \<^verbatim>\<open>tsdb/engine/tsm1/cache.go\<close> over all sequences of its operations: what the size counters count, what a snapshot changes for queries,
  what a deletion removes, how a snapshot is split, and what loading the log restores.
\<close>

subsection \<open>Removing values makes an entry smaller\<close>

lemma sum_distinct_le:
  fixes f :: "'a \<Rightarrow> nat"
  assumes "distinct xs" "set xs \<subseteq> set ys"
  shows "sum_list (map f xs) \<le> sum_list (map f ys)"
proof -
  have "sum_list (map f xs) = sum f (set xs)" using assms(1) by (simp add: sum_list_distinct_conv_sum_set)
  also have "\<dots> \<le> sum f (set ys)" using assms(2) by (simp add: sum_mono2)
  also have "\<dots> = sum_list (map f (remdups ys))" by (simp add: sum_list_distinct_conv_sum_set)
  also have "\<dots> \<le> sum_list (map f ys)" by (induction ys) auto
  finally show ?thesis .
qed

lemma values_Deduplicate_size: "values_Size (values_Deduplicate vs) \<le> values_Size vs"
proof -
  have "strict (map stamped (values_Deduplicate vs))" by (simp add: stamp_Deduplicate strict_Deduplicate)
  then have "distinct (map unixnano (map stamped (values_Deduplicate vs)))" using strict_sorted by blast
  then have "distinct (values_Deduplicate vs)" by (simp add: distinct_map)
  moreover have "set (values_Deduplicate vs) \<subseteq> set vs" using set_Deduplicate [of "map stamped vs"] by (auto simp: values_Deduplicate_def)
  ultimately show ?thesis by (simp add: values_Size_def sum_distinct_le)
qed

lemma entry_deduplicate_size: "entry_size (entry_deduplicate e) \<le> entry_size e"
  by (simp add: entry_deduplicate_def entry_size_def values_Deduplicate_size)

text \<open>Also on a slice that is not sorted the search for a later time does not end further left.\<close>

lemma search_from_bounds: "lo \<le> hi \<Longrightarrow> lo \<le> search_from a v lo hi \<and> search_from a v lo hi \<le> hi"
proof (induction a v lo hi rule: search_from.induct)
  case (1 a v lo hi)
  then show ?case by (subst (1 2) search_from.simps) (fastforce simp: Let_def)
qed

lemma search_from_mono: "u \<le> v \<Longrightarrow> lo \<le> hi \<Longrightarrow> search_from a u lo hi \<le> search_from a v lo hi"
proof (induction a v lo hi rule: search_from.induct)
  case (1 a v lo hi)
  let ?mid = "(lo + hi) div 2"
  show ?case
  proof (cases "lo < hi")
    case True
    then have mid: "lo \<le> ?mid" "?mid < hi" by auto
    consider "unixnano (a ! ?mid) < u" | "u \<le> unixnano (a ! ?mid)" "unixnano (a ! ?mid) < v" | "v \<le> unixnano (a ! ?mid)" by linarith
    then show ?thesis
    proof cases
      case 1
      then show ?thesis using True "1.IH"(1) [OF True refl] "1.prems" mid by (subst (1 2) search_from.simps) (simp add: Let_def)
    next
      case 2
      then show ?thesis using True mid search_from_bounds [of lo ?mid a u] search_from_bounds [of "?mid + 1" hi a v]
        by (subst (1 2) search_from.simps) (simp add: Let_def)
    next
      case 3
      then show ?thesis using True "1.IH"(2) [OF True refl] "1.prems" mid by (subst (1 2) search_from.simps) (simp add: Let_def)
    qed
  next
    case False
    then show ?thesis by (subst (1 2) search_from.simps) simp
  qed
qed

lemma sum_list_drop: "sum_list (map f (drop n xs)) \<le> (sum_list (map f xs) :: nat)"
  by (induction xs arbitrary: n) (auto simp: drop_Cons' trans_le_add2)

lemma sum_list_cut:
  fixes f :: "'a \<Rightarrow> nat"
  assumes "i \<le> j"
  shows "sum_list (map f (take i xs @ drop j xs)) \<le> sum_list (map f xs)"
proof -
  have "drop j xs = drop (j - i) (drop i xs)" using assms by simp
  then have "sum_list (map f (drop j xs)) \<le> sum_list (map f (drop i xs))" by (metis sum_list_drop)
  moreover have "sum_list (map f (take i xs @ drop i xs)) = sum_list (map f (take i xs)) + sum_list (map f (drop i xs))"
    by (simp only: map_append sum_list_append)
  ultimately show ?thesis by simp
qed

lemma Exclude_cut: "\<exists>i j. i \<le> j \<and> Exclude a mn mx = take i a @ drop j a"
proof (cases "FindRange a mn mx = (-1, -1)")
  case True
  then show ?thesis by (intro exI [of _ 0]) (simp add: Exclude_def)
next
  case False
  then have f: "FindRange a mn mx = (int (search a mn), int (search a mx))" "mn \<le> mx" by (auto simp: FindRange_def Let_def split: if_splits)
  have le: "search a mn \<le> search a mx" using search_from_mono [OF f(2), of 0 "length a" a] by (simp add: search_def)
  show ?thesis
  proof (cases "search a mx < length a")
    case True
    let ?r = "if unixnano (a ! search a mx) = mx then search a mx + 1 else search a mx"
    have "Exclude a mn mx = take (search a mn) a @ drop ?r a" using True by (auto simp: Exclude_def f(1) Let_def)
    then show ?thesis using le by (intro exI [of _ "search a mn"] exI [of _ ?r]) auto
  next
    case ge: False
    have "Exclude a mn mx = take (search a mn) a @ drop (max (length a) (search a mn)) a" using ge by (simp add: Exclude_def f(1))
    then show ?thesis by (intro exI [of _ "search a mn"] exI [of _ "max (length a) (search a mn)"]) auto
  qed
qed

lemma entry_filter_size: "entry_size (entry_filter mn mx e) \<le> entry_size e"
proof -
  obtain i j where c: "i \<le> j" "Exclude (map stamped (e_values e)) mn mx = take i (map stamped (e_values e)) @ drop j (map stamped (e_values e))"
    using Exclude_cut by blast
  then have "values_Exclude (e_values e) mn mx = take i (e_values e) @ drop j (e_values e)"
    by (simp add: values_Exclude_def take_map drop_map comp_def)
  then show ?thesis using sum_list_cut [OF c(1), of value_Size "e_values e"] by (simp add: entry_size_def entry_filter_def values_Size_def)
qed

subsection \<open>The size counter\<close>

text \<open>Adding and subtracting on 64-bit words, as long as the true sizes fit.\<close>

lemma word_account:
  fixes s :: u64
  assumes "B \<le> unat s" "unat s - B + B' < 2 ^ 64"
  shows "unat (s + of_nat B' - of_nat B) = unat s - B + B'"
proof -
  have "s + of_nat B' - of_nat B = of_nat (unat s - B + B')" using assms(1) by (simp add: of_nat_diff)
  moreover have "unat (of_nat (unat s - B + B') :: u64) = unat s - B + B'" using assms(2) by (simp only: unat_of_nat) simp
  ultimately show ?thesis by (simp only:)
qed

definition batch_bytes :: "(bytes \<times> Value list) list \<Rightarrow> nat" where
  "batch_bytes kvs = sum_list (map (\<lambda>(k, vs). length k + values_Size vs) kvs)"

lemma written_le: "written_bytes k vs res \<le> length k + values_Size vs"
  by (simp add: written_bytes_def split: sum.splits)

lemma write_keys_size:
  assumes "cstore_inv (c_store c)"
  shows "c_size (snd (snd (write_keys hash kvs werr added c)))
      = c_size c + of_nat (cstore_bytes (cache_store.put_all hash kvs (c_store c))) - of_nat (cstore_bytes (c_store c))
        - of_nat (sum_list (map (\<lambda>(k, vs). values_Size vs) kvs))
    \<and> cstore_bytes (c_store c) \<le> cstore_bytes (cache_store.put_all hash kvs (c_store c))
    \<and> cstore_bytes (cache_store.put_all hash kvs (c_store c)) \<le> cstore_bytes (c_store c) + batch_bytes kvs"
  using assms
proof (induction kvs arbitrary: werr added c)
  case Nil
  then show ?case by (simp add: batch_bytes_def)
next
  case (Cons kv kvs)
  obtain k vs where kv: "kv = (k, vs)" by (cases kv)
  obtain res st where w: "cstore_write hash k vs (c_store c) = (res, st)" by (metis surj_pair)
  have st: "cstore_inv st" "cstore_bytes st = cstore_bytes (c_store c) + written_bytes k vs res"
    using cache_store.inv_put [OF Cons.prems, of hash k vs] cache_store.size_put_written [OF Cons.prems, of hash k vs] w by simp_all
  show ?case
  proof (cases res)
    case (Inl err)
    show ?thesis using Cons.IH [of "decreaseSize (of_nat (values_Size vs)) (c\<lparr> c_store := st \<rparr>)" "Some err" "added - of_nat (values_Size vs)"] st w
      by (simp add: kv Inl written_bytes_def batch_bytes_def)
  next
    case (Inr isnew)
    show ?thesis
      using Cons.IH [of "increaseSize (of_nat (length k)) (c\<lparr> c_store := st \<rparr>)" werr "added + of_nat (length k)"]
        Cons.IH [of "c\<lparr> c_store := st \<rparr>" werr added] st w
      by (cases isnew) (simp_all add: kv Inr written_bytes_def batch_bytes_def)
  qed
qed

lemma delete_key_size:
  assumes "cstore_inv (c_store c)"
  shows "cstore_inv (c_store (delete_key hash mn mx k c))
    \<and> c_size (delete_key hash mn mx k c) = c_size c + of_nat (cstore_bytes (c_store (delete_key hash mn mx k c))) - of_nat (cstore_bytes (c_store c))
    \<and> cstore_bytes (c_store (delete_key hash mn mx k c)) \<le> cstore_bytes (c_store c)
    \<and> c_snapshot (delete_key hash mn mx k c) = c_snapshot c \<and> c_snapshotSize (delete_key hash mn mx k c) = c_snapshotSize c
    \<and> c_initialized (delete_key hash mn mx k c) = c_initialized c"
proof (cases "cstore_entry hash k (c_store c)")
  case None
  then show ?thesis using assms by (simp add: delete_key_def)
next
  case (Some e)
  let ?st = "c_store c" and ?f = "entry_filter mn mx"
  have inv: "cstore_inv (cstore_update hash k ?f ?st)" by (rule cache_store.inv_upd [OF assms])
  have rem: "cstore_bytes ?st = cstore_bytes (cstore_remove hash k ?st) + (length k + entry_size e)"
    using cache_store.size_del [OF assms, of hash k] Some by (simp add: entry_bytes_def)
  have upd: "cstore_bytes (cstore_update hash k ?f ?st) + entry_size e = cstore_bytes ?st + entry_size (?f e)"
    using cache_store.size_upd [OF assms, of hash k ?f] Some cache_store.get_upd [OF assms, of hash k k ?f] by (simp add: entry_bytes_def)
  have rem2: "cstore_bytes (cstore_update hash k ?f ?st) = cstore_bytes (cstore_remove hash k (cstore_update hash k ?f ?st)) + (length k + entry_size (?f e))"
    using cache_store.size_del [OF inv, of hash k] Some cache_store.get_upd [OF assms, of hash k k ?f] by (simp add: entry_bytes_def)
  have both: "cstore_bytes ?st = cstore_bytes (cstore_remove hash k (cstore_update hash k ?f ?st)) + (length k + entry_size e)"
    using upd rem2 by linarith
  have filt: "cstore_bytes ?st = cstore_bytes (cstore_update hash k ?f ?st) + (entry_size e - entry_size (?f e))"
    using upd entry_filter_size [of mn mx e] by linarith
  have word: "(of_nat (cstore_bytes ?st) :: u64) = of_nat (cstore_bytes (cstore_update hash k ?f ?st)) + (of_nat (entry_size e) - of_nat (entry_size (?f e)))"
    using arg_cong [OF filt, of "of_nat :: nat \<Rightarrow> u64"] entry_filter_size [of mn mx e] by (simp add: of_nat_diff)
  consider "mn = MinInt64 \<and> mx = MaxInt64" | "\<not> (mn = MinInt64 \<and> mx = MaxInt64)" "entry_count (?f e) = 0"
    | "\<not> (mn = MinInt64 \<and> mx = MaxInt64)" "entry_count (?f e) \<noteq> 0" by blast
  then show ?thesis
  proof cases
    case 1
    then show ?thesis using cache_store.inv_del [OF assms, of hash k] by (simp add: delete_key_def Some Let_def rem)
  next
    case 2
    have "delete_key hash mn mx k c = decreaseSize (of_nat (entry_size e) + of_nat (length k))
        (c\<lparr> c_store := cstore_remove hash k (cstore_update hash k ?f ?st) \<rparr>)"
      unfolding delete_key_def Some option.case Let_def using 2 by (simp only: if_False if_True) simp
    then show ?thesis using cache_store.inv_del [OF inv, of hash k] by (simp add: both)
  next
    case 3
    have "delete_key hash mn mx k c = decreaseSize (of_nat (entry_size e) - of_nat (entry_size (?f e))) (c\<lparr> c_store := cstore_update hash k ?f ?st \<rparr>)"
      unfolding delete_key_def Some option.case Let_def using 3 by (simp only: if_False)
    then show ?thesis using inv by (simp add: word) (simp add: filt)
  qed
qed

text \<open>
  The counter covers at least the bytes of the keys and values in the store, and the snapshot keeps the size it was taken with. Removing duplicates makes entries smaller
  without changing the counter, so that it may be larger.
\<close>

definition size_inv :: "cache \<Rightarrow> bool" where
  "size_inv c \<longleftrightarrow> cache_inv c \<and> cstore_bytes (c_store c) \<le> unat (c_size c) \<and> unat (c_size c) + unat (c_snapshotSize c) < 2 ^ 64
     \<and> (case c_snapshot c of None \<Rightarrow> c_snapshotSize c = 0 | Some s \<Rightarrow> sn_size s = c_snapshotSize c \<and> cstore_bytes (sn_store s) \<le> unat (sn_size s))"

lemma size_inv_cache_inv: "size_inv c \<Longrightarrow> cache_inv c"
  by (simp add: size_inv_def)

lemma cache_init_size:
  assumes "size_inv c"
  shows "size_inv (cache_init c)" "c_size (cache_init c) = c_size c" "c_snapshotSize (cache_init c) = c_snapshotSize c"
  using assms new_store_inv by (auto simp: size_inv_def cache_init_def cache_inv_def new_store_bytes split: option.splits)

text \<open>A change of the store by which the counter changes as much as the store does.\<close>

lemma size_inv_change:
  assumes "size_inv c" "c_size c' = c_size c + of_nat (cstore_bytes (c_store c')) - of_nat (cstore_bytes (c_store c))"
    "unat (c_size c) + unat (c_snapshotSize c) + cstore_bytes (c_store c') < 2 ^ 64 + cstore_bytes (c_store c)"
    "cstore_inv (c_store c')" "c_initialized c'" "c_snapshot c' = c_snapshot c" "c_snapshotSize c' = c_snapshotSize c"
  shows "size_inv c'"
proof -
  have le: "cstore_bytes (c_store c) \<le> unat (c_size c)" using assms(1) by (simp add: size_inv_def)
  then have "unat (c_size c') = unat (c_size c) - cstore_bytes (c_store c) + cstore_bytes (c_store c')"
    unfolding assms(2) using assms(3) by (intro word_account) auto
  with le assms show ?thesis by (auto simp: size_inv_def cache_inv_def split: option.splits)
qed

lemma size_inv_stats:
  "size_inv c \<Longrightarrow> c_size c' = c_size c \<Longrightarrow> c_store c' = c_store c \<Longrightarrow> c_initialized c' = c_initialized c \<Longrightarrow> c_snapshot c' = c_snapshot c
   \<Longrightarrow> c_snapshotSize c' = c_snapshotSize c \<Longrightarrow> size_inv c'"
  by (auto simp: size_inv_def cache_inv_def split: option.splits)

lemma WriteMulti_size:
  assumes "size_inv c" "unat (c_size c) + unat (c_snapshotSize c) + batch_bytes kvs < 2 ^ 64"
  shows "size_inv (snd (cache_WriteMulti hash kvs c))"
proof -
  let ?c = "cache_init c"
  define n :: u64 where "n = of_nat (sum_list (map (\<lambda>(k, vs). values_Size vs) kvs))"
  note i = cache_init_size [OF assms(1)] and inv = cache_init_inv(2, 3) [OF size_inv_cache_inv [OF assms(1)]]
  obtain werr added c1 where w: "write_keys hash kvs None n (increaseSize n ?c) = (werr, added, c1)" by (metis surj_pair)
  note s = write_keys_store [of hash kvs None n "increaseSize n ?c"] and z = write_keys_size [of "increaseSize n ?c" hash kvs None n]
  have c1: "size_inv c1"
  proof (rule size_inv_change [OF i(1)])
    show "c_size c1 = c_size ?c + of_nat (cstore_bytes (c_store c1)) - of_nat (cstore_bytes (c_store ?c))" using s z w inv by (simp add: n_def)
    show "unat (c_size ?c) + unat (c_snapshotSize ?c) + cstore_bytes (c_store c1) < 2 ^ 64 + cstore_bytes (c_store ?c)" using s z w inv i(2, 3) assms(2) by simp
    show "cstore_inv (c_store c1)" using s w cache_store.inv_put_all [OF inv(1)] by simp
  qed (use s w inv in simp_all)
  have "size_inv (updateMemSize (i64_of added) (if werr \<noteq> None then c1\<lparr> c_WriteDropped := c_WriteDropped c1 + 1, c_WriteErr := c_WriteErr c1 + 1 \<rparr> else c1)
      \<lparr> c_WriteOK := m \<rparr>)" for m by (rule size_inv_stats [OF c1]) simp_all
  moreover have "size_inv (?c\<lparr> c_WriteErr := m \<rparr>)" for m by (rule size_inv_stats [OF i(1)]) simp_all
  ultimately show ?thesis using w by (simp add: cache_WriteMulti_def Let_def n_def [symmetric])
qed

lemma DeleteRange_size:
  assumes "size_inv c"
  shows "size_inv (cache_DeleteRange hash keys mn mx c)"
proof -
  have "size_inv (fold (delete_key hash mn mx) keys c) \<and> c_initialized (fold (delete_key hash mn mx) keys c)" if "size_inv c" "c_initialized c" for c
    using that
  proof (induction keys arbitrary: c)
    case (Cons k keys)
    have inv: "cstore_inv (c_store c)" using Cons.prems by (simp add: size_inv_def cache_inv_def)
    note d = delete_key_size [OF inv, of hash mn mx k]
    have "size_inv (delete_key hash mn mx k c)" using d Cons.prems
      by (intro size_inv_change [OF Cons.prems(1)]) (auto simp: size_inv_def)
    then show ?case using Cons.IH d Cons.prems(2) by simp
  qed simp
  from this [OF cache_init_size(1) [OF assms] cache_init_inv(3) [OF size_inv_cache_inv [OF assms]]] show ?thesis
    by (auto simp: cache_DeleteRange_def Let_def intro: size_inv_stats)
qed

text \<open>Making entries smaller in place.\<close>

lemma cstore_apply_bytes:
  assumes "\<And>e. entry_size (f e) \<le> entry_size e"
  shows "cstore_bytes (cstore_apply f st) \<le> cstore_bytes st"
proof (cases st)
  case (RingStore r)
  have "part_bytes (map (\<lambda>(k, e). (k, f e)) p) \<le> part_bytes p" for p
    unfolding part_bytes_def map_map using assms by (intro sum_list_mono) (auto simp: case_prod_unfold)
  then show ?thesis unfolding RingStore cstore_apply.simps cstore_bytes.simps ring_bytes_def ring_apply_def
    by (auto simp: comp_def intro!: sum_list_mono)
qed simp

lemma cstore_update_bytes:
  assumes "cstore_inv st \<or> st = EmptyStore" "\<And>e. entry_size (f e) \<le> entry_size e"
  shows "cstore_bytes (cstore_update hash k f st) \<le> cstore_bytes st"
proof (cases "st = EmptyStore")
  case False
  then have st: "cstore_inv st" using assms(1) by blast
  have "entry_bytes k (map_option f (cstore_entry hash k st)) \<le> entry_bytes k (cstore_entry hash k st)"
    using assms(2) by (cases "cstore_entry hash k st") (simp_all add: entry_bytes_def)
  then show ?thesis using cache_store.size_upd [OF st, of hash k f] cache_store.get_upd [OF st, of hash k k f] by simp
qed simp

lemma Write_size:
  assumes "size_inv c" "unat (c_size c) + unat (c_snapshotSize c) + (length k + values_Size vs) < 2 ^ 64"
  shows "size_inv (snd (cache_Write hash k vs c))"
proof -
  let ?c = "cache_init c"
  note i = cache_init_size [OF assms(1)] and inv = cache_init_inv(2, 3) [OF size_inv_cache_inv [OF assms(1)]]
  obtain res st where w: "cstore_write hash k vs (c_store ?c) = (res, st)" by (metis surj_pair)
  have st: "cstore_inv st" "cstore_bytes st = cstore_bytes (c_store ?c) + written_bytes k vs res"
    using cache_store.inv_put [OF inv(1), of hash k vs] cache_store.size_put_written [OF inv(1), of hash k vs] w by simp_all
  have same: "size_inv (?c\<lparr> c_WriteErr := m \<rparr>)" for m by (rule size_inv_stats [OF i(1)]) simp_all
  have changed: "size_inv c'" if "c_size c' = c_size ?c + of_nat (written_bytes k vs res)" "c_store c' = st" "c_initialized c'" "c_snapshot c' = c_snapshot ?c"
      "c_snapshotSize c' = c_snapshotSize ?c" for c'
    using that st i(2, 3) assms(2) written_le [of k vs res] by (intro size_inv_change [OF i(1)]) auto
  show ?thesis
  proof (cases res)
    case (Inl err)
    have "size_inv (?c\<lparr> c_store := st, c_WriteErr := m \<rparr>)" for m by (rule changed) (simp_all add: Inl written_bytes_def inv)
    then show ?thesis using same w Inl by (simp add: cache_Write_def Let_def)
  next
    case (Inr isnew)
    define n :: u64 where "n = (if isnew then of_nat (values_Size vs) + of_nat (length k) else of_nat (values_Size vs))"
    have "size_inv (updateMemSize (i64_of n) (increaseSize n (?c\<lparr> c_store := st \<rparr>))\<lparr> c_WriteOK := m \<rparr>)" for m
      by (rule changed) (simp_all add: Inr written_bytes_def inv n_def)
    then show ?thesis using same w Inr by (simp add: cache_Write_def Let_def n_def)
  qed
qed

text \<open>The three outcomes of taking a snapshot: one is being written, an old one is returned again, or the store becomes the snapshot.\<close>

lemma cache_Snapshot_effect:
  fixes c defines "d \<equiv> cache_init c" and "c' \<equiv> snd (cache_Snapshot c)"
  shows "c_snapshotting d \<Longrightarrow> c' = d"
    "\<not> c_snapshotting d \<Longrightarrow> c_initialized c' = c_initialized d"
    "\<not> c_snapshotting d \<Longrightarrow> sn_size (snapshot_of d) > 0 \<Longrightarrow> c_snapshot c' = Some (snapshot_of d) \<and> c_snapshotSize c' = c_snapshotSize d \<and> c_store c' = c_store d \<and> c_size c' = c_size d"
    "\<not> c_snapshotting d \<Longrightarrow> sn_size (snapshot_of d) = 0 \<Longrightarrow> c_snapshot c' = Some \<lparr> sn_store = c_store d, sn_size = cache_Size d \<rparr> \<and> c_snapshotSize c' = cache_Size d
       \<and> c_store c' = cstore_reset (sn_store (snapshot_of d)) \<and> c_size c' = 0"
  by (simp_all add: c'_def cache_Snapshot_def Let_def d_def [symmetric] cache_Size_def updateSnapshots_def updateCachedBytes_def)

lemma snapshot_of_inv:
  assumes "size_inv d"
  shows "cstore_inv (sn_store (snapshot_of d))" "sn_size (snapshot_of d) = c_snapshotSize d" "cstore_bytes (sn_store (snapshot_of d)) \<le> unat (sn_size (snapshot_of d))"
  using assms new_store_inv new_store_bytes by (auto simp: size_inv_def cache_inv_def snapshot_of_def split: option.splits)

lemma Snapshot_size:
  assumes "size_inv c"
  shows "size_inv (snd (cache_Snapshot c))"
proof -
  let ?d = "cache_init c" and ?c' = "snd (cache_Snapshot c)"
  note inv = cache_init_inv(2, 3) [OF size_inv_cache_inv [OF assms]] and d = cache_init_size(1) [OF assms]
  note s = snapshot_of_inv [OF d] and e = cache_Snapshot_effect [of c]
  have le: "cstore_bytes (c_store ?d) \<le> unat (c_size ?d)" "unat (c_size ?d) + unat (c_snapshotSize ?d) < 2 ^ 64" using d by (simp_all add: size_inv_def)
  consider "c_snapshotting ?d" | "\<not> c_snapshotting ?d" "sn_size (snapshot_of ?d) > 0" | "\<not> c_snapshotting ?d" "sn_size (snapshot_of ?d) = 0"
    using word_neq_0_conv by blast
  then show ?thesis
  proof cases
    case 1
    then show ?thesis using e(1) d by simp
  next
    case 2
    then show ?thesis using e(2, 3) s inv le by (simp add: size_inv_def cache_inv_def)
  next
    case 3
    have "cache_Size ?d = c_size ?d" using s(2) 3(2) by (simp add: cache_Size_def)
    then show ?thesis using e(2, 4) [OF 3(1)] 3(2) inv le cstore_reset_inv [OF s(1)] by (simp add: size_inv_def cache_inv_def)
  qed
qed

text \<open>Replacing the stores by ones with smaller entries.\<close>

lemma size_inv_smaller:
  assumes "size_inv c" "c_size c' = c_size c" "c_snapshotSize c' = c_snapshotSize c" "c_initialized c' = c_initialized c"
    "c_store c' = f (c_store c)" "c_snapshot c' = map_option (\<lambda>s. s\<lparr> sn_store := g (sn_store s) \<rparr>) (c_snapshot c)"
    "f EmptyStore = EmptyStore" "\<And>st. cstore_inv st \<Longrightarrow> cstore_inv (f st) \<and> cstore_bytes (f st) \<le> cstore_bytes st"
    "\<And>st. cstore_inv st \<Longrightarrow> cstore_inv (g st) \<and> cstore_bytes (g st) \<le> cstore_bytes st"
  shows "size_inv c'"
proof -
  have "cstore_bytes (f (c_store c)) \<le> cstore_bytes (c_store c)"
    using assms(7, 8) cache_inv_store [OF size_inv_cache_inv [OF assms(1)]] by auto
  moreover have "cstore_bytes (g (sn_store s)) \<le> unat (sn_size s) \<and> cstore_inv (g (sn_store s))" if "c_snapshot c = Some s" for s
    using assms(1, 9) that by (auto simp: size_inv_def cache_inv_def intro: order_trans [of _ "cstore_bytes (sn_store s)"])
  ultimately show ?thesis using assms by (cases "c_snapshot c") (auto simp: size_inv_def cache_inv_def)
qed

lemma snapshot_Deduplicate_size: "size_inv c \<Longrightarrow> size_inv (snapshot_Deduplicate c)"
  by (rule size_inv_smaller [where f = id and g = "cstore_apply entry_deduplicate"])
    (auto simp: snapshot_Deduplicate_def cstore_apply_inv entry_deduplicate_size intro: cstore_apply_bytes)

lemma Values_size: "size_inv c \<Longrightarrow> size_inv (snd (cache_Values hash k c))"
  by (rule size_inv_smaller [where f = "cstore_update hash k entry_deduplicate" and g = "cstore_update hash k entry_deduplicate"])
    (auto simp: cache_Values_def Let_def cache_store.inv_upd entry_deduplicate_size intro: cstore_update_bytes)

lemma ClearSnapshot_size:
  assumes "size_inv c"
  shows "size_inv (snd (ClearSnapshot success c))"
proof -
  define d where "d = cache_init c"
  have d: "size_inv d" using cache_init_size(1) [OF assms] by (simp add: d_def)
  show ?thesis using d cstore_reset_inv
    by (cases "c_snapshot d") (auto simp: ClearSnapshot_def Let_def d_def [symmetric] size_inv_def cache_inv_def updateSnapshots_def updateMemSize_def)
qed

subsection \<open>Sequences of operations\<close>

text \<open>
  The caches that the operations can produce, in any order. The batches that are written are so small that the counters cannot overflow.
\<close>

inductive cache_run :: "(bytes \<Rightarrow> u64) \<Rightarrow> cache \<Rightarrow> bool" for hash where
  run_new: "cache_run hash (NewCache maxSize)"
| run_Write: "cache_run hash c \<Longrightarrow> unat (c_size c) + unat (c_snapshotSize c) + (length k + values_Size vs) < 2 ^ 64 \<Longrightarrow> cache_run hash (snd (cache_Write hash k vs c))"
| run_WriteMulti: "cache_run hash c \<Longrightarrow> unat (c_size c) + unat (c_snapshotSize c) + batch_bytes kvs < 2 ^ 64 \<Longrightarrow> cache_run hash (snd (cache_WriteMulti hash kvs c))"
| run_Snapshot: "cache_run hash c \<Longrightarrow> cache_run hash (snd (cache_Snapshot c))"
| run_Deduplicate: "cache_run hash c \<Longrightarrow> cache_run hash (snapshot_Deduplicate c)"
| run_ClearSnapshot: "cache_run hash c \<Longrightarrow> cache_run hash (snd (ClearSnapshot success c))"
| run_Values: "cache_run hash c \<Longrightarrow> cache_run hash (snd (cache_Values hash k c))"
| run_DeleteRange: "cache_run hash c \<Longrightarrow> cache_run hash (cache_DeleteRange hash keys mn mx c)"
| run_SetMaxSize: "cache_run hash c \<Longrightarrow> cache_run hash (SetMaxSize n c)"
| run_Free: "cache_run hash c \<Longrightarrow> cache_run hash (cache_Free c)"

lemma cache_run_size_inv: "cache_run hash c \<Longrightarrow> size_inv c"
proof (induction rule: cache_run.induct)
  case (run_new maxSize)
  then show ?case by (simp add: size_inv_def NewCache_inv) (simp add: NewCache_def)
next
  case (run_SetMaxSize c n)
  then show ?case by (auto simp: SetMaxSize_def intro: size_inv_stats)
next
  case (run_Free c)
  then show ?case by (auto simp: cache_Free_def size_inv_def cache_inv_def split: option.splits)
qed (blast intro: Write_size WriteMulti_size Snapshot_size snapshot_Deduplicate_size ClearSnapshot_size Values_size DeleteRange_size)+

text \<open>C22: Whatever the sequence of operations, the size counters cover the content and do not wrap: the keys and values in the store take at most as many bytes as
  counted, those in the snapshot at most as many as were counted when it was taken, and the size that is compared with the limit is the sum of both.\<close>

theorem cache_size_covers:
  assumes "cache_run hash c"
  shows "cstore_bytes (c_store c) \<le> unat (c_size c)
    \<and> (case c_snapshot c of None \<Rightarrow> c_snapshotSize c = 0 | Some s \<Rightarrow> cstore_bytes (sn_store s) \<le> unat (c_snapshotSize c))
    \<and> unat (cache_Size c) = unat (c_size c) + unat (c_snapshotSize c)"
proof -
  have i: "size_inv c" by (rule cache_run_size_inv [OF assms])
  then have "unat (cache_Size c) = unat (c_size c) + unat (c_snapshotSize c)"
    by (simp add: cache_Size_def size_inv_def unat_word_ariths)
  then show ?thesis using i by (cases "c_snapshot c") (auto simp: size_inv_def)
qed

theorem cache_size_covers_witness:
  "let c = cache_DeleteRange (\<lambda>k. 0) [[107]] 0 9 (snd (cache_WriteMulti (\<lambda>k. 0) [([107], [IntegerValue 1 5])] (NewCache 100))) in
   cstore_bytes (c_store c) \<le> unat (c_size c)
    \<and> (case c_snapshot c of None \<Rightarrow> c_snapshotSize c = 0 | Some s \<Rightarrow> cstore_bytes (sn_store s) \<le> unat (c_snapshotSize c))
    \<and> unat (cache_Size c) = unat (c_size c) + unat (c_snapshotSize c)"
proof -
  have "cache_run (\<lambda>k. 0) (cache_DeleteRange (\<lambda>k. 0) [[107]] 0 9 (snd (cache_WriteMulti (\<lambda>k. 0) [([107], [IntegerValue 1 5])] (NewCache 100))))"
    by (intro run_DeleteRange run_WriteMulti run_new) (simp add: NewCache_def batch_bytes_def values_Size_def)
  from cache_size_covers [OF this] show ?thesis by (simp only: Let_def)
qed

subsection \<open>Snapshots and queries\<close>

lemma stored_entry_bytes: "cstore_inv st \<Longrightarrow> entry_bytes k (cstore_entry hash k st) \<le> cstore_bytes st"
  using cache_store.size_del [of st hash k] by linarith

lemma no_bytes_no_entry: "cstore_inv st \<Longrightarrow> cstore_bytes st = 0 \<Longrightarrow> k \<noteq> [] \<Longrightarrow> cstore_entry hash k st = None"
  using stored_entry_bytes [of st k hash] by (cases "cstore_entry hash k st") (auto simp: entry_bytes_def)

lemma dedup_entry_values: "values_Deduplicate (entry_values (map_option entry_deduplicate eo)) = values_Deduplicate (entry_values eo)"
  by (cases eo) (simp_all add: entry_values_def values_dedup_entry)

text \<open>A new snapshot takes over what the store held, and nothing was in the snapshot before.\<close>

lemma Snapshot_values:
  assumes "size_inv c" "k \<noteq> []"
  shows "values_Deduplicate (snap_values hash k (snd (cache_Snapshot c)) @ hot_values hash k (snd (cache_Snapshot c)))
    = values_Deduplicate (snap_values hash k c @ hot_values hash k c)"
proof -
  let ?d = "cache_init c" and ?s = "snapshot_of (cache_init c)"
  note same = cache_init_inv(4, 5) [OF size_inv_cache_inv [OF assms(1)], of hash k, symmetric]
  note s = snapshot_of_inv [OF cache_init_size(1) [OF assms(1)]] and e = cache_Snapshot_effect [of c]
  have old: "snap_values hash k ?d = entry_values (cstore_entry hash k (sn_store ?s))"
    by (simp add: snap_values_def snapshot_of_def new_store_entry entry_values_def split: option.split)
  consider "c_snapshotting ?d" | "\<not> c_snapshotting ?d" "sn_size ?s > 0" | "\<not> c_snapshotting ?d" "sn_size ?s = 0"
    using word_neq_0_conv by blast
  then show ?thesis
  proof cases
    case 1
    then show ?thesis using e(1) same by simp
  next
    case 2
    have "snap_values hash k (snd (cache_Snapshot c)) = snap_values hash k ?d" "hot_values hash k (snd (cache_Snapshot c)) = hot_values hash k ?d"
      using e(3) [OF 2] unfolding old by (simp_all add: snap_values_def hot_values_def)
    then show ?thesis using same by simp
  next
    case 3
    have "cstore_entry hash k (sn_store ?s) = None" using no_bytes_no_entry [OF s(1) _ assms(2)] s(3) 3(2) by simp
    then have "snap_values hash k ?d = []" using old by (simp add: entry_values_def)
    moreover have "snap_values hash k (snd (cache_Snapshot c)) = hot_values hash k ?d" "hot_values hash k (snd (cache_Snapshot c)) = []"
      using e(4) [OF 3] cstore_reset_inv(2) [OF s(1)] by (simp_all add: snap_values_def hot_values_def entry_values_def)
    ultimately show ?thesis using same by simp
  qed
qed

lemma Deduplicate_snapshot_values:
  assumes "size_inv c"
  shows "values_Deduplicate (snap_values hash k (snapshot_Deduplicate c) @ hot_values hash k (snapshot_Deduplicate c))
    = values_Deduplicate (snap_values hash k c @ hot_values hash k c)"
proof -
  have "values_Deduplicate (snap_values hash k (snapshot_Deduplicate c)) = values_Deduplicate (snap_values hash k c)"
  proof (cases "c_snapshot c")
    case (Some s)
    then have "cstore_inv (sn_store s)" using assms by (simp add: size_inv_def cache_inv_def)
    then show ?thesis using Some cstore_apply_inv(2) dedup_entry_values by (simp add: snap_values_def snapshot_Deduplicate_def)
  qed (simp add: snap_values_def snapshot_Deduplicate_def)
  moreover have "hot_values hash k (snapshot_Deduplicate c) = hot_values hash k c" by (simp add: hot_values_def snapshot_Deduplicate_def)
  ultimately show ?thesis by (metis values_Deduplicate_append(1))
qed

lemma ClearSnapshot_values:
  assumes "size_inv c" "c_snapshot c = Some s"
  shows "snap_values hash k (snd (ClearSnapshot True c)) = []" "hot_values hash k (snd (ClearSnapshot True c)) = hot_values hash k c"
proof -
  note i = cache_init_inv [OF size_inv_cache_inv [OF assms(1)]]
  have "cstore_inv (sn_store s)" using assms by (simp add: size_inv_def cache_inv_def)
  then show "snap_values hash k (snd (ClearSnapshot True c)) = []" using i(6) assms(2) cstore_reset_inv(2) [of "sn_store s" hash k]
    by (simp add: ClearSnapshot_def Let_def snap_values_def updateSnapshots_def entry_values_def)
  show "hot_values hash k (snd (ClearSnapshot True c)) = hot_values hash k c" using i(6) assms(2) i(4) [of hash k]
    by (simp add: ClearSnapshot_def Let_def hot_values_def updateSnapshots_def)
qed

text \<open>C21: Flushing the cache loses nothing for a query. Taking a snapshot and sorting it change no answer, and at any later moment, with any operations in between, the
  answer is the content of the snapshot, which goes to disk, overlaid with the answer that the cache gives once the snapshot is cleared.\<close>

theorem snapshot_handover:
  assumes "cache_run hash c" "k \<noteq> []"
  shows "fst (cache_Values hash k (snd (cache_Snapshot c))) = fst (cache_Values hash k c)
    \<and> fst (cache_Values hash k (snapshot_Deduplicate c)) = fst (cache_Values hash k c)
    \<and> (\<forall>s. c_snapshot c = Some s \<longrightarrow>
        fst (cache_Values hash k c) = values_Deduplicate (cache_values hash k s @ fst (cache_Values hash k (snd (ClearSnapshot True c)))))"
proof -
  note i = cache_run_size_inv [OF assms(1)]
  note q = cache_Values_eq [OF size_inv_cache_inv, of _ hash k]
  have "fst (cache_Values hash k (snd (cache_Snapshot c))) = fst (cache_Values hash k c)"
    using q [OF i] q [OF Snapshot_size [OF i]] Snapshot_values [OF i assms(2), of hash] by simp
  moreover have "fst (cache_Values hash k (snapshot_Deduplicate c)) = fst (cache_Values hash k c)"
    using q [OF i] q [OF snapshot_Deduplicate_size [OF i]] Deduplicate_snapshot_values [OF i, of hash k] by simp
  moreover have "fst (cache_Values hash k c) = values_Deduplicate (cache_values hash k s @ fst (cache_Values hash k (snd (ClearSnapshot True c))))"
    if s: "c_snapshot c = Some s" for s
  proof -
    have "snap_values hash k c = cache_values hash k s" by (simp add: s snap_values_def cache_values_def entry_values_def split: option.split)
    then show ?thesis using q [OF i] q [OF ClearSnapshot_size [OF i, of True]] ClearSnapshot_values [OF i s, of hash k]
      by (simp add: values_Deduplicate_append(2))
  qed
  ultimately show ?thesis by blast
qed

lemma Snapshot_fresh:
  assumes "\<not> c_snapshotting c" "c_snapshot c = None"
  shows "\<exists>s. c_snapshot (snd (cache_Snapshot c)) = Some s"
  using assms by (auto simp: cache_Snapshot_def Let_def cache_init_def updateSnapshots_def updateCachedBytes_def)

lemma WriteMulti_snapshot:
  "c_snapshot (snd (cache_WriteMulti hash kvs c)) = c_snapshot c \<and> c_snapshotting (snd (cache_WriteMulti hash kvs c)) = c_snapshotting c
   \<and> c_maxSize (snd (cache_WriteMulti hash kvs c)) = c_maxSize c"
proof -
  have ing: "c_snapshotting (snd (snd (write_keys hash kvs werr added c))) = c_snapshotting c \<and> c_maxSize (snd (snd (write_keys hash kvs werr added c))) = c_maxSize c" for kvs werr added c
    by (induction hash kvs werr added c rule: write_keys.induct) (auto simp: increaseSize_def decreaseSize_def split: prod.splits sum.splits)
  define n :: u64 where "n = of_nat (sum_list (map (\<lambda>(k, vs). values_Size vs) kvs))"
  obtain werr added c1 where w: "write_keys hash kvs None n (increaseSize n (cache_init c)) = (werr, added, c1)" by (metis surj_pair)
  have "c_snapshot c1 = c_snapshot (cache_init c)" "c_snapshotting c1 = c_snapshotting (cache_init c)" "c_maxSize c1 = c_maxSize (cache_init c)"
    using w write_keys_store [of hash kvs None n "increaseSize n (cache_init c)"] ing [of kvs None n "increaseSize n (cache_init c)"]
    by (simp_all add: increaseSize_def)
  then show ?thesis using w by (simp add: cache_WriteMulti_def Let_def n_def [symmetric] updateMemSize_def) (simp add: cache_init_def)
qed

theorem snapshot_handover_witness:
  "let c = snd (cache_Snapshot (snd (cache_WriteMulti (\<lambda>k. 0) [([107], [IntegerValue 1 5])] (NewCache 0)))) in
   \<exists>s. c_snapshot c = Some s
     \<and> fst (cache_Values (\<lambda>k. 0) [107] (snd (cache_Snapshot c))) = fst (cache_Values (\<lambda>k. 0) [107] c)
     \<and> fst (cache_Values (\<lambda>k. 0) [107] (snapshot_Deduplicate c)) = fst (cache_Values (\<lambda>k. 0) [107] c)
     \<and> fst (cache_Values (\<lambda>k. 0) [107] c)
       = values_Deduplicate (cache_values (\<lambda>k. 0) [107] s @ fst (cache_Values (\<lambda>k. 0) [107] (snd (ClearSnapshot True c))))"
proof -
  let ?w = "snd (cache_WriteMulti (\<lambda>k. 0) [([107], [IntegerValue 1 5])] (NewCache 0))"
  have run: "cache_run (\<lambda>k. 0) (snd (cache_Snapshot ?w))"
    by (intro run_Snapshot run_WriteMulti run_new) (simp add: NewCache_def batch_bytes_def values_Size_def)
  obtain s where "c_snapshot (snd (cache_Snapshot ?w)) = Some s"
    using Snapshot_fresh [of ?w] WriteMulti_snapshot [of "\<lambda>k. 0" _ "NewCache 0"] by (auto simp: NewCache_def)
  with snapshot_handover [OF run, of "[107]"] show ?thesis by (simp only: Let_def) blast
qed

subsection \<open>Deletions\<close>

text \<open>What is deleted is filtered out, if the entry is sorted; the snapshot is left alone.\<close>

definition remaining :: "int \<Rightarrow> int \<Rightarrow> Value list \<Rightarrow> Value list" where
  "remaining mn mx vs = filter (\<lambda>v. \<not> (mn \<le> value_UnixNano v \<and> value_UnixNano v \<le> mx)) vs"

lemma values_Exclude_sorted:
  assumes "strict (map stamped vs)"
  shows "values_Exclude vs mn mx = remaining mn mx vs"
  using Exclude_filter [OF assms] by (simp add: values_Exclude_def remaining_def filter_map comp_def)

lemma delete_key_snapshot: "c_snapshot (delete_key hash mn mx k c) = c_snapshot c"
  by (simp add: delete_key_def Let_def split: option.split)

lemma delete_key_values:
  assumes "cstore_inv (c_store c)" "strict (map stamped (hot_values hash k c))" "\<forall>v\<in>set (hot_values hash k c). in_i64 (value_UnixNano v)"
  shows "hot_values hash k (delete_key hash mn mx k' c) = (if k' = k then remaining mn mx (hot_values hash k c) else hot_values hash k c)"
proof (cases "cstore_entry hash k' (c_store c)")
  case None
  then show ?thesis by (auto simp: delete_key_def hot_values_def remaining_def entry_values_def)
next
  case (Some e)
  let ?f = "entry_filter mn mx" and ?st = "c_store c"
  note upd = cache_store.get_upd [OF assms(1), of hash k k' ?f]
    and del = cache_store.get_del [OF assms(1), of hash k k'] cache_store.get_del [OF cache_store.inv_upd [OF assms(1)], of hash k k' hash k' ?f]
  show ?thesis
  proof (cases "k' = k")
    case False
    then show ?thesis using upd del by (simp add: delete_key_def Some Let_def hot_values_def)
  next
    case True
    then have hot: "hot_values hash k c = e_values e" using Some by (simp add: hot_values_def entry_values_def)
    have f: "e_values (?f e) = remaining mn mx (e_values e)" using values_Exclude_sorted [of "e_values e"] assms(2) hot by (simp add: entry_filter_def)
    have all: "remaining MinInt64 MaxInt64 (e_values e) = []"
      using assms(3) hot by (auto simp: remaining_def filter_empty_conv in_i64_def MinInt64_def MaxInt64_def)
    consider "mn = MinInt64 \<and> mx = MaxInt64" | "\<not> (mn = MinInt64 \<and> mx = MaxInt64)" "entry_count (?f e) = 0"
      | "\<not> (mn = MinInt64 \<and> mx = MaxInt64)" "entry_count (?f e) \<noteq> 0" by blast
    then show ?thesis
    proof cases
      case 1
      then show ?thesis using True del Some all hot by (simp add: delete_key_def Let_def hot_values_def entry_values_def)
    next
      case 2
      have "hot_values hash k (delete_key hash mn mx k' c) = entry_values (cstore_entry hash k (cstore_remove hash k (cstore_update hash k ?f ?st)))"
        unfolding delete_key_def Some option.case Let_def using 2 True by (simp only: if_False if_True) (simp add: hot_values_def)
      then show ?thesis using True del 2 f hot by (simp add: entry_values_def entry_count_def)
    next
      case 3
      have "hot_values hash k (delete_key hash mn mx k' c) = entry_values (cstore_entry hash k (cstore_update hash k ?f ?st))"
        unfolding delete_key_def Some option.case Let_def using 3 True by (simp only: if_False) (simp add: hot_values_def)
      then show ?thesis using True upd Some f hot by (simp add: entry_values_def)
    qed
  qed
qed

lemma remaining_keeps:
  "strict (map stamped vs) \<Longrightarrow> strict (map stamped (remaining mn mx vs))" "set (remaining mn mx vs) \<subseteq> set vs"
  "remaining mn mx (remaining mn mx vs) = remaining mn mx vs"
  by (auto simp: remaining_def sorted_wrt_map sorted_wrt_filter)

lemma delete_keys_values:
  assumes "cstore_inv (c_store c)" "strict (map stamped (hot_values hash k c))" "\<forall>v\<in>set (hot_values hash k c). in_i64 (value_UnixNano v)"
  shows "hot_values hash k (fold (delete_key hash mn mx) keys c) = (if k \<in> set keys then remaining mn mx (hot_values hash k c) else hot_values hash k c)
    \<and> c_snapshot (fold (delete_key hash mn mx) keys c) = c_snapshot c"
  using assms
proof (induction keys arbitrary: c)
  case (Cons k' keys)
  let ?c = "delete_key hash mn mx k' c"
  note v = delete_key_values [OF Cons.prems, of mn mx k']
  have "cstore_inv (c_store ?c)" using delete_key_size [OF Cons.prems(1)] by blast
  moreover have "strict (map stamped (hot_values hash k ?c))" "\<forall>v\<in>set (hot_values hash k ?c). in_i64 (value_UnixNano v)"
    using v Cons.prems remaining_keeps(1) [OF Cons.prems(2), of mn mx] remaining_keeps(2) [of mn mx "hot_values hash k c"] by auto
  ultimately show ?case using Cons.IH [of ?c] v by (auto simp: remaining_keeps(3) delete_key_snapshot)
qed simp

text \<open>C23: Deleting a range of times from a set of keys removes from the live entries, if these are sorted, exactly the values of these keys in the range, and leaves
  the entries of other keys and the snapshot as they are: a query then returns what remains on top of the snapshot.\<close>

theorem DeleteRange_removes_range:
  assumes "cache_run hash c" "strict (map stamped (hot_values hash k c))" "\<forall>v\<in>set (hot_values hash k c). in_i64 (value_UnixNano v)"
  shows "fst (cache_Values hash k (cache_DeleteRange hash keys mn mx c))
    = values_Deduplicate (snap_values hash k c @ (if k \<in> set keys then remaining mn mx (hot_values hash k c) else hot_values hash k c))"
proof -
  note i = cache_run_size_inv [OF assms(1)] and ci = cache_init_inv [OF size_inv_cache_inv [OF cache_run_size_inv [OF assms(1)]]]
  have "hot_values hash k (cache_DeleteRange hash keys mn mx c) = (if k \<in> set keys then remaining mn mx (hot_values hash k c) else hot_values hash k c)"
      "snap_values hash k (cache_DeleteRange hash keys mn mx c) = snap_values hash k c"
    using delete_keys_values [OF ci(2), of hash k mn mx keys] assms(2, 3) ci(4) [of hash k] ci(6)
    by (simp_all add: cache_DeleteRange_def Let_def hot_values_def snap_values_def)
  then show ?thesis using cache_Values_eq [OF size_inv_cache_inv [OF DeleteRange_size [OF i, of hash keys mn mx]], of hash k] by simp
qed

text \<open>A cache after one write.\<close>

lemma fresh_write:
  assumes "newEntryValues vs = Inr e"
  shows "fst (cache_WriteMulti hash [(k, vs)] (NewCache 0)) = None"
    "hot_values hash k (snd (cache_WriteMulti hash [(k, vs)] (NewCache 0))) = vs" "snap_values hash k (snd (cache_WriteMulti hash [(k, vs)] (NewCache 0))) = []"
proof -
  obtain st where w: "cstore_write hash k vs new_store = (Inr True, st)" using new_store_write [OF assms] by blast
  have "cstore_entry hash k st = Some e" using cache_store.get_put [OF new_store_inv, of hash k k vs] w assms by (simp add: write_entry_def new_store_entry)
  moreover have "e_values e = vs" using assms by (auto simp: newEntryValues_def Let_def split: if_splits)
  ultimately show "fst (cache_WriteMulti hash [(k, vs)] (NewCache 0)) = None"
    "hot_values hash k (snd (cache_WriteMulti hash [(k, vs)] (NewCache 0))) = vs" "snap_values hash k (snd (cache_WriteMulti hash [(k, vs)] (NewCache 0))) = []"
    using w by (simp_all add: cache_WriteMulti_def Let_def cache_init_def NewCache_def increaseSize_def updateMemSize_def hot_values_def snap_values_def entry_values_def)
qed

theorem DeleteRange_removes_range_witness:
  "fst (cache_Values (\<lambda>k. 0) [107] (cache_DeleteRange (\<lambda>k. 0) [[107]] 2 9
      (snd (cache_WriteMulti (\<lambda>k. 0) [([107], [IntegerValue 1 5, IntegerValue 2 6])] (NewCache 0))))) = values_Deduplicate [IntegerValue 1 5]"
proof -
  let ?c = "snd (cache_WriteMulti (\<lambda>k. 0) [([107], [IntegerValue 1 5, IntegerValue 2 6])] (NewCache 0))"
  have run: "cache_run (\<lambda>k. 0) ?c" by (intro run_WriteMulti run_new) (simp add: NewCache_def batch_bytes_def values_Size_def)
  have "newEntryValues [IntegerValue 1 5, IntegerValue 2 6] = Inr \<lparr> e_values = [IntegerValue 1 5, IntegerValue 2 6], e_vtype = 2 \<rparr>"
    by (simp add: newEntryValues_def)
  note w = fresh_write(2, 3) [OF this, of "\<lambda>k. 0" "[107]"]
  show ?thesis using DeleteRange_removes_range [OF run, of "[107]" "[[107]]" 2 9] w by (simp add: remaining_def in_i64_def)
qed

text \<open>C33: On an entry that is not sorted a deletion misses points: after a write of two points in descending order, deleting the time of the earlier one removes
  nothing, and a query returns both.\<close>

theorem DeleteRange_misses_unsorted:
  assumes "t < u"
  shows "fst (cache_WriteMulti hash [(k, [IntegerValue u x, IntegerValue t y])] (NewCache 0)) = None
    \<and> fst (cache_Values hash k (cache_DeleteRange hash [k] t t (snd (cache_WriteMulti hash [(k, [IntegerValue u x, IntegerValue t y])] (NewCache 0)))))
      = [IntegerValue t y, IntegerValue u x]"
proof -
  let ?vs = "[IntegerValue u x, IntegerValue t y]"
  let ?c = "snd (cache_WriteMulti hash [(k, ?vs)] (NewCache 0))"
  have "newEntryValues ?vs = Inr \<lparr> e_values = ?vs, e_vtype = 2 \<rparr>" by (simp add: newEntryValues_def)
  note w = fresh_write [OF this, of hash k]
  have inv: "cache_inv ?c" using cache_WriteMulti_store(4) [OF NewCache_inv, of hash "[(k, ?vs)]" 0 ?c] w(1) by (metis prod.collapse)
  note ci = cache_init_inv [OF inv]
  obtain e where e: "cstore_entry hash k (c_store (cache_init ?c)) = Some e" "e_values e = ?vs"
    using ci(4) [of hash k] w(2) by (cases "cstore_entry hash k (c_store (cache_init ?c))") (auto simp: hot_values_def entry_values_def)
  have f: "entry_filter t t e = e" using e(2) assms by (simp add: entry_filter_def values_Exclude_def Exclude_def FindRange_def comp_def)
  have full: "\<not> (t = MinInt64 \<and> t = MaxInt64)" by (simp add: MinInt64_def MaxInt64_def)
  have count: "entry_count e \<noteq> 0" using e(2) by (simp add: entry_count_def)
  have del: "delete_key hash t t k (cache_init ?c)
      = decreaseSize (of_nat (entry_size e) - of_nat (entry_size e)) ((cache_init ?c)\<lparr> c_store := cstore_update hash k (entry_filter t t) (c_store (cache_init ?c)) \<rparr>)"
    unfolding delete_key_def e(1) option.case Let_def f if_not_P [OF full] if_not_P [OF count] by (rule refl)
  let ?d = "cache_DeleteRange hash [k] t t ?c"
  have store: "c_store ?d = cstore_update hash k (entry_filter t t) (c_store (cache_init ?c))" "c_snapshot ?d = c_snapshot ?c" "c_initialized ?d"
    using del ci(3, 6) by (simp_all add: cache_DeleteRange_def Let_def)
  have "cache_inv ?d" using inv store cache_store.inv_upd [OF ci(2)] by (simp add: cache_inv_def)
  moreover have "hot_values hash k ?d = ?vs" "snap_values hash k ?d = []"
    using store cache_store.get_upd [OF ci(2), of hash k k] e f w(3) by (simp_all add: hot_values_def snap_values_def entry_values_def)
  moreover have "values_Deduplicate ?vs = [IntegerValue t y, IntegerValue u x]"
    using assms by (simp add: values_Deduplicate_def Deduplicate_def stamped_def)
  ultimately show ?thesis using cache_Values_eq [of ?d hash k] w(1) by simp
qed

theorem DeleteRange_misses_unsorted_witness:
  "fst (cache_Values (\<lambda>k. 0) [107] (cache_DeleteRange (\<lambda>k. 0) [[107]] 1 1
      (snd (cache_WriteMulti (\<lambda>k. 0) [([107], [IntegerValue 5 50, IntegerValue 1 10])] (NewCache 0))))) = [IntegerValue 1 10, IntegerValue 5 50]"
  using DeleteRange_misses_unsorted [of 1 5 "\<lambda>k. 0" "[107]" 50 10] by simp

subsection \<open>Splitting a snapshot\<close>

text \<open>C34: A snapshot that is split to be written concurrently loses no key and writes none twice: every key is in exactly one of the parts, with its whole entry.\<close>

theorem Split_partitions:
  assumes "cstore_inv (sn_store s)" "n > 0"
  shows "\<exists>ss. cache_Split n s = Some ss \<and> length ss = n
    \<and> (\<forall>k. \<forall>j<n. cstore_entry hash k (ss ! j) = (if j = getPartition hash k mod n then cstore_entry hash k (sn_store s) else None))"
proof (cases "n = 1")
  case True
  then show ?thesis by (simp add: cache_Split_def)
next
  case False
  obtain r where r: "sn_store s = RingStore r" "ring_inv r" using assms(1) by (cases "sn_store s") auto
  have "ring_entry hash k (ring_split n r ! j) = (if j = getPartition hash k mod n then ring_entry hash k r else None)" if "j < n" for k j
    using that ring_inv_index [OF r(2), of hash k] by (simp add: ring_split_def ring_entry_def partition_entry_def)
  then show ?thesis using False assms(2) r(1) by (simp add: cache_Split_def) (simp add: ring_split_def)
qed

theorem Split_partitions_witness:
  "\<exists>ss. cache_Split 4 \<lparr> sn_store = new_store, sn_size = 0 \<rparr> = Some ss \<and> length ss = 4
    \<and> (\<forall>k. \<forall>j<4. cstore_entry (\<lambda>k. of_nat (length k)) k (ss ! j)
        = (if j = getPartition (\<lambda>k. of_nat (length k)) k mod 4 then cstore_entry (\<lambda>k. of_nat (length k)) k new_store else None))"
  using Split_partitions [of "\<lparr> sn_store = new_store, sn_size = 0 \<rparr>" 4 "\<lambda>k. of_nat (length k)"] new_store_inv by (simp only: snapshot.simps zero_less_numeral simp_thms)

subsection \<open>Loading the log\<close>

text \<open>A batch is accepted exactly if every key accepts its values; the order of the keys does not matter.\<close>

lemma write_keys_accepts:
  assumes "cstore_inv (c_store c)" "distinct (map fst kvs)" "\<And>k vs. (k, vs) \<in> set kvs \<Longrightarrow> \<exists>b. fst (write_entry vs (cstore_entry hash k (c_store c))) = Inr b"
  shows "fst (write_keys hash kvs None added c) = None"
  using assms
proof (induction kvs arbitrary: added c)
  case (Cons kv kvs)
  obtain k vs where kv: "kv = (k, vs)" by (cases kv)
  obtain res st where w: "cstore_write hash k vs (c_store c) = (res, st)" by (metis surj_pair)
  obtain b where res: "res = Inr b" using Cons.prems(3) [of k vs] cache_store.put_result [OF Cons.prems(1), of hash k vs] w by (auto simp: kv)
  define c1 where "c1 = (if b then increaseSize (of_nat (length k)) (c\<lparr> c_store := st \<rparr>) else c\<lparr> c_store := st \<rparr>)"
  have st: "c_store c1 = st" by (simp add: c1_def)
  have "\<exists>b. fst (write_entry vs' (cstore_entry hash k' (c_store c1))) = Inr b" if "(k', vs') \<in> set kvs" for k' vs'
  proof -
    have "k' \<noteq> k" using that Cons.prems(2) by (auto simp: kv rev_image_eqI)
    then show ?thesis using cache_store.get_put [OF Cons.prems(1), of hash k' k vs] w that Cons.prems(3) [of k' vs'] by (simp add: st)
  qed
  then have "fst (write_keys hash kvs None a c1) = None" for a
    using Cons.IH [of c1 a] Cons.prems(2) cache_store.inv_put [OF Cons.prems(1), of hash k vs] w by (simp add: kv st)
  then show ?case using w res by (cases b) (simp_all add: kv c1_def)
qed simp

definition same_entries :: "(bytes \<Rightarrow> u64) \<Rightarrow> cache \<Rightarrow> cache \<Rightarrow> bool" where
  "same_entries hash c d \<longleftrightarrow> (\<forall>k. cstore_entry hash k (c_store (cache_init c)) = cstore_entry hash k (c_store (cache_init d)))"

lemma WriteMulti_replay:
  assumes "cache_inv c" "cache_inv d" "same_entries hash c d" "c_maxSize d = 0" "distinct (map fst kvs)" "distinct (map fst kvs')" "set kvs' = set kvs"
    and w: "cache_WriteMulti hash kvs c = (None, c')"
  shows "\<exists>d'. cache_WriteMulti hash kvs' d = (None, d') \<and> cache_inv c' \<and> cache_inv d' \<and> same_entries hash c' d' \<and> c_maxSize d' = 0
    \<and> c_snapshot c' = c_snapshot c \<and> c_snapshot d' = c_snapshot d"
proof -
  note cw = cache_WriteMulti_store [OF assms(1) w]
  note ci = cache_init_inv [OF assms(1)] and di = cache_init_inv [OF assms(2)]
  have mo: "map_of kvs' = map_of kvs" using map_of_inject_set [OF assms(6, 5)] assms(7) by blast
  have ok: "\<exists>b. fst (write_entry vs (cstore_entry hash k (c_store (cache_init d)))) = Inr b" if "(k, vs) \<in> set kvs'" for k vs
  proof -
    have "map_of kvs k = Some vs" using that assms(5, 7) by simp
    from write_keys_ok [OF _ assms(5) cw(3) this] ci(2) assms(3) show ?thesis by (simp add: same_entries_def)
  qed
  define n :: u64 where "n = of_nat (sum_list (map (\<lambda>(k, vs). values_Size vs) kvs'))"
  have "fst (write_keys hash kvs' None n (increaseSize n (cache_init d))) = None"
    by (rule write_keys_accepts) (simp_all add: di(2) assms(6) ok)
  moreover have "c_maxSize (cache_init d) = 0" using assms(4) by (simp add: cache_init_def)
  ultimately have "fst (cache_WriteMulti hash kvs' d) = None" by (auto simp: cache_WriteMulti_def Let_def n_def [symmetric] split: prod.splits)
  then obtain d' where d': "cache_WriteMulti hash kvs' d = (None, d')" by (cases "cache_WriteMulti hash kvs' d") auto
  note dw = cache_WriteMulti_store [OF assms(2) d']
  have init: "c_store (cache_init x) = c_store x" if "cache_inv x" "c_store x \<noteq> EmptyStore" for x using that by (simp add: cache_init_def cache_inv_def split: if_splits)
  have inv: "cstore_inv (c_store c')" "cstore_inv (c_store d')" unfolding cw(1) dw(1) by (rule cache_store.inv_put_all [OF ci(2)] cache_store.inv_put_all [OF di(2)])+
  have "c_store c' \<noteq> EmptyStore" "c_store d' \<noteq> EmptyStore" using inv by auto
  then have "c_store (cache_init c') = c_store c'" "c_store (cache_init d') = c_store d'" using init cw(4) dw(4) by blast+
  moreover have "cstore_entry hash k (c_store c') = cstore_entry hash k (c_store d')" for k
    unfolding cw(1) dw(1) cache_store.get_put_all [OF ci(2) assms(5)] cache_store.get_put_all [OF di(2) assms(6)] mo
    using assms(3) by (simp add: same_entries_def split: option.split)
  ultimately have "same_entries hash c' d'" by (simp add: same_entries_def)
  then show ?thesis using d' cw(2, 4) dw(2, 4) WriteMulti_snapshot [of hash kvs' d] assms(4) by simp
qed

fun write_all :: "(bytes \<Rightarrow> u64) \<Rightarrow> (bytes \<times> Value list) list list \<Rightarrow> cache \<Rightarrow> cache option" where
  "write_all hash [] c = Some c"
| "write_all hash (b # bs) c = (case cache_WriteMulti hash b c of (None, c') \<Rightarrow> write_all hash bs c' | (Some e, c') \<Rightarrow> None)"

lemma load_replays:
  assumes "write_all hash bs c = Some c'" "list_all2 (\<lambda>b b'. distinct (map fst b) \<and> distinct (map fst b') \<and> set b' = set b) bs bs'"
    "cache_inv c" "cache_inv d" "same_entries hash c d" "c_maxSize d = 0" "c_snapshot d = c_snapshot c"
  shows "\<exists>d'. load_entries hash (map WriteWALEntry bs') d = (None, d') \<and> cache_inv c' \<and> cache_inv d' \<and> same_entries hash c' d' \<and> c_snapshot d' = c_snapshot c'"
  using assms(2, 1, 3-7)
proof (induction arbitrary: c d rule: list_all2_induct)
  case (Cons b bs b' bs')
  obtain c1 where w: "cache_WriteMulti hash b c = (None, c1)" "write_all hash bs c1 = Some c'"
    using Cons.prems(1) by (auto split: prod.splits option.splits)
  obtain d1 where d1: "cache_WriteMulti hash b' d = (None, d1)" "cache_inv c1" "cache_inv d1" "same_entries hash c1 d1" "c_maxSize d1 = 0"
      "c_snapshot c1 = c_snapshot c" "c_snapshot d1 = c_snapshot d"
    using WriteMulti_replay [OF Cons.prems(2-5) _ _ _ w(1), of b'] Cons.hyps(1) by auto
  show ?case using Cons.IH [OF w(2) d1(2-5)] d1 Cons.prems(6) by simp
qed simp

text \<open>C20: Loading the log restores the cache: after any sequence of accepted batches, a new cache into which the logged batches are loaded, each with its keys in any
  order, accepts all of them without regard to the limit, ends with its limit set again, and answers every query like the cache before.\<close>

theorem reload_restores_writes:
  assumes "write_all hash bs (NewCache m) = Some c" "list_all2 (\<lambda>b b'. distinct (map fst b) \<and> distinct (map fst b') \<and> set b' = set b) bs bs'"
  shows "\<exists>c'. reloadCache hash (map WriteWALEntry bs') (NewCache m) = (None, c') \<and> c_maxSize c' = m
    \<and> (\<forall>k. fst (cache_Values hash k c') = fst (cache_Values hash k c))"
proof -
  have "cache_inv (SetMaxSize 0 (NewCache m))" "same_entries hash (NewCache m) (SetMaxSize 0 (NewCache m))"
    by (simp_all add: SetMaxSize_def NewCache_def cache_inv_def same_entries_def cache_init_def)
  from load_replays [OF assms NewCache_inv this] obtain d where d: "load_entries hash (map WriteWALEntry bs') (SetMaxSize 0 (NewCache m)) = (None, d)"
      "cache_inv c" "cache_inv d" "same_entries hash c d" "c_snapshot d = c_snapshot c" by (auto simp: SetMaxSize_def NewCache_def)
  let ?c' = "SetMaxSize m d"
  have inv: "cache_inv ?c'" using d(3) by (simp add: cache_inv_def SetMaxSize_def)
  have "hot_values hash k ?c' = hot_values hash k c" for k
    using cache_init_inv(4) [OF d(2), of hash k] cache_init_inv(4) [OF d(3), of hash k] d(4) by (simp add: hot_values_def same_entries_def SetMaxSize_def)
  moreover have "snap_values hash k ?c' = snap_values hash k c" for k using d(5) by (simp add: snap_values_def SetMaxSize_def)
  ultimately have "fst (cache_Values hash k ?c') = fst (cache_Values hash k c)" for k by (simp add: cache_Values_eq [OF inv] cache_Values_eq [OF d(2)])
  then show ?thesis using d(1) by (simp add: reloadCache_def NewCache_def) (simp add: SetMaxSize_def)
qed

theorem reload_restores_writes_witness:
  "\<exists>c c'. write_all (\<lambda>k. 0) [[([107], [IntegerValue 1 5])]] (NewCache 0) = Some c
    \<and> reloadCache (\<lambda>k. 0) [WriteWALEntry [([107], [IntegerValue 1 5])]] (NewCache 0) = (None, c')
    \<and> (\<forall>k. fst (cache_Values (\<lambda>k. 0) k c') = fst (cache_Values (\<lambda>k. 0) k c))"
proof -
  have "newEntryValues [IntegerValue 1 5] = Inr \<lparr> e_values = [IntegerValue 1 5], e_vtype = 2 \<rparr>" by (simp add: newEntryValues_def)
  from fresh_write(1) [OF this, of "\<lambda>k. 0" "[107]"] obtain c where "write_all (\<lambda>k. 0) [[([107], [IntegerValue 1 5])]] (NewCache 0) = Some c"
    by (cases "cache_WriteMulti (\<lambda>k. 0) [([107], [IntegerValue 1 5])] (NewCache 0)") auto
  with reload_restores_writes [OF this, of "[[([107], [IntegerValue 1 5])]]"] show ?thesis by auto
qed

end
