(* ===== verification/Spec2Isabelle.thy ===== *)
theory Spec2Isabelle
  imports Hh_Processor Values Typed_Block Meta_Store Meta_Client Point_Writer Wal Cache_Props
begin

text \<open>
  A verification of the clustered time-series database in \<^verbatim>\<open>src/\<close>. File names below are relative to that directory.

  \<^bold>\<open>The program.\<close> A cluster has meta nodes and data nodes. The meta nodes replicate the cluster metadata (\<^verbatim>\<open>services/meta\<close>): which nodes there are, and
  which data nodes own which shard of which shard group. A data node that receives points asks its metadata client for the shard groups, maps the points to shards
  and writes every shard to its owners (\<^verbatim>\<open>services/data/point_writer.go\<close>). A write for an owner that cannot be reached goes to a durable queue for that node
  (\<^verbatim>\<open>services/hh\<close>, hinted handoff) and is sent later. On the owner the storage engine (\<^verbatim>\<open>tsdb/engine/tsm1\<close>) puts the points into an in-memory cache and a
  write-ahead log, and later into files of compressed blocks.

  \<^bold>\<open>Shared theories.\<close>
  \<^item> \<open>Prelude\<close>: bytes and 64-bit integers (\<open>8 word\<close>, \<open>u64\<close>, and \<open>int\<close> with the wrap-around \<open>i64\<close>), \<^verbatim>\<open>encoding/binary\<close>, lemmas on lists and words.
  \<^item> \<open>Go_Search\<close> (\<^verbatim>\<open>sort.Search\<close>) and \<open>Go_Strconv\<close> (decimal numbers in file names, and when they sort as strings like the numbers).
  \<^item> \<open>Fifo\<close>, \<open>Decoder\<close> and \<open>Ring\<close> hold the interfaces as locales: \<open>fifo\<close> for a durable queue and its consumer, \<open>decoder\<close>, \<open>decoder_pair\<close> and \<open>value_codec\<close> (in
    \<open>Block\<close>) for decoders and the loops that drain them, \<open>storer\<close> for the store of the cache. They are interpreted with the definitions of the queue, of the
    codecs, and of the ring and the cache store.

  \<^bold>\<open>Hinted handoff.\<close>
  \<^item> \<open>Hh_Segment\<close> models the type \<^verbatim>\<open>segment\<close> of \<^verbatim>\<open>services/hh/queue.go\<close>: a file with length-prefixed records and the read position in its last eight bytes.
  \<^item> \<open>Hh_Queue\<close> models the type \<^verbatim>\<open>queue\<close> on a directory of such files, and \<open>Hh_Queue_Props\<close> shows that \<^verbatim>\<open>Append\<close>, \<^verbatim>\<open>Current\<close> and \<^verbatim>\<open>Advance\<close> are those of a
    first-in-first-out list of pending records, what a purge removes and keeps, and when reopening keeps the records.
  \<^item> \<open>Hh_Processor\<close> models \<^verbatim>\<open>node_processor.go\<close> and \<^verbatim>\<open>service.go\<close>: under any interleaving of writes, the single operations of the sender, purges and the
    clock (\<open>hh_step\<close>) accepted records leave the queue in order, and those the node confirmed are the ones that left as delivered; a retry round delivers everything to a node that accepts it; the retry interval stays within its bounds.

  \<^bold>\<open>Storage engine.\<close>
  \<^item> \<open>Values\<close> models slices of timestamped values (\<^verbatim>\<open>encoding.gen.go\<close>): \<^verbatim>\<open>Deduplicate\<close> is canonical, \<^verbatim>\<open>Merge\<close> of two non-empty
    slices is deduplicating the concatenation.
  \<^item> \<open>Bit_Reader\<close>, \<open>Bool_Codec\<close>, \<open>Int_Codec\<close>, \<open>Time_Codec\<close>, \<open>String_Codec\<close> and \<open>Float_Codec\<close> model the files \<^verbatim>\<open>bit_reader.go\<close>, \<^verbatim>\<open>bool.go\<close>, \<^verbatim>\<open>int.go\<close>,
    \<^verbatim>\<open>timestamp.go\<close>, \<^verbatim>\<open>string.go\<close> and \<^verbatim>\<open>float.go\<close> with a round trip each; \<open>Simple8b\<close> states what is used of the packing library.
  \<^item> \<open>Block\<close> models \<^verbatim>\<open>encoding.go\<close>: values, blocks and the pools of encoders, with the round trip of blocks of all five types. \<open>Typed_Block\<close> shows that the
    generated encoders of \<^verbatim>\<open>encoding.gen.go\<close> agree with them, up to the state in which some pooled encoders are put back.
  \<^item> \<open>Wal_Entry\<close> and \<open>Wal\<close> model \<^verbatim>\<open>wal.go\<close>: entries, segment files, writers and readers, and the log as a step relation with crashes. They show that a
    segment cut anywhere gives the complete entries, and that after a crash at any moment the log opens again with all synced entries in order.
  \<^item> \<open>Ring\<close> and \<open>Cache\<close> model \<^verbatim>\<open>ring.go\<close> and \<^verbatim>\<open>cache.go\<close>, the wrapping size counters included. A query after a write returns the values before with the written
    ones on top. \<open>Cache_Props\<close> has the sequences of operations as a relation and shows over them that the counters cover the content and do not wrap, that flushing
    through a snapshot loses nothing for queries, what a deletion removes (and that it misses points of an unsorted entry), that splitting a snapshot keeps every key
    in one part, and that loading the log restores the answers of the cache.

  \<^bold>\<open>Metadata.\<close>
  \<^item> \<open>Meta_Data\<close> models \<^verbatim>\<open>services/meta/data.go\<close>: creating a shard group distributes its shards, removing a node leaves no shard without an owner.
  \<^item> \<open>Meta_Codec\<close> models the translation to messages, \<open>Meta_Fsm\<close> the state machine of \<^verbatim>\<open>store_fsm.go\<close>: identities of nodes over the life of a cluster, failed
    commands change nothing, and what a snapshot, which is a pointer to live metadata, restores when commands are applied before it is persisted.
  \<^item> \<open>Meta_Store\<close> models \<^verbatim>\<open>store.go\<close> with the rebalancing of shards. \<open>rebalance_step\<close> has the rounds of rebalancing, which the source starts every second
    and which overlap, with proposals that raft loses or commits late: which owners shards can get, and that a shard can get one twice.
  \<^item> \<open>Meta_Client\<close> models \<^verbatim>\<open>client.go\<close>: a command that is reported as done was accepted at the end of a run of attempts (\<open>tried\<close>) and the client has its
    effect; the login cache lets in nobody whose password, or its salted hash, does not match.
  \<^item> \<open>Point_Writer\<close> models \<^verbatim>\<open>services/data/point_writer.go\<close>: a successful request means that enough owners of the right shard accepted every point.

  \<^bold>\<open>How code is modelled.\<close> Structs are records, enums and errors are datatypes, a fallible function returns a sum or an option, a panic is an error value or \<open>None\<close>. A
  method on a pointer takes and returns the record. Files are association lists of names and contents. Go maps are maps, or association lists where the order of
  iteration matters; the theorems then hold for every order. Goroutines are steps of a relation or lists of events in any order, and operations under a lock are
  atomic. Clocks are arguments.

  \<^bold>\<open>Bounds and fuel.\<close> The loop of the purge and the retry loop take fuel and return \<open>None\<close> without it; for the purge two rounds more than there are segments are enough, for the retry
  loop one more than the number of pending records, and both are proved. Commands of the client are tried as often as the code tries (\<^verbatim>\<open>maxRetries\<close>). All other
  loops are structural or have a termination proof. Theorems on the log assume segment numbers below 100000, the limit of five-digit file names (beyond it a
  theorem shows the loss), and those on size counters assume that the sizes fit 64 bits.

  \<^bold>\<open>Parameters.\<close> Code outside \<^verbatim>\<open>src/\<close> is an argument: the compression libraries snappy and simple8b, the bit writer and bit counter of the float codec, the hash of
  the ring, password hashing, the single-node metadata of the underlying database, HTTP, what raft does with a proposed command (\<open>rf_apply\<close>), the copying of shards over the network, and the protobuf wire format. Where a theorem needs a fact about them, such
  as that decompressing undoes compressing, it is a named hypothesis, and a witness has a concrete function that satisfies it.

  \<^bold>\<open>Not modelled.\<close>
  \<^item> The files of blocks and everything that reads them: \<^verbatim>\<open>reader.go\<close>, \<^verbatim>\<open>writer.go\<close>, \<^verbatim>\<open>file_store.go\<close>, \<^verbatim>\<open>compact.go\<close>, \<^verbatim>\<open>tombstone.go\<close>, and the iterators and
    cursors. They are memory maps, reference counts and query plans of the underlying database. Of \<^verbatim>\<open>engine.go\<close> only loading the cache is modelled.
  \<^item> RPC, HTTP and gRPC services, start-up code, the retention timer, the stress tool: network and process code around the modelled components.
  \<^item> The raft library and its set-up (\<^verbatim>\<open>raft_state.go\<close>): the state machine is verified for every sequence of committed commands.
  \<^item> The rate limiter of hinted handoff (\<^verbatim>\<open>limiter.go\<close>), which only delays the retry loop.
\<close>

end
